(* ===== verification/Prelude.thy ===== *)
theory Prelude
  imports Main "HOL-Library.Word"
begin

text \<open>
  Shared vocabulary of the softgpu development: the fixed-width integer types of the C++
  sources, the error numbers the driver and the device return, the half-open byte intervals
  every address range is read as, and the generic facts on words and lists that the component
  theories use. A locale \<open>invariant_machine\<close> packages "initial states satisfy the invariant and
  steps keep it" for the interleaving models of the concurrent protocols.
\<close>

unbundle bit_operations_syntax

section \<open>Types\<close>

type_synonym u8 = "8 word"
type_synonym u32 = "32 word"
type_synonym u64 = "64 word"

text \<open>The \<open>errno\<close> values the sources return negated. Success (0) is \<^const>\<open>Inr\<close> or \<^const>\<open>None\<close>.\<close>

datatype errno = EINVAL | ENOMEM | EFAULT | EBADF | EIO | EEXIST | ENOTTY | ENODEV | EBUSY
  | EINTR | ENOSYS

named_theorems word_nat \<open>reading machine words as natural numbers\<close>
named_theorems block_simps \<open>byte intervals of address ranges and how often they cover a byte\<close>

section \<open>Words read as natural numbers\<close>

lemma unat_less_64: "unat (x :: u64) < 18446744073709551616"
  using unsigned_less [of x] by simp

lemma unat_less_32: "unat (x :: u32) < 4294967296"
  using unsigned_less [of x] by simp

lemma unat_le_64: "unat (x :: u64) \<le> 18446744073709551616"
  using unat_less_64 [of x] by linarith

lemma unat_add_64 [word_nat]:
  "unat (x :: u64) + unat y < 2 ^ 64 \<Longrightarrow> unat (x + y) = unat x + unat y"
  by (simp add: unat_word_ariths)

lemma unat_sub_64 [word_nat]: "(y :: u64) \<le> x \<Longrightarrow> unat (x - y) = unat x - unat y"
  by (rule unat_sub)

lemma unat_mult_64 [word_nat]:
  "unat (x :: u64) * unat y < 2 ^ 64 \<Longrightarrow> unat (x * y) = unat x * unat y"
  by (simp add: unat_word_ariths)

lemma unat_eq_0_iff [simp]: "unat (x :: 'a :: len word) = 0 \<longleftrightarrow> x = 0"
  by (simp add: unat_eq_zero)

lemma unat_of_nat_64 [word_nat]: "n < 2 ^ 64 \<Longrightarrow> unat (of_nat n :: u64) = n"
  by (simp add: unsigned_of_nat take_bit_nat_eq_self)

lemma word_le_unat: "(x :: 'a :: len word) \<le> y \<longleftrightarrow> unat x \<le> unat y"
  by (rule word_le_nat_alt)

lemma word_less_unat: "(x :: 'a :: len word) < y \<longleftrightarrow> unat x < unat y"
  by (rule word_less_nat_alt)

lemma word_eq_unat: "(x :: 'a :: len word) = y \<longleftrightarrow> unat x = unat y"
  by (simp add: word_unat_eq_iff)

section \<open>Address ranges\<close>

text \<open>The bytes of the range that starts at \<open>a\<close> and has length \<open>l\<close>, as natural numbers, so that a
  range that ends at \<open>2 ^ 64\<close> does not wrap.\<close>

definition ivl :: "u64 \<times> u64 \<Rightarrow> nat set" where
  "ivl b = {unat (fst b) ..< unat (fst b) + unat (snd b)}"

lemma mem_ivl [block_simps]: "x \<in> ivl (a, l) \<longleftrightarrow> unat a \<le> x \<and> x < unat a + unat l"
  by (simp add: ivl_def)

lemma start_in_ivl: "l \<noteq> 0 \<Longrightarrow> unat a \<in> ivl (a, l)"
  by (auto simp: mem_ivl unat_gt_0)

text \<open>How many ranges of a list hold the byte \<open>x\<close>. A list of pairwise disjoint ranges that fill
  \<open>{lo ..< hi}\<close> is one whose cover is 1 inside and 0 outside.\<close>

definition cover :: "(u64 \<times> u64) list \<Rightarrow> nat \<Rightarrow> nat" where
  "cover bs x = (\<Sum>b \<leftarrow> bs. if x \<in> ivl b then 1 else 0)"

lemma cover_Nil [simp]: "cover [] x = 0"
  by (simp add: cover_def)

lemma cover_Cons [simp]: "cover (b # bs) x = (if x \<in> ivl b then 1 else 0) + cover bs x"
  by (simp add: cover_def)

lemma cover_append [simp]: "cover (bs @ cs) x = cover bs x + cover cs x"
  by (simp add: cover_def)

lemma cover_pos: "b \<in> set bs \<Longrightarrow> x \<in> ivl b \<Longrightarrow> 0 < cover bs x"
  by (induction bs) auto

lemma cover_zero_iff: "cover bs x = 0 \<longleftrightarrow> (\<forall>b \<in> set bs. x \<notin> ivl b)"
  by (induction bs) auto

lemma cover_two:
  assumes "b \<in> set bs" "c \<in> set bs" "b \<noteq> c" "x \<in> ivl b" "x \<in> ivl c"
  shows "1 < cover bs x"
proof -
  obtain us vs where bs: "bs = us @ b # vs" using assms(1) by (meson split_list)
  then have "c \<in> set (us @ vs)" using assms by auto
  then have "0 < cover (us @ vs) x" using assms(5) by (rule cover_pos)
  with bs assms(4) show ?thesis by simp
qed

lemma cover_remove1: "b \<in> set bs \<Longrightarrow>
    cover bs x = (if x \<in> ivl b then 1 else 0) + cover (remove1 b bs) x"
  by (induction bs) auto

section \<open>Lists\<close>

lemma sorted_wrt_compare:
  "sorted_wrt P xs \<Longrightarrow> x \<in> set xs \<Longrightarrow> y \<in> set xs \<Longrightarrow> x \<noteq> y \<Longrightarrow> P x y \<or> P y x"
  by (induction xs) auto

lemma find_split:
  "find P xs = Some x \<Longrightarrow> \<exists>us vs. xs = us @ x # vs \<and> P x \<and> (\<forall>u \<in> set us. \<not> P u)"
proof (induction xs)
  case (Cons y ys)
  show ?case
  proof (cases "P y")
    case True
    with Cons.prems have "y # ys = [] @ x # ys \<and> P x \<and> (\<forall>u \<in> set []. \<not> P u)" by simp
    then show ?thesis by blast
  next
    case False
    with Cons obtain us vs where "ys = us @ x # vs" "P x" "\<forall>u \<in> set us. \<not> P u" by auto
    with False have "y # ys = (y # us) @ x # vs \<and> P x \<and> (\<forall>u \<in> set (y # us). \<not> P u)" by simp
    then show ?thesis by blast
  qed
qed simp

section \<open>Machines with an invariant\<close>

text \<open>The contract of an interleaving model: a set of initial states, a step relation, and an
  invariant that holds initially and is kept by every step. The one lemma a client needs is that
  the invariant holds after any run.\<close>

locale invariant_machine =
  fixes init :: "'s \<Rightarrow> bool"
    and step :: "'s \<Rightarrow> 's \<Rightarrow> bool"
    and I :: "'s \<Rightarrow> bool"
  assumes init_inv: "init s \<Longrightarrow> I s"
    and step_inv: "I s \<Longrightarrow> step s t \<Longrightarrow> I t"
begin

lemma run_inv: "step\<^sup>*\<^sup>* s t \<Longrightarrow> I s \<Longrightarrow> I t"
  by (induction rule: rtranclp_induct) (auto intro: step_inv)

lemma reachable_inv: "init s \<Longrightarrow> step\<^sup>*\<^sup>* s t \<Longrightarrow> I t"
  using run_inv init_inv by blast

end

end
