(* ===== verification/Abi.thy ===== *)
theory Abi
  imports Prelude
begin

text \<open>
  The driver ABI of \<^verbatim>\<open>src/include/softgpu/sg_ioctl.h\<close>: sizes, limits, opcodes, the 64-byte command
  \<^verbatim>\<open>sg_cmd\<close>, and the layout of the char device's mapping (one control page, then one page-aligned
  ring per channel). The opcode stays the 32-bit field of the command, so that out-of-range
  opcodes are values of the model.
\<close>

section \<open>Sizes and limits\<close>

definition SG_VRAM_SIZE :: u64 where "SG_VRAM_SIZE = push_bit 20 256"
definition SG_PAGE_SIZE :: u64 where "SG_PAGE_SIZE = 4096"
definition SG_VA_SIZE :: u64 where "SG_VA_SIZE = push_bit 30 1"
definition SG_ALLOC_ALIGN :: u64 where "SG_ALLOC_ALIGN = SG_PAGE_SIZE"
definition SG_STAGING_SLOTS :: u32 where "SG_STAGING_SLOTS = 8"
definition SG_STAGING_CHUNK :: u64 where "SG_STAGING_CHUNK = push_bit 10 256"
definition SG_MAX_ENGINES :: u32 where "SG_MAX_ENGINES = 4"
definition SG_MAX_CHANNELS :: u32 where "SG_MAX_CHANNELS = 8"
definition SG_ENGINE_COMPUTE :: u32 where "SG_ENGINE_COMPUTE = 0"
definition SG_WAIT_ALL :: u32 where "SG_WAIT_ALL = 0xffffffff"
definition SG_WAIT_DEFAULT :: u32 where "SG_WAIT_DEFAULT = 0"
definition SG_WAIT_SPIN :: u32 where "SG_WAIT_SPIN = 1"
definition SG_WAIT_BLOCK :: u32 where "SG_WAIT_BLOCK = 2"
definition SG_PRIORITY_LEAST :: int where "SG_PRIORITY_LEAST = 0"
definition SG_PRIORITY_GREATEST :: int where "SG_PRIORITY_GREATEST = -7"
definition SG_SUBMIT_DIRECT :: u32 where "SG_SUBMIT_DIRECT = 1"
definition SG_ABI_VERSION :: u32 where "SG_ABI_VERSION = 12"

lemmas sg_sizes = SG_VRAM_SIZE_def SG_PAGE_SIZE_def SG_VA_SIZE_def SG_ALLOC_ALIGN_def

datatype sg_wait_policy = SG_POLICY_SPIN | SG_POLICY_BLOCK | SG_POLICY_HYBRID | SG_POLICY_ADAPTIVE
datatype sg_submit_mode = SG_SUBMIT_MUTEX | SG_SUBMIT_TICKET
datatype sg_idle_policy = SG_IDLE_SPIN | SG_IDLE_SLEEP | SG_IDLE_HYBRID | SG_IDLE_ADAPTIVE

section \<open>Commands\<close>

definition SG_OP_NOP :: u32 where "SG_OP_NOP = 0"
definition SG_OP_FILL :: u32 where "SG_OP_FILL = 1"
definition SG_OP_COPY_H2D :: u32 where "SG_OP_COPY_H2D = 2"
definition SG_OP_COPY_D2H :: u32 where "SG_OP_COPY_D2H = 3"
definition SG_OP_COPY_D2D :: u32 where "SG_OP_COPY_D2D = 4"
definition SG_OP_VADD_F32 :: u32 where "SG_OP_VADD_F32 = 5"
definition SG_OP_GEMM_F32 :: u32 where "SG_OP_GEMM_F32 = 6"
definition SG_OP_WAIT_FENCE :: u32 where "SG_OP_WAIT_FENCE = 7"
definition SG_OP_COUNT :: u32 where "SG_OP_COUNT = 8"

lemmas sg_ops = SG_OP_NOP_def SG_OP_FILL_def SG_OP_COPY_H2D_def SG_OP_COPY_D2H_def
  SG_OP_COPY_D2D_def SG_OP_VADD_F32_def SG_OP_GEMM_F32_def SG_OP_WAIT_FENCE_def SG_OP_COUNT_def

record sg_cmd =
  opcode :: u32
  cmd_flags :: u32
  dst :: u64
  src0 :: u64
  src1 :: u64
  cmd_size :: u64
  arg0 :: u32
  arg1 :: u32
  arg2 :: u32
  val :: u32
  reserved :: u64

definition zero_cmd :: sg_cmd where
  "zero_cmd = \<lparr>opcode = 0, cmd_flags = 0, dst = 0, src0 = 0, src1 = 0, cmd_size = 0, arg0 = 0,
     arg1 = 0, arg2 = 0, val = 0, reserved = 0\<rparr>"

definition is_copy_op :: "u32 \<Rightarrow> bool" where
  "is_copy_op op \<longleftrightarrow> op = SG_OP_COPY_H2D \<or> op = SG_OP_COPY_D2H \<or> op = SG_OP_COPY_D2D"

definition is_compute_op :: "u32 \<Rightarrow> bool" where
  "is_compute_op op \<longleftrightarrow> op = SG_OP_FILL \<or> op = SG_OP_VADD_F32 \<or> op = SG_OP_GEMM_F32"

section \<open>The char device's mapping\<close>

definition sg_kmod_ring_bytes :: "u32 \<Rightarrow> u64" where
  "sg_kmod_ring_bytes depth = (let n = ucast depth * 64 in (n + 4095) AND NOT 4095)"

definition sg_kmod_map_bytes :: "u32 \<Rightarrow> u32 \<Rightarrow> u32 \<Rightarrow> u64" where
  "sg_kmod_map_bytes engines channels depth =
     4096 + ucast engines * ucast channels * sg_kmod_ring_bytes depth"

definition sg_kmod_ring_off :: "u32 \<Rightarrow> u32 \<Rightarrow> u32 \<Rightarrow> u32 \<Rightarrow> u64" where
  "sg_kmod_ring_off engine channel channels depth =
     4096 + (ucast engine * ucast channels + ucast channel) * sg_kmod_ring_bytes depth"

end
