(* ===== verification/Mmu.thy ===== *)
theory Mmu
  imports Abi
begin

text \<open>
  The device MMU of \<^verbatim>\<open>src/src/device/mmu.h\<close> and \<^verbatim>\<open>mmu.cpp\<close>: a page table indexed by virtual page number,
  a side array of host addresses, and one 64-entry TLB per engine. Page-table entries keep the
  source's bit layout. Each operation is one atomic step here; the interleaving of a TLB fill
  with a shootdown is the subject of \<^verbatim>\<open>Shootdown\<close>.
\<close>

section \<open>Page-table entries\<close>

definition SG_PAGE_SHIFT :: nat where "SG_PAGE_SHIFT = 12"
definition SG_TLB_ENTRIES :: nat where "SG_TLB_ENTRIES = 64"
definition PTE_PRESENT :: u64 where "PTE_PRESENT = push_bit 0 1"
definition PTE_IN_VRAM :: u64 where "PTE_IN_VRAM = push_bit 1 1"
definition PTE_DIRTY :: u64 where "PTE_DIRTY = push_bit 2 1"
definition PTE_ACCESSED :: u64 where "PTE_ACCESSED = push_bit 3 1"
definition PTE_FRAME_SHIFT :: nat where "PTE_FRAME_SHIFT = 12"

definition page_floor :: "u64 \<Rightarrow> u64" where
  "page_floor a = a AND NOT (SG_PAGE_SIZE - 1)"

definition page_offset :: "u64 \<Rightarrow> u64" where
  "page_offset a = a AND (SG_PAGE_SIZE - 1)"

definition pte_pa :: "u64 \<Rightarrow> u64" where
  "pte_pa pte = push_bit SG_PAGE_SHIFT (drop_bit PTE_FRAME_SHIFT pte)"

definition vpn_of :: "u64 \<Rightarrow> u64" where
  "vpn_of va = drop_bit SG_PAGE_SHIFT va"

named_theorems pte_simps \<open>flag bits and frames of page-table entries\<close>

lemmas pte_consts = PTE_PRESENT_def PTE_IN_VRAM_def PTE_DIRTY_def PTE_ACCESSED_def
  PTE_FRAME_SHIFT_def SG_PAGE_SHIFT_def

definition presentp :: "u64 \<Rightarrow> bool" where "presentp p = bit p 0"
definition in_vramp :: "u64 \<Rightarrow> bool" where "in_vramp p = bit p 1"
definition dirtyp :: "u64 \<Rightarrow> bool" where "dirtyp p = bit p 2"
definition accessedp :: "u64 \<Rightarrow> bool" where "accessedp p = bit p 3"
definition frame_of :: "u64 \<Rightarrow> u64" where "frame_of p = drop_bit 12 p"

lemmas pte_view_defs = presentp_def in_vramp_def dirtyp_def accessedp_def

lemma flag_test [pte_simps]:
  "(p AND PTE_PRESENT = 0) = (\<not> presentp p)" "(p AND PTE_IN_VRAM = 0) = (\<not> in_vramp p)"
  "(p AND PTE_DIRTY = 0) = (\<not> dirtyp p)" "(p AND PTE_ACCESSED = 0) = (\<not> accessedp p)"
  using and_exp_eq_0_iff_not_bit [of p 0] and_exp_eq_0_iff_not_bit [of p 1]
    and_exp_eq_0_iff_not_bit [of p 2] and_exp_eq_0_iff_not_bit [of p 3]
  by (simp_all add: pte_consts pte_view_defs)

lemma bit_push_one: "bit (push_bit k (1 :: u64)) n \<longleftrightarrow> n = k \<and> n < 64"
  by (auto simp: bit_simps)

lemma flag_const [pte_simps]:
  "presentp PTE_PRESENT" "\<not> in_vramp PTE_PRESENT" "\<not> dirtyp PTE_PRESENT" "\<not> accessedp PTE_PRESENT"
  "\<not> presentp PTE_IN_VRAM" "in_vramp PTE_IN_VRAM" "\<not> dirtyp PTE_IN_VRAM" "\<not> accessedp PTE_IN_VRAM"
  "\<not> presentp PTE_DIRTY" "\<not> in_vramp PTE_DIRTY" "dirtyp PTE_DIRTY" "\<not> accessedp PTE_DIRTY"
  "\<not> presentp PTE_ACCESSED" "\<not> in_vramp PTE_ACCESSED" "\<not> dirtyp PTE_ACCESSED" "accessedp PTE_ACCESSED"
  "\<not> presentp 0" "\<not> in_vramp 0" "\<not> dirtyp 0" "\<not> accessedp 0"
  "\<not> presentp (push_bit 12 x)" "\<not> in_vramp (push_bit 12 x)" "\<not> dirtyp (push_bit 12 x)"
  "\<not> accessedp (push_bit 12 x)"
  unfolding pte_consts pte_view_defs bit_push_one by (simp_all add: bit_push_bit_iff)

lemma flag_ops [pte_simps]:
  "presentp (p OR q) = (presentp p \<or> presentp q)" "in_vramp (p OR q) = (in_vramp p \<or> in_vramp q)"
  "dirtyp (p OR q) = (dirtyp p \<or> dirtyp q)" "accessedp (p OR q) = (accessedp p \<or> accessedp q)"
  "presentp (p AND q) = (presentp p \<and> presentp q)" "in_vramp (p AND q) = (in_vramp p \<and> in_vramp q)"
  "dirtyp (p AND q) = (dirtyp p \<and> dirtyp q)" "accessedp (p AND q) = (accessedp p \<and> accessedp q)"
  "presentp (NOT p) = (\<not> presentp p)" "in_vramp (NOT p) = (\<not> in_vramp p)"
  "dirtyp (NOT p) = (\<not> dirtyp p)" "accessedp (NOT p) = (\<not> accessedp p)"
  by (simp_all add: pte_view_defs bit_simps)

lemma and_eq_self_iff: "(p AND f = f) \<longleftrightarrow> (\<forall>n. bit f n \<longrightarrow> bit p n)" for p f :: u64
  using bit_imp_le_length [of f] by (auto simp: bit_eq_iff bit_simps)

lemma and_eq_resident [pte_simps]:
  "(p AND (PTE_PRESENT OR PTE_IN_VRAM) = PTE_PRESENT OR PTE_IN_VRAM) \<longleftrightarrow> presentp p \<and> in_vramp p"
  unfolding and_eq_self_iff unfolding pte_consts pte_view_defs
  by (auto simp only: bit_or_iff bit_push_one)

lemma and_eq_touched [pte_simps]:
  "(p AND (PTE_ACCESSED OR PTE_DIRTY) = PTE_ACCESSED OR PTE_DIRTY) \<longleftrightarrow> accessedp p \<and> dirtyp p"
  "(p AND PTE_ACCESSED = PTE_ACCESSED) \<longleftrightarrow> accessedp p"
  unfolding and_eq_self_iff unfolding pte_consts pte_view_defs
  by (auto simp only: bit_or_iff bit_push_one)

lemma frame_const [pte_simps]:
  "frame_of PTE_PRESENT = 0" "frame_of PTE_IN_VRAM = 0" "frame_of PTE_DIRTY = 0"
  "frame_of PTE_ACCESSED = 0" "frame_of 0 = 0"
  by (simp_all add: pte_consts frame_of_def)

lemma frame_ops [pte_simps]: "frame_of (p OR q) = frame_of p OR frame_of q"
  by (simp add: frame_of_def)

lemma frame_and_not: "frame_of f = 0 \<Longrightarrow> frame_of (p AND NOT f) = frame_of p"
  using bit_imp_le_length [of p] by (fastforce simp: bit_eq_iff bit_simps frame_of_def)

lemma frame_clear [pte_simps]:
  "frame_of (p AND NOT PTE_ACCESSED) = frame_of p"
  "frame_of (p AND (NOT PTE_DIRTY AND NOT PTE_ACCESSED)) = frame_of p"
  using frame_and_not [of "PTE_DIRTY OR PTE_ACCESSED" p] frame_and_not [of PTE_ACCESSED p]
  by (simp_all add: frame_const frame_ops)

lemma frame_push [pte_simps]: "x < 2 ^ 52 \<Longrightarrow> frame_of (push_bit 12 x) = x"
proof -
  assume "x < 2 ^ 52"
  then have "take_bit 52 x = x"
    by (simp add: word_unat_eq_iff unsigned_take_bit_eq word_less_nat_alt take_bit_nat_eq_self)
  then have "bit x n \<Longrightarrow> n < 52" for n by (metis bit_take_bit_iff)
  then show ?thesis by (fastforce simp: bit_eq_iff bit_simps frame_of_def)
qed

section \<open>State\<close>

record tlb_entry =
  te_vpn :: u64
  te_pte :: u64
  te_last_used :: u64

record engine_tlb =
  et_entry :: "tlb_entry list"
  et_clock :: u64

record mmu =
  mmu_pte :: "u64 \<Rightarrow> u64"
  mmu_host :: "u64 \<Rightarrow> u64"
  mmu_npages :: u64
  mmu_vram_pages :: u64
  mmu_tlb :: "u32 \<Rightarrow> engine_tlb"
  mmu_tlb_gen :: u64
  mmu_hits :: "u32 \<Rightarrow> u64"
  mmu_misses :: "u32 \<Rightarrow> u64"

definition no_vpn :: u64 where "no_vpn = NOT 0"

definition empty_tlb :: engine_tlb where
  "empty_tlb = \<lparr>et_entry = replicate SG_TLB_ENTRIES \<lparr>te_vpn = no_vpn, te_pte = 0, te_last_used = 0\<rparr>,
     et_clock = 1\<rparr>"

definition mmu_new :: "u64 \<Rightarrow> u64 \<Rightarrow> mmu" where
  "mmu_new va_bytes vram_bytes =
     \<lparr>mmu_pte = (\<lambda>_. 0), mmu_host = (\<lambda>_. 0), mmu_npages = va_bytes div SG_PAGE_SIZE,
      mmu_vram_pages = vram_bytes div SG_PAGE_SIZE, mmu_tlb = (\<lambda>_. empty_tlb), mmu_tlb_gen = 0,
      mmu_hits = (\<lambda>_. 0), mmu_misses = (\<lambda>_. 0)\<rparr>"

datatype translate_status = Ok | NotPresent | HostResident
datatype page_kind = Absent | Host | Vram

record page_info =
  pi_kind :: page_kind
  pi_host :: u64
  pi_pa :: u64

definition no_page :: page_info where
  "no_page = \<lparr>pi_kind = Absent, pi_host = 0, pi_pa = 0\<rparr>"

section \<open>Operations\<close>

text \<open>\<^verbatim>\<open>tlb_invalidate_vpn\<close> empties every tag equal to \<open>vpn\<close> on every engine.\<close>

definition tlb_invalidate_vpn :: "u64 \<Rightarrow> mmu \<Rightarrow> mmu" where
  "tlb_invalidate_vpn vpn m = m\<lparr>mmu_tlb := (\<lambda>e. if e < SG_MAX_ENGINES then (mmu_tlb m e)\<lparr>et_entry :=
       map (\<lambda>t. if te_vpn t = vpn then t\<lparr>te_vpn := no_vpn\<rparr> else t) (et_entry (mmu_tlb m e))\<rparr>
     else mmu_tlb m e)\<rparr>"

definition set_pte :: "u64 \<Rightarrow> u64 \<Rightarrow> mmu \<Rightarrow> mmu" where
  "set_pte vpn p m = m\<lparr>mmu_pte := (mmu_pte m)(vpn := p)\<rparr>"

definition set_host :: "u64 \<Rightarrow> u64 \<Rightarrow> mmu \<Rightarrow> mmu" where
  "set_host vpn h m = m\<lparr>mmu_host := (mmu_host m)(vpn := h)\<rparr>"

definition bump_gen :: "mmu \<Rightarrow> mmu" where
  "bump_gen m = m\<lparr>mmu_tlb_gen := mmu_tlb_gen m + 1\<rparr>"

definition map_vram :: "u64 \<Rightarrow> u64 \<Rightarrow> u64 \<Rightarrow> mmu \<Rightarrow> errno option \<times> mmu" where
  "map_vram va pa npages m =
     (if (va OR pa) AND (SG_PAGE_SIZE - 1) \<noteq> 0 then (Some EINVAL, m)
      else if npages = 0 then (Some EINVAL, m)
      else let vpn0 = drop_bit SG_PAGE_SHIFT va; pfn0 = drop_bit SG_PAGE_SHIFT pa in
        if vpn0 \<ge> mmu_npages m \<or> npages > mmu_npages m - vpn0 then (Some EINVAL, m)
        else if pfn0 \<ge> mmu_vram_pages m \<or> npages > mmu_vram_pages m - pfn0 then (Some EINVAL, m)
        else if \<exists>i \<in> set [0 ..< unat npages]. mmu_pte m (vpn0 + of_nat i) AND PTE_PRESENT \<noteq> 0
          then (Some EEXIST, m)
        else (None, fold (\<lambda>i m. tlb_invalidate_vpn (vpn0 + of_nat i)
               (set_pte (vpn0 + of_nat i)
                 (PTE_PRESENT OR PTE_IN_VRAM OR push_bit PTE_FRAME_SHIFT (pfn0 + of_nat i)) m))
             [0 ..< unat npages] m))"

definition map_host :: "u64 \<Rightarrow> u64 \<Rightarrow> u64 \<Rightarrow> mmu \<Rightarrow> errno option \<times> mmu" where
  "map_host va host npages m =
     (if (va OR host) AND (SG_PAGE_SIZE - 1) \<noteq> 0 then (Some EINVAL, m)
      else if npages = 0 then (Some EINVAL, m)
      else let vpn0 = drop_bit SG_PAGE_SHIFT va in
        if vpn0 \<ge> mmu_npages m \<or> npages > mmu_npages m - vpn0 then (Some EINVAL, m)
        else if \<exists>i \<in> set [0 ..< unat npages]. mmu_pte m (vpn0 + of_nat i) AND PTE_PRESENT \<noteq> 0
          then (Some EEXIST, m)
        else (None, fold (\<lambda>i m. tlb_invalidate_vpn (vpn0 + of_nat i)
               (set_pte (vpn0 + of_nat i) PTE_PRESENT
                 (set_host (vpn0 + of_nat i) (host + of_nat i * SG_PAGE_SIZE) m)))
             [0 ..< unat npages] m))"

definition make_resident :: "u64 \<Rightarrow> u64 \<Rightarrow> mmu \<Rightarrow> errno option \<times> mmu" where
  "make_resident va pa m =
     (if (va OR pa) AND (SG_PAGE_SIZE - 1) \<noteq> 0 then (Some EINVAL, m)
      else let vpn = drop_bit SG_PAGE_SHIFT va; pfn = drop_bit SG_PAGE_SHIFT pa in
        if vpn \<ge> mmu_npages m \<or> pfn \<ge> mmu_vram_pages m then (Some EINVAL, m)
        else let cur = mmu_pte m vpn in
          if cur AND PTE_PRESENT = 0 then (Some EINVAL, m)
          else if cur AND PTE_IN_VRAM \<noteq> 0 then (None, m)
          else (None, tlb_invalidate_vpn vpn (bump_gen (set_pte vpn
                 (PTE_PRESENT OR PTE_IN_VRAM OR PTE_ACCESSED OR push_bit PTE_FRAME_SHIFT pfn) m))))"

definition begin_evict :: "u64 \<Rightarrow> mmu \<Rightarrow> u64 \<times> mmu" where
  "begin_evict va m =
     (let vpn = drop_bit SG_PAGE_SHIFT va in
      if vpn \<ge> mmu_npages m then (0, m)
      else let cur = mmu_pte m vpn in
        if cur AND (PTE_PRESENT OR PTE_IN_VRAM) \<noteq> PTE_PRESENT OR PTE_IN_VRAM then (0, m)
        else (cur, tlb_invalidate_vpn vpn (bump_gen (set_pte vpn PTE_PRESENT m))))"

definition end_evict :: "u64 \<Rightarrow> mmu \<Rightarrow> u64 \<times> mmu" where
  "end_evict va m =
     (let vpn = drop_bit SG_PAGE_SHIFT va in
      if vpn \<ge> mmu_npages m then (0, m)
      else (mmu_pte m vpn AND (PTE_DIRTY OR PTE_ACCESSED),
            set_pte vpn (mmu_pte m vpn AND NOT (PTE_DIRTY OR PTE_ACCESSED)) m))"

definition test_and_clear_accessed :: "u64 \<Rightarrow> mmu \<Rightarrow> bool \<times> mmu" where
  "test_and_clear_accessed va m =
     (let vpn = drop_bit SG_PAGE_SHIFT va in
      if vpn \<ge> mmu_npages m then (False, m)
      else (mmu_pte m vpn AND PTE_ACCESSED \<noteq> 0, set_pte vpn (mmu_pte m vpn AND NOT PTE_ACCESSED) m))"

definition page :: "u64 \<Rightarrow> mmu \<Rightarrow> page_info" where
  "page va m =
     (let vpn = drop_bit SG_PAGE_SHIFT va in
      if vpn \<ge> mmu_npages m then no_page
      else let pte = mmu_pte m vpn in
        if pte AND PTE_PRESENT = 0 then no_page
        else if pte AND PTE_IN_VRAM \<noteq> 0
          then \<lparr>pi_kind = Vram, pi_host = mmu_host m vpn, pi_pa = pte_pa pte\<rparr>
        else \<lparr>pi_kind = Host, pi_host = mmu_host m vpn, pi_pa = 0\<rparr>)"

definition unmap :: "u64 \<Rightarrow> u64 \<Rightarrow> mmu \<Rightarrow> errno option \<times> mmu" where
  "unmap va npages m =
     (if va AND (SG_PAGE_SIZE - 1) \<noteq> 0 then (Some EINVAL, m)
      else if npages = 0 then (None, m)
      else let vpn0 = drop_bit SG_PAGE_SHIFT va in
        if vpn0 \<ge> mmu_npages m \<or> npages > mmu_npages m - vpn0 then (Some EINVAL, m)
        else let m1 = fold (\<lambda>i m. set_host (vpn0 + of_nat i) 0 (set_pte (vpn0 + of_nat i) 0 m))
                        [0 ..< unat npages] m;
                 m2 = bump_gen m1
             in (None, fold (\<lambda>i. tlb_invalidate_vpn (vpn0 + of_nat i)) [0 ..< unat npages] m2))"

definition mmu_reset_stats :: "mmu \<Rightarrow> mmu" where
  "mmu_reset_stats m = m\<lparr>mmu_hits := (\<lambda>e. if e < SG_MAX_ENGINES then 0 else mmu_hits m e),
     mmu_misses := (\<lambda>e. if e < SG_MAX_ENGINES then 0 else mmu_misses m e)\<rparr>"

text \<open>The fill slot: the first empty one, else the least recently used (the first of equals).\<close>

fun pick_slot :: "tlb_entry list \<Rightarrow> nat \<Rightarrow> u64 \<Rightarrow> nat \<Rightarrow> nat" where
  "pick_slot [] i oldest slot = slot"
| "pick_slot (t # ts) i oldest slot =
     (if te_vpn t = no_vpn then i
      else if te_last_used t < oldest then pick_slot ts (Suc i) (te_last_used t) i
      else pick_slot ts (Suc i) oldest slot)"

definition put_entry :: "u32 \<Rightarrow> nat \<Rightarrow> tlb_entry \<Rightarrow> mmu \<Rightarrow> mmu" where
  "put_entry e i t m = m\<lparr>mmu_tlb := (mmu_tlb m)(e := (mmu_tlb m e)\<lparr>et_entry := (et_entry (mmu_tlb m e))[i := t]\<rparr>)\<rparr>"

definition tick :: "u32 \<Rightarrow> mmu \<Rightarrow> mmu" where
  "tick e m = m\<lparr>mmu_tlb := (mmu_tlb m)(e := (mmu_tlb m e)\<lparr>et_clock := et_clock (mmu_tlb m e) + 1\<rparr>)\<rparr>"

definition tlb_insert :: "u32 \<Rightarrow> u64 \<Rightarrow> u64 \<Rightarrow> mmu \<Rightarrow> mmu" where
  "tlb_insert engine vpn pte m =
     (let gen = mmu_tlb_gen m;
          slot = pick_slot (et_entry (mmu_tlb m engine)) 0 (NOT 0) 0;
          t = \<lparr>te_vpn = no_vpn, te_pte = pte, te_last_used = et_clock (mmu_tlb m engine)\<rparr>;
          m1 = tick engine (put_entry engine slot t m);
          kResident = PTE_PRESENT OR PTE_IN_VRAM
      in if mmu_pte m1 vpn AND kResident \<noteq> kResident then m1
         else if mmu_tlb_gen m1 \<noteq> gen then m1
         else let m2 = put_entry engine slot (t\<lparr>te_vpn := vpn\<rparr>) m1
              in if mmu_tlb_gen m2 \<noteq> gen then put_entry engine slot t m2 else m2)"

definition walk :: "u32 \<Rightarrow> u64 \<Rightarrow> bool \<Rightarrow> mmu \<Rightarrow> (translate_status \<times> u64) \<times> mmu" where
  "walk engine va write m =
     (let vpn = drop_bit SG_PAGE_SHIFT va in
      if vpn \<ge> mmu_npages m then ((NotPresent, 0), m)
      else let pte0 = mmu_pte m vpn in
        if pte0 AND PTE_PRESENT = 0 then ((NotPresent, 0), m)
        else if pte0 AND PTE_IN_VRAM = 0 then ((HostResident, 0), m)
        else let bits = PTE_ACCESSED OR (if write then PTE_DIRTY else 0);
                 (pte, m1) = (if pte0 AND bits \<noteq> bits
                   then (mmu_pte m vpn OR bits, set_pte vpn (mmu_pte m vpn OR bits) m) else (pte0, m))
          in if pte AND PTE_PRESENT = 0 then ((NotPresent, 0), m1)
             else if pte AND PTE_IN_VRAM = 0 then ((HostResident, 0), m1)
             else ((Ok, pte_pa pte), tlb_insert engine vpn pte m1))"

text \<open>The index of the TLB entry a probe stops at, if any.\<close>

fun tlb_probe :: "tlb_entry list \<Rightarrow> u64 \<Rightarrow> nat \<Rightarrow> nat option" where
  "tlb_probe [] vpn i = None"
| "tlb_probe (t # ts) vpn i =
     (if te_vpn t \<noteq> vpn then tlb_probe ts vpn (Suc i)
      else if te_pte t AND PTE_PRESENT = 0 \<or> te_pte t AND PTE_IN_VRAM = 0 then None
      else Some i)"

definition translate :: "u32 \<Rightarrow> u64 \<Rightarrow> bool \<Rightarrow> mmu \<Rightarrow> (translate_status \<times> u64) \<times> mmu" where
  "translate engine va write m =
     (let vpn = drop_bit SG_PAGE_SHIFT va in
      case tlb_probe (et_entry (mmu_tlb m engine)) vpn 0 of
        Some i \<Rightarrow>
          (let e = et_entry (mmu_tlb m engine) ! i;
               dirty = write \<and> te_pte e AND PTE_DIRTY = 0;
               pte = (if dirty then te_pte e OR PTE_DIRTY else te_pte e);
               m1 = (if dirty \<and> vpn < mmu_npages m
                     then set_pte vpn (mmu_pte m vpn OR PTE_DIRTY) m else m);
               m2 = put_entry engine i (e\<lparr>te_pte := pte, te_last_used := et_clock (mmu_tlb m engine)\<rparr>) m1
           in ((Ok, pte_pa pte), (tick engine m2)\<lparr>mmu_hits := (mmu_hits m)(engine := mmu_hits m engine + 1)\<rparr>))
      | None \<Rightarrow> walk engine va write
          (m\<lparr>mmu_misses := (mmu_misses m)(engine := mmu_misses m engine + 1)\<rparr>))"

section \<open>Coherence of the TLBs with the page table\<close>

text \<open>What a tagged TLB entry promises: its page is mapped to VRAM with the same frame, and a dirty
  entry's page is marked dirty in the page table (so a hit need not mark it again).\<close>

definition entry_ok :: "mmu \<Rightarrow> tlb_entry \<Rightarrow> bool" where
  "entry_ok m t \<longleftrightarrow>
     te_vpn t < mmu_npages m \<and>
     presentp (mmu_pte m (te_vpn t)) \<and> in_vramp (mmu_pte m (te_vpn t)) \<and>
     presentp (te_pte t) \<and> in_vramp (te_pte t) \<and>
     frame_of (te_pte t) = frame_of (mmu_pte m (te_vpn t)) \<and>
     (dirtyp (te_pte t) \<longrightarrow> dirtyp (mmu_pte m (te_vpn t)))"

definition tlb_ok_except :: "u64 set \<Rightarrow> mmu \<Rightarrow> bool" where
  "tlb_ok_except V m \<longleftrightarrow> (\<forall>e < SG_MAX_ENGINES. length (et_entry (mmu_tlb m e)) = SG_TLB_ENTRIES \<and>
     (\<forall>t \<in> set (et_entry (mmu_tlb m e)). te_vpn t \<noteq> no_vpn \<longrightarrow> te_vpn t \<notin> V \<longrightarrow> entry_ok m t))"

definition frames_ok :: "mmu \<Rightarrow> bool" where
  "frames_ok m \<longleftrightarrow> mmu_npages m \<le> 2 ^ 52 \<and> mmu_vram_pages m \<le> 2 ^ 52 \<and>
     (\<forall>v. in_vramp (mmu_pte m v) \<longrightarrow> frame_of (mmu_pte m v) < mmu_vram_pages m)"

definition mmu_inv :: "mmu \<Rightarrow> bool" where
  "mmu_inv m \<longleftrightarrow> frames_ok m \<and> tlb_ok_except {} m"

text \<open>Two states that agree on every mapping; accessed bits are free and dirty bits only grow.\<close>

definition same_map :: "mmu \<Rightarrow> mmu \<Rightarrow> bool" where
  "same_map m m' \<longleftrightarrow> mmu_npages m' = mmu_npages m \<and> mmu_vram_pages m' = mmu_vram_pages m \<and>
     mmu_host m' = mmu_host m \<and>
     (\<forall>v. presentp (mmu_pte m' v) = presentp (mmu_pte m v) \<and> in_vramp (mmu_pte m' v) = in_vramp (mmu_pte m v) \<and>
       frame_of (mmu_pte m' v) = frame_of (mmu_pte m v) \<and>
       (dirtyp (mmu_pte m v) \<longrightarrow> dirtyp (mmu_pte m' v)))"

lemma same_map_refl [simp]: "same_map m m"
  by (simp add: same_map_def)

lemma same_map_trans: "same_map a b \<Longrightarrow> same_map b c \<Longrightarrow> same_map a c"
  by (auto simp: same_map_def)

lemma entry_ok_same_map: "same_map m m' \<Longrightarrow> entry_ok m t \<Longrightarrow> entry_ok m' t"
  by (auto simp: same_map_def entry_ok_def)

lemma frames_ok_same_map: "same_map m m' \<Longrightarrow> frames_ok m \<Longrightarrow> frames_ok m'"
  by (auto simp: same_map_def frames_ok_def)

subsection \<open>The primitive updates\<close>

lemma set_pte_sel [simp]:
  "mmu_pte (set_pte v p m) = (mmu_pte m)(v := p)" "mmu_host (set_pte v p m) = mmu_host m"
  "mmu_npages (set_pte v p m) = mmu_npages m" "mmu_vram_pages (set_pte v p m) = mmu_vram_pages m"
  "mmu_tlb (set_pte v p m) = mmu_tlb m" "mmu_tlb_gen (set_pte v p m) = mmu_tlb_gen m"
  by (simp_all add: set_pte_def)

lemma set_host_sel [simp]:
  "mmu_pte (set_host v h m) = mmu_pte m" "mmu_host (set_host v h m) = (mmu_host m)(v := h)"
  "mmu_npages (set_host v h m) = mmu_npages m" "mmu_vram_pages (set_host v h m) = mmu_vram_pages m"
  "mmu_tlb (set_host v h m) = mmu_tlb m" "mmu_tlb_gen (set_host v h m) = mmu_tlb_gen m"
  by (simp_all add: set_host_def)

lemma bump_gen_sel [simp]:
  "mmu_pte (bump_gen m) = mmu_pte m" "mmu_host (bump_gen m) = mmu_host m"
  "mmu_npages (bump_gen m) = mmu_npages m" "mmu_vram_pages (bump_gen m) = mmu_vram_pages m"
  "mmu_tlb (bump_gen m) = mmu_tlb m"
  by (simp_all add: bump_gen_def)

lemma tlb_invalidate_sel [simp]:
  "mmu_pte (tlb_invalidate_vpn v m) = mmu_pte m" "mmu_host (tlb_invalidate_vpn v m) = mmu_host m"
  "mmu_npages (tlb_invalidate_vpn v m) = mmu_npages m"
  "mmu_vram_pages (tlb_invalidate_vpn v m) = mmu_vram_pages m"
  by (simp_all add: tlb_invalidate_vpn_def)

lemma put_entry_sel [simp]:
  "mmu_pte (put_entry e i t m) = mmu_pte m" "mmu_host (put_entry e i t m) = mmu_host m"
  "mmu_npages (put_entry e i t m) = mmu_npages m" "mmu_vram_pages (put_entry e i t m) = mmu_vram_pages m"
  "mmu_tlb_gen (put_entry e i t m) = mmu_tlb_gen m"
  "et_entry (mmu_tlb (put_entry e i t m) d) =
     (if d = e then (et_entry (mmu_tlb m e))[i := t] else et_entry (mmu_tlb m d))"
  by (simp_all add: put_entry_def)

lemma tick_sel [simp]:
  "mmu_pte (tick e m) = mmu_pte m" "mmu_host (tick e m) = mmu_host m"
  "mmu_npages (tick e m) = mmu_npages m" "mmu_vram_pages (tick e m) = mmu_vram_pages m"
  "mmu_tlb_gen (tick e m) = mmu_tlb_gen m" "et_entry (mmu_tlb (tick e m) d) = et_entry (mmu_tlb m d)"
  by (simp_all add: tick_def)

lemma tlb_ok_mono: "tlb_ok_except V m \<Longrightarrow> V \<subseteq> W \<Longrightarrow> tlb_ok_except W m"
  by (auto simp: tlb_ok_except_def)

lemma tlb_ok_cong:
  assumes "mmu_pte m' = mmu_pte m" "mmu_npages m' = mmu_npages m"
    "\<And>e. et_entry (mmu_tlb m' e) = et_entry (mmu_tlb m e)"
  shows "tlb_ok_except V m' \<longleftrightarrow> tlb_ok_except V m"
  using assms by (simp add: tlb_ok_except_def entry_ok_def)

lemma tlb_ok_set_pte: "tlb_ok_except V m \<Longrightarrow> tlb_ok_except (insert v V) (set_pte v p m)"
  by (auto simp: tlb_ok_except_def entry_ok_def)

lemma tlb_ok_set_host: "tlb_ok_except V m \<Longrightarrow> tlb_ok_except V (set_host v h m)"
  by (simp add: tlb_ok_cong [of "set_host v h m" m])

lemma tlb_ok_bump_gen: "tlb_ok_except V m \<Longrightarrow> tlb_ok_except V (bump_gen m)"
  by (simp add: tlb_ok_cong [of "bump_gen m" m])

lemma tlb_ok_invalidate:
  assumes "tlb_ok_except V m"
  shows "tlb_ok_except (V - {v}) (tlb_invalidate_vpn v m)"
  using assms by (force simp: tlb_ok_except_def tlb_invalidate_vpn_def entry_ok_def split: if_splits)

lemma frames_ok_set_pte:
  "frames_ok m \<Longrightarrow> (in_vramp p \<Longrightarrow> frame_of p < mmu_vram_pages m) \<Longrightarrow> frames_ok (set_pte v p m)"
  by (auto simp: frames_ok_def)

lemma frames_ok_frame [simp]:
  "frames_ok (tlb_invalidate_vpn v m) = frames_ok m" "frames_ok (bump_gen m) = frames_ok m"
  "frames_ok (set_host v h m) = frames_ok m" "frames_ok (put_entry e i t m) = frames_ok m"
  "frames_ok (tick e m) = frames_ok m"
  by (simp_all add: frames_ok_def)

text \<open>A store to one entry followed by its shootdown.\<close>

lemma mmu_inv_replace:
  assumes "mmu_inv m" "in_vramp p \<Longrightarrow> frame_of p < mmu_vram_pages m"
  shows "mmu_inv (tlb_invalidate_vpn v (set_pte v p m))"
    and "mmu_inv (tlb_invalidate_vpn v (bump_gen (set_pte v p m)))"
proof -
  have t: "tlb_ok_except {v} (set_pte v p m)" using assms(1) tlb_ok_set_pte [of "{}"] by (simp add: mmu_inv_def)
  have f: "frames_ok (set_pte v p m)"
    by (rule frames_ok_set_pte) (use assms in \<open>simp_all add: mmu_inv_def\<close>)
  show "mmu_inv (tlb_invalidate_vpn v (set_pte v p m))"
    using tlb_ok_invalidate [OF t, of v] f by (simp add: mmu_inv_def)
  show "mmu_inv (tlb_invalidate_vpn v (bump_gen (set_pte v p m)))"
    using tlb_ok_invalidate [OF tlb_ok_bump_gen [OF t], of v] f by (simp add: mmu_inv_def)
qed

subsection \<open>Every operation keeps the invariant\<close>

lemma mmu_inv_new: "mmu_inv (mmu_new va_bytes vram_bytes)"
proof -
  have "x div SG_PAGE_SIZE \<le> 2 ^ 52" for x
    using unat_less_64 [of x] by (simp add: word_le_unat unat_div SG_PAGE_SIZE_def)
  then show ?thesis
    by (simp add: mmu_inv_def mmu_new_def frames_ok_def tlb_ok_except_def empty_tlb_def pte_simps)
qed

lemma mmu_inv_set_host: "mmu_inv m \<Longrightarrow> mmu_inv (set_host v h m)"
  by (simp add: mmu_inv_def tlb_ok_set_host)

lemma fold_inv: "(\<And>x s. x \<in> set xs \<Longrightarrow> P s \<Longrightarrow> P (f x s)) \<Longrightarrow> P s \<Longrightarrow> P (fold f xs s)"
  by (induction xs arbitrary: s) auto

lemma page_run_bound:
  assumes "v0 < n" "k \<le> n - v0" "i < unat k"
  shows "v0 + of_nat i < (n :: u64)" "unat (v0 + of_nat i) = unat v0 + i"
proof -
  have i: "unat (of_nat i :: u64) = i"
    by (rule unat_of_nat_64) (use assms(3) unat_less_64 [of k] in simp)
  have le: "unat v0 + unat k \<le> unat n"
    using assms(1,2) by (simp add: word_le_unat word_less_unat unat_sub_64)
  have "unat (v0 + of_nat i) = unat v0 + unat (of_nat i :: u64)"
    by (rule unat_add_64) (use i le assms(3) unat_less_64 [of n] in simp)
  with i show u: "unat (v0 + of_nat i) = unat v0 + i" by simp
  show "v0 + of_nat i < n" using u le assms(3) by (simp add: word_less_unat)
qed

lemma map_vram_inv:
  assumes "mmu_inv m"
  shows "mmu_inv (snd (map_vram va pa npages m))"
proof (cases "fst (map_vram va pa npages m)")
  case (Some e)
  then have "snd (map_vram va pa npages m) = m"
    by (auto simp: map_vram_def Let_def split: if_splits)
  with assms show ?thesis by simp
next
  case None
  let ?v = "drop_bit SG_PAGE_SHIFT va" and ?p = "drop_bit SG_PAGE_SHIFT pa"
  let ?step = "\<lambda>i m. tlb_invalidate_vpn (?v + of_nat i) (set_pte (?v + of_nat i)
      (PTE_PRESENT OR PTE_IN_VRAM OR push_bit PTE_FRAME_SHIFT (?p + of_nat i)) m)"
  from None have pf: "?p < mmu_vram_pages m" "npages \<le> mmu_vram_pages m - ?p"
    and eq: "snd (map_vram va pa npages m) = fold ?step [0 ..< unat npages] m"
    by (auto simp: map_vram_def Let_def not_le split: if_splits)
  have "mmu_inv (fold ?step [0 ..< unat npages] m) \<and>
      mmu_vram_pages (fold ?step [0 ..< unat npages] m) = mmu_vram_pages m"
  proof (rule fold_inv)
    fix i s assume i: "i \<in> set [0 ..< unat npages]"
      and s: "mmu_inv s \<and> mmu_vram_pages s = mmu_vram_pages m"
    have lt: "?p + of_nat i < mmu_vram_pages m" by (rule page_run_bound(1) [OF pf]) (use i in simp)
    have "mmu_vram_pages m \<le> 2 ^ 52" using assms by (simp add: mmu_inv_def frames_ok_def)
    with lt have "?p + of_nat i < 2 ^ 52" by (rule less_le_trans)
    from frame_push [OF this] show "mmu_inv (?step i s) \<and> mmu_vram_pages (?step i s) = mmu_vram_pages m"
      using s lt by (auto intro!: mmu_inv_replace(1) simp: PTE_FRAME_SHIFT_def pte_simps)
  qed (use assms in simp)
  then show ?thesis using eq by simp
qed

lemma map_host_inv:
  assumes "mmu_inv m"
  shows "mmu_inv (snd (map_host va host npages m))"
proof -
  have "mmu_inv (fold (\<lambda>i m. tlb_invalidate_vpn (v + of_nat i) (set_pte (v + of_nat i) PTE_PRESENT
      (set_host (v + of_nat i) (host + of_nat i * SG_PAGE_SIZE) m))) is m)" for v "is"
    by (rule fold_inv) (use assms in \<open>auto intro!: mmu_inv_replace(1) mmu_inv_set_host simp: pte_simps\<close>)
  with assms show ?thesis by (simp add: map_host_def Let_def)
qed

lemma make_resident_inv:
  assumes "mmu_inv m"
  shows "mmu_inv (snd (make_resident va pa m))"
proof -
  let ?p = "drop_bit SG_PAGE_SHIFT pa"
  have "frame_of (push_bit 12 ?p) = ?p" if "?p < mmu_vram_pages m"
    using frame_push [of ?p] that less_le_trans [OF that, of "2 ^ 52"] assms
    by (simp add: mmu_inv_def frames_ok_def)
  then show ?thesis
    using assms
    by (auto simp: make_resident_def Let_def PTE_FRAME_SHIFT_def pte_simps not_le intro!: mmu_inv_replace(2))
qed

lemma begin_evict_inv: "mmu_inv m \<Longrightarrow> mmu_inv (snd (begin_evict va m))"
  by (auto simp: begin_evict_def Let_def pte_simps intro!: mmu_inv_replace(2))

text \<open>An update of a PTE that keeps its mapping needs no shootdown as long as the dirty bit is kept.\<close>

lemma mmu_inv_same_map:
  assumes "mmu_inv m" "same_map m m'" "\<And>e. et_entry (mmu_tlb m' e) = et_entry (mmu_tlb m e)"
  shows "mmu_inv m'"
  using assms frames_ok_same_map [OF assms(2)] entry_ok_same_map [OF assms(2)]
  by (simp add: mmu_inv_def tlb_ok_except_def)

lemma end_evict_inv:
  assumes "mmu_inv m" "\<not> in_vramp (mmu_pte m (drop_bit SG_PAGE_SHIFT va))"
  shows "mmu_inv (snd (end_evict va m))"
proof -
  let ?v = "drop_bit SG_PAGE_SHIFT va"
  let ?m = "set_pte ?v (mmu_pte m ?v AND NOT (PTE_DIRTY OR PTE_ACCESSED)) m"
  have "tlb_ok_except {} ?m"
    using assms by (fastforce simp: mmu_inv_def tlb_ok_except_def entry_ok_def)
  moreover have "frames_ok ?m"
    by (rule frames_ok_set_pte) (use assms in \<open>auto simp: mmu_inv_def pte_simps\<close>)
  ultimately show ?thesis using assms(1) by (simp add: end_evict_def Let_def mmu_inv_def)
qed

lemma test_and_clear_accessed_same: "same_map m (snd (test_and_clear_accessed va m))"
  by (auto simp: test_and_clear_accessed_def Let_def same_map_def pte_simps)

lemma test_and_clear_accessed_inv: "mmu_inv m \<Longrightarrow> mmu_inv (snd (test_and_clear_accessed va m))"
  by (rule mmu_inv_same_map [OF _ test_and_clear_accessed_same])
    (simp_all add: test_and_clear_accessed_def Let_def)

lemma unmap_inv:
  assumes "mmu_inv m"
  shows "mmu_inv (snd (unmap va npages m))"
proof -
  let ?v = "drop_bit SG_PAGE_SHIFT va"
  have clear: "frames_ok (fold (\<lambda>i m. set_host (v + of_nat i) 0 (set_pte (v + of_nat i) 0 m)) is m) \<and>
      tlb_ok_except ((\<lambda>i. v + of_nat i) ` set is) (fold (\<lambda>i m. set_host (v + of_nat i) 0 (set_pte (v + of_nat i) 0 m)) is m)"
    for v :: u64 and "is" :: "nat list"
  proof (induction "is" rule: rev_induct)
    case Nil
    then show ?case using assms by (simp add: mmu_inv_def)
  next
    case (snoc i "is")
    let ?s = "fold (\<lambda>i m. set_host (v + of_nat i) 0 (set_pte (v + of_nat i) 0 m)) is m"
    have "frames_ok (set_pte (v + of_nat i) 0 ?s)" by (rule frames_ok_set_pte) (use snoc in \<open>simp_all add: pte_simps\<close>)
    then show ?case
      using snoc tlb_ok_set_host [OF tlb_ok_set_pte] by simp
  qed
  have shoot: "frames_ok (fold (\<lambda>i. tlb_invalidate_vpn (v + of_nat i)) is s) \<and>
      tlb_ok_except (V - (\<lambda>i. v + of_nat i) ` set is) (fold (\<lambda>i. tlb_invalidate_vpn (v + of_nat i)) is s)"
    if "frames_ok s" "tlb_ok_except V s" for v V s and "is" :: "nat list"
  proof (induction "is" rule: rev_induct)
    case (snoc i "is")
    have "V - (\<lambda>i. v + of_nat i) ` set (is @ [i]) = V - (\<lambda>i. v + of_nat i) ` set is - {v + of_nat i}" by auto
    with snoc tlb_ok_invalidate show ?case by simp
  qed (use that in simp)
  let ?c = "bump_gen (fold (\<lambda>i m. set_host (?v + of_nat i) 0 (set_pte (?v + of_nat i) 0 m)) [0 ..< unat npages] m)"
  have "frames_ok ?c" using clear by simp
  moreover have "tlb_ok_except ((\<lambda>i. ?v + of_nat i) ` set [0 ..< unat npages]) ?c"
    using clear by (intro tlb_ok_bump_gen) blast
  ultimately
  have "frames_ok ?c \<and> tlb_ok_except ((\<lambda>i. ?v + of_nat i) ` set [0 ..< unat npages]) ?c" ..
  from shoot [OF conjunct1 [OF this] conjunct2 [OF this], of ?v "[0 ..< unat npages]"]
  have "mmu_inv (fold (\<lambda>i. tlb_invalidate_vpn (?v + of_nat i)) [0 ..< unat npages] ?c)"
    by (simp add: mmu_inv_def)
  with assms show ?thesis by (simp add: unmap_def Let_def)
qed

section \<open>Translation\<close>

text \<open>The specification: what the page table alone says about an address.\<close>

definition pt_lookup :: "mmu \<Rightarrow> u64 \<Rightarrow> translate_status \<times> u64" where
  "pt_lookup m va =
     (let p = mmu_pte m (vpn_of va) in
      if vpn_of va \<ge> mmu_npages m \<or> \<not> presentp p then (NotPresent, 0)
      else if \<not> in_vramp p then (HostResident, 0)
      else (Ok, push_bit 12 (frame_of p)))"

lemma vpn_of_less: "vpn_of va < 2 ^ 52"
proof -
  have "unat va div 4096 < 2 ^ 52" using unat_less_64 [of va] by simp
  then show ?thesis
    by (simp add: vpn_of_def SG_PAGE_SHIFT_def word_less_unat drop_bit_eq_div unat_div)
qed

lemma vpn_of_not_no_vpn: "vpn_of va \<noteq> no_vpn"
  using vpn_of_less [of va] by (auto simp: no_vpn_def)

lemma pte_pa_frame: "pte_pa p = push_bit 12 (frame_of p)"
  by (simp add: pte_pa_def frame_of_def pte_consts)

lemma pt_lookup_same_map: "same_map m m' \<Longrightarrow> pt_lookup m' va = pt_lookup m va"
  by (auto simp: same_map_def pt_lookup_def Let_def)

lemma tlb_ok_put_entry:
  assumes "mmu_inv m" "te_vpn t = no_vpn \<or> entry_ok m t"
  shows "mmu_inv (put_entry e i t m)"
  using assms
  by (auto simp: mmu_inv_def tlb_ok_except_def entry_ok_def dest!: set_update_subset_insert [THEN subsetD])

lemma mmu_inv_tick: "mmu_inv m \<Longrightarrow> mmu_inv (tick e m)"
  by (rule mmu_inv_same_map [of m]) (simp_all add: same_map_def)

lemma same_map_put_entry [simp]: "same_map m (put_entry e i t m)"
  by (simp add: same_map_def)

lemma same_map_tick [simp]: "same_map m (tick e m)"
  by (simp add: same_map_def)

lemma tlb_insert_inv:
  assumes "mmu_inv m" "entry_ok m \<lparr>te_vpn = vpn, te_pte = pte, te_last_used = 0\<rparr>"
  shows "mmu_inv (tlb_insert e vpn pte m)" "same_map m (tlb_insert e vpn pte m)"
    "mmu_pte (tlb_insert e vpn pte m) = mmu_pte m"
proof -
  define t where "t = \<lparr>te_vpn = no_vpn, te_pte = pte, te_last_used = et_clock (mmu_tlb m e)\<rparr>"
  define i where "i = pick_slot (et_entry (mmu_tlb m e)) 0 (NOT 0) 0"
  define m1 where "m1 = tick e (put_entry e i t m)"
  have ins: "tlb_insert e vpn pte m = put_entry e i (t\<lparr>te_vpn := vpn\<rparr>) m1"
    using assms(2) unfolding tlb_insert_def Let_def t_def [symmetric] i_def [symmetric] m1_def [symmetric]
    by (simp add: m1_def pte_simps entry_ok_def)
  have sm: "same_map m m1" by (simp add: m1_def same_map_def)
  have "mmu_inv (put_entry e i t m)" by (rule tlb_ok_put_entry [OF assms(1)]) (simp add: t_def)
  then have inv1: "mmu_inv m1" by (simp add: m1_def mmu_inv_tick)
  have "entry_ok m1 (t\<lparr>te_vpn := vpn\<rparr>)"
    using entry_ok_same_map [OF sm assms(2)] by (simp add: entry_ok_def t_def)
  with inv1 show "mmu_inv (tlb_insert e vpn pte m)" unfolding ins by (intro tlb_ok_put_entry) simp_all
  show "same_map m (tlb_insert e vpn pte m)" "mmu_pte (tlb_insert e vpn pte m) = mmu_pte m"
    unfolding ins using sm by (simp_all add: m1_def same_map_def)
qed

lemma same_map_set_pte:
  "presentp p = presentp (mmu_pte m v) \<Longrightarrow> in_vramp p = in_vramp (mmu_pte m v) \<Longrightarrow>
   frame_of p = frame_of (mmu_pte m v) \<Longrightarrow> (dirtyp (mmu_pte m v) \<Longrightarrow> dirtyp p) \<Longrightarrow> same_map m (set_pte v p m)"
  by (auto simp: same_map_def)

text \<open>The walk: the answer is the page table's, and a write leaves the page marked dirty.\<close>

lemma walk_correct:
  assumes "mmu_inv m" "walk e va w m = (r, m')"
  shows "r = pt_lookup m va \<and> mmu_inv m' \<and> same_map m m' \<and>
    (fst r = Ok \<longrightarrow> accessedp (mmu_pte m' (vpn_of va)) \<and> (w \<longrightarrow> dirtyp (mmu_pte m' (vpn_of va))))"
proof -
  let ?v = "vpn_of va" and ?p = "mmu_pte m (vpn_of va)"
  define bits where "bits = PTE_ACCESSED OR (if w then PTE_DIRTY else 0)"
  define q where "q = (if ?p AND bits \<noteq> bits then ?p OR bits else ?p)"
  define m1 where "m1 = (if ?p AND bits \<noteq> bits then set_pte ?v q m else m)"
  have q: "presentp q = presentp ?p" "in_vramp q = in_vramp ?p" "frame_of q = frame_of ?p"
    "dirtyp ?p \<longrightarrow> dirtyp q" "accessedp q" "w \<longrightarrow> dirtyp q"
    by (auto simp: q_def bits_def pte_simps)
  show ?thesis
  proof (cases "?v < mmu_npages m \<and> presentp ?p \<and> in_vramp ?p")
    case False
    with assms show ?thesis
      by (auto simp: walk_def Let_def pt_lookup_def vpn_of_def [symmetric] pte_simps split: if_splits)
  next
    case True
    have sm: "same_map m m1" using q by (auto simp: m1_def intro: same_map_set_pte)
    have inv1: "mmu_inv m1" by (rule mmu_inv_same_map [OF assms(1) sm]) (simp add: m1_def)
    have p1: "mmu_pte m1 ?v = q" by (simp add: m1_def q_def)
    have "mmu_npages m1 = mmu_npages m" by (simp add: m1_def)
    then have eo: "entry_ok m1 \<lparr>te_vpn = ?v, te_pte = q, te_last_used = 0\<rparr>"
      using True q p1 by (simp add: entry_ok_def)
    have res: "walk e va w m = ((Ok, pte_pa q), tlb_insert e ?v q m1)"
      using True unfolding walk_def vpn_of_def [symmetric] q_def m1_def bits_def
      by (simp add: Let_def pte_simps not_le)
    then have r: "r = (Ok, pte_pa q)" and m': "m' = tlb_insert e ?v q m1" using assms(2) by auto
    note ins = tlb_insert_inv [OF inv1 eo, of e, folded m']
    have "r = pt_lookup m va"
      using True q(3) by (simp add: r pt_lookup_def pte_pa_frame Let_def not_le)
    then show ?thesis using ins q(5,6) p1 same_map_trans [OF sm ins(2)] by simp
  qed
qed

lemma tlb_probe_Some:
  "tlb_probe ts v i = Some j \<Longrightarrow> \<exists>k < length ts. j = i + k \<and> te_vpn (ts ! k) = v"
proof (induction ts v i rule: tlb_probe.induct)
  case (2 t ts vpn i)
  show ?case
  proof (cases "te_vpn t = vpn")
    case True
    with "2.prems" have "j = i + 0 \<and> te_vpn ((t # ts) ! 0) = vpn" by (auto split: if_splits)
    then show ?thesis by (intro exI [of _ 0]) auto
  next
    case False
    with "2" obtain k where "k < length ts" "j = Suc i + k" "te_vpn (ts ! k) = vpn" by auto
    then show ?thesis by (intro exI [of _ "Suc k"]) auto
  qed
qed simp

text \<open>Translation through the TLB gives the page table's answer.\<close>

lemma translate_ok:
  assumes inv: "mmu_inv m" and e: "e < SG_MAX_ENGINES" and tr: "translate e va w m = (r, m')"
  shows "r = pt_lookup m va \<and> mmu_inv m' \<and> same_map m m' \<and>
    (fst r = Ok \<longrightarrow> w \<longrightarrow> dirtyp (mmu_pte m' (vpn_of va)))"
proof (cases "tlb_probe (et_entry (mmu_tlb m e)) (vpn_of va) 0")
  case None
  let ?m0 = "m\<lparr>mmu_misses := (mmu_misses m)(e := mmu_misses m e + 1)\<rparr>"
  have sm: "same_map m ?m0" by (simp add: same_map_def)
  have inv0: "mmu_inv ?m0" by (rule mmu_inv_same_map [OF inv sm]) simp
  have "walk e va w ?m0 = (r, m')" using None tr by (simp add: translate_def vpn_of_def)
  from walk_correct [OF inv0 this] show ?thesis
    using same_map_trans [OF sm] pt_lookup_same_map [OF sm] by auto
next
  case (Some i)
  let ?v = "vpn_of va" and ?t = "et_entry (mmu_tlb m e) ! i"
  from tlb_probe_Some [OF Some] have i: "i < length (et_entry (mmu_tlb m e))" and tag: "te_vpn ?t = ?v"
    by auto
  then have ok: "entry_ok m ?t"
    using inv e vpn_of_not_no_vpn by (simp add: mmu_inv_def tlb_ok_except_def)
  define d where "d \<longleftrightarrow> w \<and> te_pte ?t AND PTE_DIRTY = 0"
  define q where "q = (if d then te_pte ?t OR PTE_DIRTY else te_pte ?t)"
  define m1 where "m1 = (if d \<and> ?v < mmu_npages m then set_pte ?v (mmu_pte m ?v OR PTE_DIRTY) m else m)"
  define t' where "t' = ?t\<lparr>te_pte := q, te_last_used := et_clock (mmu_tlb m e)\<rparr>"
  define m2 where "m2 = tick e (put_entry e i t' m1)"
  have tr': "r = (Ok, pte_pa q)" "m' = m2\<lparr>mmu_hits := (mmu_hits m)(e := mmu_hits m e + 1)\<rparr>"
    using tr Some unfolding translate_def vpn_of_def [symmetric] Let_def
      m2_def t'_def m1_def q_def d_def by auto
  have v: "?v < mmu_npages m" using ok tag by (simp add: entry_ok_def)
  have q: "presentp q = presentp (te_pte ?t)" "in_vramp q = in_vramp (te_pte ?t)"
    "frame_of q = frame_of (te_pte ?t)" "dirtyp q = (dirtyp (te_pte ?t) \<or> w)"
    by (auto simp: q_def d_def pte_simps)
  have sm1: "same_map m m1" unfolding m1_def by (auto intro!: same_map_set_pte simp: pte_simps)
  have inv1: "mmu_inv m1" by (rule mmu_inv_same_map [OF inv sm1]) (simp add: m1_def)
  have dirty1: "dirtyp (mmu_pte m1 ?v) = (dirtyp (mmu_pte m ?v) \<or> d)"
    using v by (auto simp: m1_def pte_simps)
  have "entry_ok m1 ?t" using entry_ok_same_map [OF sm1 ok] .
  then have ok': "entry_ok m1 t'"
    using q tag dirty1 by (auto simp: entry_ok_def t'_def d_def pte_simps)
  have inv2: "mmu_inv m2" unfolding m2_def using inv1 ok' by (intro mmu_inv_tick tlb_ok_put_entry) simp_all
  have sm2: "same_map m2 m'" unfolding tr' by (simp add: same_map_def)
  have "same_map m1 m2" unfolding m2_def by (rule same_map_trans [OF same_map_put_entry same_map_tick])
  then have sm: "same_map m m'" using sm1 sm2 same_map_trans by blast
  have "mmu_inv m'" by (rule mmu_inv_same_map [OF inv2 sm2]) (simp add: tr')
  moreover have "r = pt_lookup m va"
    using ok tag v q(3) by (simp add: tr'(1) pt_lookup_def entry_ok_def pte_pa_frame Let_def not_le)
  moreover have "w \<longrightarrow> dirtyp (mmu_pte m' ?v)"
    using ok tag dirty1 by (auto simp: tr'(2) m2_def entry_ok_def d_def pte_simps)
  ultimately show ?thesis using sm by simp
qed

section \<open>Effect of the range operations on the page table\<close>

lemma range_index: "n < 2 ^ 64 \<Longrightarrow> (w :: u64) = v + of_nat n \<longleftrightarrow> unat (w - v) = n"
proof -
  assume n: "n < 2 ^ 64"
  have "w = v + of_nat n \<longleftrightarrow> w - v = of_nat n" by (auto simp: algebra_simps)
  also have "\<dots> \<longleftrightarrow> unat (w - v) = n" using n by (auto simp: word_eq_unat unat_of_nat_64)
  finally show ?thesis .
qed

lemma fold_map_vram_pte:
  "n \<le> 2 ^ 64 \<Longrightarrow>
   mmu_pte (fold (\<lambda>i m. tlb_invalidate_vpn (v + of_nat i) (set_pte (v + of_nat i) (f i) m)) [0 ..< n] m) w =
     (if unat (w - v) < n then f (unat (w - v)) else mmu_pte m w)"
  by (induction n) (auto simp: range_index less_Suc_eq)

lemma fold_map_host_pte:
  "n \<le> 2 ^ 64 \<Longrightarrow>
   mmu_pte (fold (\<lambda>i m. tlb_invalidate_vpn (v + of_nat i) (set_pte (v + of_nat i) p (set_host (v + of_nat i) (h i) m)))
     [0 ..< n] m) w = (if unat (w - v) < n then p else mmu_pte m w)"
  by (induction n) (auto simp: range_index less_Suc_eq)

lemma fold_clear_pte:
  "n \<le> 2 ^ 64 \<Longrightarrow>
   mmu_pte (fold (\<lambda>i m. set_host (v + of_nat i) 0 (set_pte (v + of_nat i) 0 m)) [0 ..< n] m) w =
     (if unat (w - v) < n then 0 else mmu_pte m w)"
  by (induction n) (auto simp: range_index less_Suc_eq)

lemma fold_invalidate_sel:
  "mmu_pte (fold (\<lambda>i. tlb_invalidate_vpn (v + of_nat i)) is m) = mmu_pte m"
  "mmu_npages (fold (\<lambda>i. tlb_invalidate_vpn (v + of_nat i)) is m) = mmu_npages m"
  by (induction "is" arbitrary: m) simp_all

lemma fold_npages:
  "mmu_npages (fold (\<lambda>i m. tlb_invalidate_vpn (v + of_nat i) (set_pte (v + of_nat i) (f i) m)) is m) = mmu_npages m"
  "mmu_npages (fold (\<lambda>i m. set_host (v + of_nat i) 0 (set_pte (v + of_nat i) 0 m)) is m) = mmu_npages m"
  by (induction "is" arbitrary: m) simp_all

text \<open>A present page keeps its entry through \<^verbatim>\<open>map_vram\<close> and \<^verbatim>\<open>map_host\<close>, whatever their arguments.\<close>

lemma present_range:
  assumes "\<not> (\<exists>i \<in> set [0 ..< unat n]. mmu_pte m (v + of_nat i) AND PTE_PRESENT \<noteq> 0)" "presentp (mmu_pte m w)"
  shows "\<not> unat (w - v) < unat n"
proof
  assume lt: "unat (w - v) < unat n"
  define i where "i = unat (w - v)"
  have w: "v + of_nat i = w" by (simp add: i_def)
  have "i \<in> set [0 ..< unat n]" using lt by (simp add: i_def)
  with assms(1) have "\<not> presentp (mmu_pte m (v + of_nat i))" by (auto simp only: flag_test)
  with assms(2) show False by (simp add: w)
qed

lemma map_vram_keeps:
  assumes "presentp (mmu_pte m w)"
  shows "mmu_pte (snd (map_vram va pa n m)) w = mmu_pte m w"
proof (cases "fst (map_vram va pa n m)")
  case None
  then show ?thesis
    using present_range [OF _ assms] unat_le_64 [of n]
    by (auto simp: map_vram_def Let_def fold_map_vram_pte split: if_splits)
next
  case (Some e)
  then show ?thesis by (auto simp: map_vram_def Let_def split: if_splits)
qed

lemma map_host_keeps:
  assumes "presentp (mmu_pte m w)"
  shows "mmu_pte (snd (map_host va h n m)) w = mmu_pte m w"
proof (cases "fst (map_host va h n m)")
  case None
  then show ?thesis
    using present_range [OF _ assms] unat_le_64 [of n]
    by (auto simp: map_host_def Let_def fold_map_host_pte split: if_splits)
next
  case (Some e)
  then show ?thesis by (auto simp: map_host_def Let_def split: if_splits)
qed

lemma make_resident_keeps:
  "in_vramp (mmu_pte m w) \<Longrightarrow> mmu_pte (snd (make_resident va pa m)) w = mmu_pte m w"
  by (auto simp: make_resident_def Let_def flag_test)

lemma unmap_pte:
  assumes "fst (unmap va n m) = None"
  shows "mmu_pte (snd (unmap va n m)) w = (if unat (w - vpn_of va) < unat n then 0 else mmu_pte m w)"
    and "mmu_npages (snd (unmap va n m)) = mmu_npages m"
  using assms unat_le_64 [of n]
  by (auto simp: unmap_def Let_def fold_invalidate_sel fold_clear_pte fold_npages vpn_of_def split: if_splits)

section \<open>The MMU as a state machine\<close>

datatype mmu_event =
    EvMapVram u64 u64 u64 | EvMapHost u64 u64 u64 | EvResident u64 u64 | EvUnmap u64 u64
  | EvBeginEvict u64 | EvEndEvict u64 | EvClock u64 | EvTranslate u32 u64 bool

fun mmu_do :: "mmu_event \<Rightarrow> mmu \<Rightarrow> mmu" where
  "mmu_do (EvMapVram va pa n) m = snd (map_vram va pa n m)"
| "mmu_do (EvMapHost va h n) m = snd (map_host va h n m)"
| "mmu_do (EvResident va pa) m = snd (make_resident va pa m)"
| "mmu_do (EvUnmap va n) m = snd (unmap va n m)"
| "mmu_do (EvBeginEvict va) m = snd (begin_evict va m)"
| "mmu_do (EvEndEvict va) m = snd (end_evict va m)"
| "mmu_do (EvClock va) m = snd (test_and_clear_accessed va m)"
| "mmu_do (EvTranslate e va w) m = snd (translate e va w m)"

text \<open>When an event may happen: engines are numbered below \<^const>\<open>SG_MAX_ENGINES\<close>, and the driver calls
  \<^verbatim>\<open>end_evict\<close> only on a page that \<^verbatim>\<open>begin_evict\<close> has taken out of VRAM.\<close>

fun mmu_can :: "mmu_event \<Rightarrow> mmu \<Rightarrow> bool" where
  "mmu_can (EvTranslate e va w) m = (e < SG_MAX_ENGINES)"
| "mmu_can (EvEndEvict va) m = (\<not> in_vramp (mmu_pte m (vpn_of va)))"
| "mmu_can _ m = True"

inductive mmu_step :: "mmu \<Rightarrow> mmu \<Rightarrow> bool" where
  step: "mmu_can ev m \<Longrightarrow> mmu_step m (mmu_do ev m)"

inductive_cases mmu_stepE: "mmu_step m m'"

lemma mmu_do_inv: "mmu_inv m \<Longrightarrow> mmu_can ev m \<Longrightarrow> mmu_inv (mmu_do ev m)"
proof (cases ev)
  case (EvTranslate e va w)
  assume "mmu_inv m" "mmu_can ev m"
  with translate_ok [of m e va w] EvTranslate show ?thesis by (cases "translate e va w m") auto
qed (auto simp: map_vram_inv map_host_inv make_resident_inv unmap_inv begin_evict_inv
      test_and_clear_accessed_inv end_evict_inv vpn_of_def)

interpretation mmu: invariant_machine "\<lambda>m. \<exists>va_bytes vram_bytes. m = mmu_new va_bytes vram_bytes" mmu_step mmu_inv
  by unfold_locales (auto simp: mmu_inv_new mmu_do_inv elim: mmu_stepE)


section \<open>Events that leave a page where it is\<close>

text \<open>The events that take the page \<open>v\<close> out of VRAM.\<close>

fun takes_page :: "u64 \<Rightarrow> mmu_event \<Rightarrow> bool" where
  "takes_page v (EvUnmap va n) \<longleftrightarrow> unat (v - vpn_of va) < unat n"
| "takes_page v (EvBeginEvict va) \<longleftrightarrow> vpn_of va = v"
| "takes_page v _ \<longleftrightarrow> False"

text \<open>Runs of events, each allowed where it happens.\<close>

fun mmu_run :: "mmu_event list \<Rightarrow> mmu \<Rightarrow> mmu option" where
  "mmu_run [] m = Some m"
| "mmu_run (ev # evs) m = (if mmu_can ev m then mmu_run evs (mmu_do ev m) else None)"

text \<open>A page resident at \<open>v\<close> in \<open>m\<close> is resident in the same frame in \<open>m'\<close>, and not cleaned.\<close>

definition page_kept :: "u64 \<Rightarrow> mmu \<Rightarrow> mmu \<Rightarrow> bool" where
  "page_kept v m m' \<longleftrightarrow> mmu_npages m' = mmu_npages m \<and>
     (presentp (mmu_pte m v) \<and> in_vramp (mmu_pte m v) \<longrightarrow>
      presentp (mmu_pte m' v) \<and> in_vramp (mmu_pte m' v) \<and> frame_of (mmu_pte m' v) = frame_of (mmu_pte m v) \<and>
      (dirtyp (mmu_pte m v) \<longrightarrow> dirtyp (mmu_pte m' v)))"

lemma page_kept_refl [simp]: "page_kept v m m"
  by (simp add: page_kept_def)

lemma page_kept_trans: "page_kept v a b \<Longrightarrow> page_kept v b c \<Longrightarrow> page_kept v a c"
  by (auto simp: page_kept_def)

lemma page_kept_same_map: "same_map m m' \<Longrightarrow> page_kept v m m'"
  by (auto simp: page_kept_def same_map_def)

lemma page_kept_pte: "mmu_npages m' = mmu_npages m \<Longrightarrow>
    (presentp (mmu_pte m v) \<Longrightarrow> in_vramp (mmu_pte m v) \<Longrightarrow> mmu_pte m' v = mmu_pte m v) \<Longrightarrow> page_kept v m m'"
  by (simp add: page_kept_def)

lemma fold_map_host_npages:
  "mmu_npages (fold (\<lambda>i m. tlb_invalidate_vpn (v + of_nat i) (set_pte (v + of_nat i) p
     (set_host (v + of_nat i) (h i) m))) is m) = mmu_npages m"
  by (induction "is" arbitrary: m) simp_all

lemma op_npages [simp]:
  "mmu_npages (snd (map_vram va pa n m)) = mmu_npages m"
  "mmu_npages (snd (map_host va h n m)) = mmu_npages m"
  "mmu_npages (snd (make_resident va pa m)) = mmu_npages m"
  "mmu_npages (snd (begin_evict va m)) = mmu_npages m"
  "mmu_npages (snd (end_evict va m)) = mmu_npages m"
  "mmu_npages (snd (unmap va n m)) = mmu_npages m"
  by (simp_all add: map_vram_def map_host_def make_resident_def begin_evict_def end_evict_def unmap_def
      Let_def fold_npages fold_map_host_npages fold_invalidate_sel)

lemma unmap_keeps:
  assumes "\<not> unat (v - vpn_of va) < unat n"
  shows "mmu_pte (snd (unmap va n m)) v = mmu_pte m v"
proof (cases "fst (unmap va n m)")
  case None
  with unmap_pte(1) [OF None] assms show ?thesis by simp
next
  case (Some e)
  then show ?thesis by (auto simp: unmap_def Let_def split: if_splits)
qed

lemma mmu_do_kept:
  assumes "mmu_inv m" "mmu_can ev m" "\<not> takes_page v ev"
  shows "page_kept v m (mmu_do ev m)"
proof (cases ev)
  case (EvTranslate e va w)
  with assms translate_ok [of m e va w] show ?thesis
    by (cases "translate e va w m") (auto intro: page_kept_same_map)
next
  case (EvClock va)
  then show ?thesis by (simp add: page_kept_same_map test_and_clear_accessed_same)
next
  case (EvUnmap va n)
  with assms show ?thesis by (auto intro!: page_kept_pte simp: unmap_keeps)
next
  case (EvEndEvict va)
  with assms have "\<not> in_vramp (mmu_pte m (vpn_of va))" by simp
  then show ?thesis using EvEndEvict
    by (auto intro!: page_kept_pte simp: end_evict_def Let_def vpn_of_def)
next
  case (EvBeginEvict va)
  with assms show ?thesis by (auto intro!: page_kept_pte simp: begin_evict_def Let_def vpn_of_def)
qed (auto intro!: page_kept_pte simp: map_vram_keeps map_host_keeps make_resident_keeps)

lemma mmu_run_kept:
  assumes "mmu_run evs m = Some m'" "mmu_inv m" "\<forall>ev \<in> set evs. \<not> takes_page v ev"
  shows "mmu_inv m' \<and> page_kept v m m'"
  using assms
proof (induction evs m rule: mmu_run.induct)
  case (2 ev evs m)
  then have can: "mmu_can ev m" and run: "mmu_run evs (mmu_do ev m) = Some m'" by (auto split: if_splits)
  from "2.IH" [OF can run] "2.prems" can show ?case
    using mmu_do_kept [of m ev v] by (auto simp: mmu_do_inv intro: page_kept_trans)
qed simp

lemma begin_evict_resident:
  "vpn_of va < mmu_npages m \<Longrightarrow> presentp (mmu_pte m (vpn_of va)) \<Longrightarrow> in_vramp (mmu_pte m (vpn_of va)) \<Longrightarrow>
   fst (begin_evict va m) = mmu_pte m (vpn_of va)"
  by (auto simp: begin_evict_def Let_def vpn_of_def pte_simps not_le)

lemma pt_lookup_Ok:
  "pt_lookup m va = (Ok, pa) \<longleftrightarrow> vpn_of va < mmu_npages m \<and> presentp (mmu_pte m (vpn_of va)) \<and>
     in_vramp (mmu_pte m (vpn_of va)) \<and> pa = pte_pa (mmu_pte m (vpn_of va))"
  by (auto simp: pt_lookup_def Let_def pte_pa_frame)

lemma pt_lookup_NotPresent:
  "fst (pt_lookup m va) = NotPresent \<longleftrightarrow> \<not> (vpn_of va < mmu_npages m \<and> presentp (mmu_pte m (vpn_of va)))"
  by (auto simp: pt_lookup_def Let_def)

section \<open>Properties\<close>

text \<open>C4: In every state the MMU can reach, a translation through an engine's TLB returns exactly what the
  page table says about the address (status and physical page), the mapping of every page is left
  as it was, and a successful write translation leaves the page marked dirty in the page table,
  also when the TLB hit was on an entry that already claimed to be dirty.\<close>

theorem translate_transparent:
  assumes "mmu_step\<^sup>*\<^sup>* (mmu_new va_bytes vram_bytes) m" "e < SG_MAX_ENGINES"
    "translate e va w m = (r, m')"
  shows "r = pt_lookup m va \<and> (\<forall>x. pt_lookup m' x = pt_lookup m x) \<and>
    (fst r = Ok \<longrightarrow> w \<longrightarrow> dirtyp (mmu_pte m' (vpn_of va)))"
proof -
  have "mmu_inv m" by (rule mmu.reachable_inv) (use assms(1) in blast)+
  from translate_ok [OF this assms(2,3)] show ?thesis by (auto simp: pt_lookup_same_map)
qed

text \<open>C21: No write is lost on eviction: once a write translation of a page has succeeded, any sequence of MMU
  events that neither evicts nor unmaps that page (other faults, migrations, clock sweeps, TLB
  refills on any engine) leaves the page in the same frame, and the entry that
  \<^verbatim>\<open>begin_evict\<close> finally returns carries the dirty bit, so the driver writes the page back.\<close>

theorem dirty_not_lost:
  assumes "mmu_step\<^sup>*\<^sup>* (mmu_new va_bytes vram_bytes) m" "e < SG_MAX_ENGINES"
    and "translate e va True m = ((Ok, pa), m1)"
    and "mmu_run evs m1 = Some m2" "\<forall>ev \<in> set evs. \<not> takes_page (vpn_of va) ev"
  shows "dirtyp (fst (begin_evict va m2)) \<and> pte_pa (fst (begin_evict va m2)) = pa"
proof -
  let ?v = "vpn_of va"
  have "mmu_inv m" by (rule mmu.reachable_inv) (use assms(1) in blast)+
  from translate_ok [OF this assms(2,3)]
  have inv1: "mmu_inv m1" and pt: "pt_lookup m1 va = (Ok, pa)" and d: "dirtyp (mmu_pte m1 ?v)"
    by (auto simp: pt_lookup_same_map)
  from mmu_run_kept [OF assms(4) inv1 assms(5)] have "page_kept ?v m1 m2" by simp
  with pt d have "?v < mmu_npages m2 \<and> presentp (mmu_pte m2 ?v) \<and> in_vramp (mmu_pte m2 ?v) \<and>
      dirtyp (mmu_pte m2 ?v) \<and> pte_pa (mmu_pte m2 ?v) = pa"
    by (auto simp: pt_lookup_Ok page_kept_def pte_pa_frame)
  then show ?thesis by (simp add: begin_evict_resident)
qed


lemma fold_map_vram_vram_pages:
  "mmu_vram_pages (fold (\<lambda>i m. tlb_invalidate_vpn (v + of_nat i) (set_pte (v + of_nat i) (f i) m)) is m) =
     mmu_vram_pages m"
  by (induction "is" arbitrary: m) simp_all

text \<open>The guard of a page run, without the machine's subtraction.\<close>

lemma page_run_iff:
  "(n :: u64) \<noteq> 0 \<Longrightarrow> (\<not> (v \<ge> p \<or> n > p - v)) \<longleftrightarrow> unat v + unat n \<le> unat (p :: u64)"
  using unat_gt_0 [of n] by (auto simp: word_le_unat word_less_unat unat_sub not_le not_less)

lemma page_run_free_iff:
  "(\<exists>i \<in> set [0 ..< unat n]. mmu_pte m (v + of_nat i) AND PTE_PRESENT \<noteq> 0) \<longleftrightarrow>
     (\<exists>w. unat (w - v) < unat (n :: u64) \<and> presentp (mmu_pte m w))"
proof
  assume "\<exists>i \<in> set [0 ..< unat n]. mmu_pte m (v + of_nat i) AND PTE_PRESENT \<noteq> 0"
  then obtain i where i: "i < unat n" "presentp (mmu_pte m (v + of_nat i))" by (auto simp: flag_test)
  have "unat (v + of_nat i - v) = i" using i unat_less_64 [of n] by (simp add: unat_of_nat_64)
  with i show "\<exists>w. unat (w - v) < unat n \<and> presentp (mmu_pte m w)" by metis
next
  assume "\<exists>w. unat (w - v) < unat n \<and> presentp (mmu_pte m w)"
  with present_range [of n m v] show "\<exists>i \<in> set [0 ..< unat n]. mmu_pte m (v + of_nat i) AND PTE_PRESENT \<noteq> 0"
    by blast
qed

lemma map_vram_success:
  assumes "fst (map_vram va pa n m) = None"
  shows "mmu_pte (snd (map_vram va pa n m)) w = (if unat (w - vpn_of va) < unat n
      then PTE_PRESENT OR PTE_IN_VRAM OR push_bit PTE_FRAME_SHIFT (vpn_of pa + of_nat (unat (w - vpn_of va)))
      else mmu_pte m w)"
  using assms unat_le_64 [of n]
  by (auto simp: map_vram_def Let_def fold_map_vram_pte vpn_of_def split: if_splits)

lemma or_and_eq_0: "((a OR b) AND c = 0) \<longleftrightarrow> a AND c = 0 \<and> b AND c = 0" for a b c :: u64
  by (auto simp: bit_eq_iff bit_simps)

lemma map_vram_None_iff:
  "fst (map_vram va pa n m) = None \<longleftrightarrow>
     page_offset va = 0 \<and> page_offset pa = 0 \<and> n \<noteq> 0 \<and>
     unat (vpn_of va) + unat n \<le> unat (mmu_npages m) \<and> unat (vpn_of pa) + unat n \<le> unat (mmu_vram_pages m) \<and>
     (\<forall>w. unat (w - vpn_of va) < unat n \<longrightarrow> \<not> presentp (mmu_pte m w))"
proof (cases "(va OR pa) AND (SG_PAGE_SIZE - 1) \<noteq> 0 \<or> n = 0")
  case True
  then show ?thesis
    by (auto simp: map_vram_def page_offset_def or_and_eq_0)
next
  case False
  then have off: "page_offset va = 0" "page_offset pa = 0" "n \<noteq> 0"
    by (auto simp: page_offset_def or_and_eq_0)
  show ?thesis
    unfolding map_vram_def Let_def page_run_free_iff vpn_of_def [symmetric]
    using False page_run_iff [OF off(3)] off by auto
qed


lemma mapped_frame:
  assumes "mmu_vram_pages m \<le> 2 ^ 52" "unat f + unat n \<le> unat (mmu_vram_pages m)" "unat i < unat n"
  shows "frame_of (PTE_PRESENT OR PTE_IN_VRAM OR push_bit PTE_FRAME_SHIFT (f + i)) = f + i"
proof -
  have "unat (mmu_vram_pages m) \<le> 2 ^ 52" using assms(1) by (simp add: word_le_unat)
  then have "unat f + unat i < 2 ^ 52" using assms(2,3) by linarith
  then have "unat (f + i) < 2 ^ 52" by (subst unat_add_64) auto
  then have "f + i < 2 ^ 52" by (simp add: word_less_unat)
  then show ?thesis by (simp add: pte_simps PTE_FRAME_SHIFT_def)
qed

lemma push_bit_add_64: "push_bit k (a + b) = push_bit k a + push_bit k (b :: u64)"
  by (simp add: push_bit_add)

lemma page_aligned_push: "page_offset pa = 0 \<Longrightarrow> push_bit 12 (vpn_of pa) = pa"
proof -
  assume "page_offset pa = 0"
  then have z: "\<not> bit pa n" if "n < 12" for n
  proof -
    have "mask 12 = (4095 :: u64)" by (simp add: mask_eq_exp_minus_1)
    moreover have "bit (mask 12 :: u64) n" using that by (simp add: bit_mask_iff)
    ultimately have "bit (4095 :: u64) n" by simp
    then show ?thesis using \<open>page_offset pa = 0\<close> by (auto simp: page_offset_def SG_PAGE_SIZE_def bit_eq_iff bit_simps)
  qed
  then have "12 \<le> n \<and> 12 + (n - 12) = n" if "bit pa n" for n using that by (cases "n < 12") auto
  then show ?thesis
    by (auto simp: bit_eq_iff bit_simps vpn_of_def SG_PAGE_SHIFT_def)
qed

lemma in_run:
  assumes "unat v + unat n \<le> unat p" "unat (w - v) < unat n"
  shows "w < (p :: u64)"
proof -
  have "unat (v + (w - v)) = unat v + unat (w - v)"
    by (rule unat_add_64) (use assms unat_less_64 [of p] in simp)
  with assms show ?thesis by (simp add: word_less_unat)
qed

lemma vpn_of_push: "w < 2 ^ 52 \<Longrightarrow> vpn_of (push_bit 12 w) = w"
  using frame_push [of w] by (simp add: vpn_of_def frame_of_def SG_PAGE_SHIFT_def)

lemma run_absent_iff:
  assumes "mmu_npages m \<le> 2 ^ 52" "unat (vpn_of va) + unat n \<le> unat (mmu_npages m)"
  shows "(\<forall>w. unat (w - vpn_of va) < unat n \<longrightarrow> \<not> presentp (mmu_pte m w)) \<longleftrightarrow>
    (\<forall>x. unat (vpn_of x - vpn_of va) < unat n \<longrightarrow> fst (pt_lookup m x) = NotPresent)"
proof -
  have "w = vpn_of (push_bit 12 w)" if "unat (w - vpn_of va) < unat n" for w
    using in_run [OF assms(2) that] assms(1) by (simp add: vpn_of_push)
  then show ?thesis using in_run [OF assms(2)] by (metis pt_lookup_NotPresent)
qed

text \<open>C32: \<^verbatim>\<open>map_vram\<close> succeeds exactly when both addresses are page aligned, the run is not empty and stays inside
  the address space and inside VRAM (with no wrap-around in the check), and no page of it is
  mapped. It then maps page \<open>i\<close> of the run to frame \<open>i\<close> of the VRAM range and touches no other page;
  when it fails nothing changes.\<close>

theorem map_vram_correct:
  assumes "mmu_inv m" "map_vram va pa n m = (err, m')"
  shows "(err = None \<longleftrightarrow> page_offset va = 0 \<and> page_offset pa = 0 \<and> n \<noteq> 0 \<and>
       unat (vpn_of va) + unat n \<le> unat (mmu_npages m) \<and> unat (vpn_of pa) + unat n \<le> unat (mmu_vram_pages m) \<and>
       (\<forall>x. unat (vpn_of x - vpn_of va) < unat n \<longrightarrow> fst (pt_lookup m x) = NotPresent)) \<and>
     (err \<noteq> None \<longrightarrow> m' = m) \<and>
     (err = None \<longrightarrow> (\<forall>x. pt_lookup m' x =
        (if unat (vpn_of x - vpn_of va) < unat n
         then (Ok, pa + push_bit 12 (vpn_of x - vpn_of va)) else pt_lookup m x)))"
proof -
  have res: "err = fst (map_vram va pa n m)" "m' = snd (map_vram va pa n m)" using assms(2) by simp_all
  have p52: "mmu_npages m \<le> 2 ^ 52" "mmu_vram_pages m \<le> 2 ^ 52"
    using assms(1) by (simp_all add: mmu_inv_def frames_ok_def)
  have fail: "err \<noteq> None \<longrightarrow> m' = m" using res by (auto simp: map_vram_def Let_def)
  have lookup: "pt_lookup m' x = (if unat (vpn_of x - vpn_of va) < unat n
      then (Ok, pa + push_bit 12 (vpn_of x - vpn_of va)) else pt_lookup m x)" if ok: "err = None" for x
  proof (cases "unat (vpn_of x - vpn_of va) < unat n")
    case True
    let ?i = "vpn_of x - vpn_of va"
    from ok map_vram_None_iff [of va pa n m] res have g: "page_offset pa = 0" "n \<noteq> 0"
      "unat (vpn_of va) + unat n \<le> unat (mmu_npages m)" "unat (vpn_of pa) + unat n \<le> unat (mmu_vram_pages m)"
      by simp_all
    have "vpn_of x < mmu_npages m" by (rule in_run [OF g(3) True])
    with map_vram_success [of va pa n m "vpn_of x"] True ok res mapped_frame [OF p52(2) g(4) True]
      page_aligned_push [OF g(1)]
    show ?thesis by (auto simp: pt_lookup_Ok pte_pa_frame push_bit_add_64 pte_simps)
  next
    case False
    with map_vram_success [of va pa n m "vpn_of x"] ok res show ?thesis by (simp add: pt_lookup_def Let_def)
  qed
  have "err = None \<longleftrightarrow> page_offset va = 0 \<and> page_offset pa = 0 \<and> n \<noteq> 0 \<and>
       unat (vpn_of va) + unat n \<le> unat (mmu_npages m) \<and> unat (vpn_of pa) + unat n \<le> unat (mmu_vram_pages m) \<and>
       (\<forall>x. unat (vpn_of x - vpn_of va) < unat n \<longrightarrow> fst (pt_lookup m x) = NotPresent)"
    unfolding res map_vram_None_iff using run_absent_iff [OF p52(1), of va n] by metis
  with fail lookup show ?thesis by blast
qed


text \<open>C33: \<^verbatim>\<open>unmap\<close> undoes \<^verbatim>\<open>map_vram\<close>: unmapping a run that was just mapped succeeds, and every address then
  translates on every engine exactly as it did before the run was mapped.\<close>

theorem map_unmap_roundtrip:
  assumes "mmu_inv m" "map_vram va pa n m = (None, m1)" "unmap va n m1 = (err, m2)"
  shows "err = None \<and> mmu_inv m2 \<and> (\<forall>x. pt_lookup m2 x = pt_lookup m x) \<and>
    (\<forall>e x w. e < SG_MAX_ENGINES \<longrightarrow> fst (translate e x w m2) = pt_lookup m x)"
proof -
  have res1: "fst (map_vram va pa n m) = None" "m1 = snd (map_vram va pa n m)" using assms(2) by simp_all
  from res1(1) have g: "page_offset va = 0" "n \<noteq> 0" "unat (vpn_of va) + unat n \<le> unat (mmu_npages m)"
    "\<forall>w. unat (w - vpn_of va) < unat n \<longrightarrow> \<not> presentp (mmu_pte m w)"
    by (simp_all add: map_vram_None_iff)
  have "fst (unmap va n m1) = None"
    using g(1,2) page_run_iff [OF g(2), of "mmu_npages m" "vpn_of va"] g(3)
    by (auto simp: unmap_def Let_def res1(2) page_offset_def vpn_of_def not_le not_less)
  then have err: "err = None" and pte2: "mmu_pte m2 w = (if unat (w - vpn_of va) < unat n then 0 else mmu_pte m w)" for w
    using unmap_pte(1) [of va n m1 w] map_vram_success [OF res1(1), of w] assms(3) by (simp_all add: res1(2))
  have inv2: "mmu_inv m2" using unmap_inv [of m1 va n] map_vram_inv [OF assms(1), of va pa n] assms(3)
    by (simp add: res1(2))
  have np: "mmu_npages m2 = mmu_npages m" using op_npages(1) [of va pa n m] op_npages(6) [of va n m1] assms(3) by (simp only: res1(2) [symmetric] snd_conv)
  have pt: "pt_lookup m2 x = pt_lookup m x" for x
    using g(4) by (simp add: pt_lookup_def Let_def np pte2 pte_simps)
  have "fst (translate e x w m2) = pt_lookup m x" if "e < SG_MAX_ENGINES" for e x w
    using translate_ok [OF inv2 that, of x w] pt by (cases "translate e x w m2") simp
  with err inv2 pt show ?thesis by blast
qed

section \<open>Witnesses\<close>

text \<open>A two-page address space over two frames, with page 1 mapped to frame 0.\<close>

definition mapped_mmu :: mmu where
  "mapped_mmu = snd (map_vram 0x1000 0 1 (mmu_new 0x2000 0x2000))"

lemma mapped_mmu_reach: "mmu_step\<^sup>*\<^sup>* (mmu_new 0x2000 0x2000) mapped_mmu"
  using mmu_step.step [of "EvMapVram 0x1000 0 1"] by (simp add: mapped_mmu_def r_into_rtranclp)

theorem translate_transparent_witness:
  "fst (translate 0 0x1004 True mapped_mmu) = (Ok, 0) \<and>
   dirtyp (mmu_pte (snd (translate 0 0x1004 True mapped_mmu)) 1)"
proof -
  have "pt_lookup mapped_mmu 0x1004 = (Ok, 0)" "vpn_of 0x1004 = 1" by code_simp+
  with translate_transparent [OF mapped_mmu_reach, of 0 "0x1004" True]
  show ?thesis by (cases "translate 0 0x1004 True mapped_mmu") (simp add: SG_MAX_ENGINES_def)
qed

theorem dirty_not_lost_witness:
  "let m1 = snd (translate 0 0x1004 True mapped_mmu);
       evs = [EvClock 0x1000, EvTranslate 1 0x1008 False, EvMapVram 0 0x1000 1, EvBeginEvict 0];
       m2 = the (mmu_run evs m1)
   in dirtyp (fst (begin_evict 0x1004 m2)) \<and> pte_pa (fst (begin_evict 0x1004 m2)) = 0"
proof -
  let ?m1 = "snd (translate 0 0x1004 True mapped_mmu)"
  let ?evs = "[EvClock 0x1000, EvTranslate 1 0x1008 False, EvMapVram 0 0x1000 1, EvBeginEvict 0]"
  have tr: "translate 0 0x1004 True mapped_mmu = ((Ok, 0), ?m1)"
  proof -
    have "fst (translate 0 0x1004 True mapped_mmu) = (Ok, 0)" by code_simp
    then show ?thesis by (cases "translate 0 0x1004 True mapped_mmu") simp
  qed
  have "mmu_run ?evs ?m1 = Some (the (mmu_run ?evs ?m1))" by (simp add: SG_MAX_ENGINES_def)
  moreover have "\<forall>ev \<in> set ?evs. \<not> takes_page (vpn_of 0x1004) ev" by code_simp
  moreover have "(0 :: u32) < SG_MAX_ENGINES" by code_simp
  ultimately show ?thesis
    using dirty_not_lost [OF mapped_mmu_reach _ tr, of ?evs "the (mmu_run ?evs ?m1)"] by (simp only: Let_def simp_thms)
qed

theorem map_vram_correct_witness:
  "mmu_inv mapped_mmu \<and> fst (map_vram 0 0x1000 1 mapped_mmu) = None \<and>
   pt_lookup (snd (map_vram 0 0x1000 1 mapped_mmu)) 0x20 = (Ok, 0x1000) \<and>
   map_vram 0x1000 0x1000 1 mapped_mmu = (Some EEXIST, mapped_mmu)"
proof -
  have inv: "mmu_inv mapped_mmu" by (rule mmu.reachable_inv [OF _ mapped_mmu_reach]) blast
  have ok: "fst (map_vram 0 0x1000 1 mapped_mmu) = None" by code_simp
  have ex: "fst (map_vram 0x1000 0x1000 1 mapped_mmu) = Some EEXIST" by code_simp
  have off: "unat (vpn_of 0x20 - vpn_of 0) < unat (1 :: u64)" "vpn_of 0x20 - vpn_of 0 = 0" by code_simp+
  have "pt_lookup (snd (map_vram 0 0x1000 1 mapped_mmu)) 0x20 = (Ok, 0x1000)"
    using map_vram_correct [OF inv prod.collapse [symmetric], of 0 "0x1000" 1] ok off
    by (simp only: if_True simp_thms) simp
  moreover have "map_vram 0x1000 0x1000 1 mapped_mmu = (Some EEXIST, mapped_mmu)"
  proof -
    have "snd (map_vram 0x1000 0x1000 1 mapped_mmu) = mapped_mmu"
      using map_vram_correct [OF inv prod.collapse [symmetric], of "0x1000" "0x1000" 1]
      unfolding ex by blast
    with ex show ?thesis by (metis prod.collapse)
  qed
  ultimately show ?thesis using inv ok by blast
qed

theorem map_unmap_roundtrip_witness:
  "unmap 0 1 (snd (map_vram 0 0x1000 1 mapped_mmu)) = (None, snd (unmap 0 1 (snd (map_vram 0 0x1000 1 mapped_mmu)))) \<and>
   pt_lookup (snd (unmap 0 1 (snd (map_vram 0 0x1000 1 mapped_mmu)))) 0x1000 = (Ok, 0)"
proof -
  have inv: "mmu_inv mapped_mmu" by (rule mmu.reachable_inv [OF _ mapped_mmu_reach]) blast
  have ok: "fst (map_vram 0 0x1000 1 mapped_mmu) = None" by code_simp
  then have map: "map_vram 0 0x1000 1 mapped_mmu = (None, snd (map_vram 0 0x1000 1 mapped_mmu))"
    by (cases "map_vram 0 0x1000 1 mapped_mmu") simp
  have pt: "pt_lookup mapped_mmu 0x1000 = (Ok, 0)" by code_simp
  from map_unmap_roundtrip [OF inv map] pt show ?thesis
    by (cases "unmap 0 1 (snd (map_vram 0 0x1000 1 mapped_mmu))") simp
qed

end
