(* ===== verification/Vmem.thy ===== *)
theory Vmem
  imports Mmu
begin

text \<open>
  Device memory as the engines see it: the VRAM bytes behind the MMU, and \<^verbatim>\<open>Device::run_at\<close> and
  \<^verbatim>\<open>Device::resolve\<close>, which turn a range of device addresses into the longest resident, physically
  contiguous run. The contents of managed memory are described by \<open>logical\<close>: the byte at a device
  address wherever the page lives now, in its VRAM frame or in its host backing. The page DMA of the
  fault path (\<^verbatim>\<open>Device::copy_in\<close>, \<^verbatim>\<open>Device::copy_out\<close>) is here too, with the lemmas that moving a page
  leaves \<open>logical\<close> alone.
\<close>

section \<open>Pages of addresses\<close>

lemma page_size_mask: "SG_PAGE_SIZE - 1 = mask 12"
  by (simp add: SG_PAGE_SIZE_def mask_eq_exp_minus_1)

lemma unat_page_offset: "unat (page_offset a) = unat a mod 4096"
  by (simp add: page_offset_def page_size_mask take_bit_eq_mask [symmetric] unsigned_take_bit_eq take_bit_eq_mod unat_mod)

lemma unat_vpn_of: "unat (vpn_of a) = unat a div 4096"
  by (simp add: vpn_of_def SG_PAGE_SHIFT_def drop_bit_eq_div unat_div)

lemma page_offset_less: "page_offset a < SG_PAGE_SIZE"
  by (simp add: word_less_unat unat_page_offset SG_PAGE_SIZE_def)

lemma unat_chunk: "unat (SG_PAGE_SIZE - page_offset a) = 4096 - unat a mod 4096"
proof -
  have "unat (SG_PAGE_SIZE - page_offset a) = unat SG_PAGE_SIZE - unat (page_offset a)"
    by (rule unat_sub_64) (use page_offset_less [of a] in simp)
  then show ?thesis by (simp add: unat_page_offset SG_PAGE_SIZE_def)
qed

lemma nat_page_split:
  assumes "(a :: nat) mod 4096 + i < 4096"
  shows "(a + i) div 4096 = a div 4096" "(a + i) mod 4096 = a mod 4096 + i"
proof -
  define q r where "q = a div 4096" and "r = a mod 4096"
  have a: "a + i = (r + i) + q * 4096" by (simp add: q_def r_def)
  have lt: "r + i < 4096" using assms by (simp add: r_def)
  have "((r + i) + q * 4096) div 4096 = q" "((r + i) + q * 4096) mod 4096 = r + i"
    using lt by (simp_all add: div_mult_self1)
  then show "(a + i) div 4096 = a div 4096" "(a + i) mod 4096 = a mod 4096 + i"
    by (simp_all only: a q_def r_def)
qed

lemma same_page:
  assumes "unat a mod 4096 + unat i < 4096"
  shows "vpn_of (a + i) = vpn_of a" "page_offset (a + i) = page_offset a + i"
proof -
  have "(unat a + unat i) div 4096 < 4503599627370496"
    using unat_less_64 [of a] by (simp add: nat_page_split(1) [OF assms])
  then have s: "unat (a + i) = unat a + unat i" by (intro unat_add_64) simp
  then show "vpn_of (a + i) = vpn_of a" by (simp add: word_eq_unat unat_vpn_of nat_page_split(1) [OF assms])
  have "unat (page_offset a + i) = unat (page_offset a) + unat i"
    by (rule unat_add_64) (use assms in \<open>simp add: unat_page_offset\<close>)
  then show "page_offset (a + i) = page_offset a + i"
    by (simp add: word_eq_unat unat_page_offset s nat_page_split(2) [OF assms])
qed

section \<open>State\<close>

record dev_mem =
  dm_vram :: "u64 \<Rightarrow> u8"
  dm_vram_size :: u64
  dm_mmu :: mmu
  dm_host :: "u64 \<Rightarrow> u8"
  dm_missing :: "u64 \<Rightarrow> bool"

text \<open>\<open>dm_missing\<close> says which host pages (by base address) have no contents: with \<^verbatim>\<open>userfaultfd\<close> the host copy of
  a page in VRAM is dropped, and a host access to it faults.\<close>

text \<open>What \<^verbatim>\<open>run_at\<close> and its callers return: a run of VRAM (offset and length), \<^verbatim>\<open>kPageFault\<close> with the
  page base, \<^verbatim>\<open>kSplit\<close>, or a negated error number.\<close>

datatype run_res = Run u64 u64 | RFault u64 | RErr errno

section \<open>Operations\<close>

lemma advance:
  assumes "got < (len :: u64)" and n_def: "n = min (len - got) (SG_PAGE_SIZE - page_offset cur)"
  shows "unat n = min (unat len - unat got) (4096 - unat cur mod 4096)" "0 < unat n"
    "unat (got + n) = unat got + unat n" "unat got + unat n \<le> unat len"
proof -
  have sub: "unat (len - got) = unat len - unat got" by (rule unat_sub_64) (use assms in simp)
  show u: "unat n = min (unat len - unat got) (4096 - unat cur mod 4096)"
    unfolding n_def by (simp add: min_def word_le_unat sub unat_chunk)
  have lt: "unat got < unat len" using assms(1) by (simp add: word_less_unat)
  have "unat cur mod 4096 < 4096" by simp
  then show "0 < unat n" using u lt by linarith
  show le: "unat got + unat n \<le> unat len" using u lt by linarith
  show "unat (got + n) = unat got + unat n"
    by (rule unat_add_64) (use le unat_less_64 [of len] in simp)
qed

text \<open>The loop of \<^verbatim>\<open>run_at\<close>. Every iteration takes at least one byte, so it ends.\<close>

function run_loop :: "u32 \<Rightarrow> u64 \<Rightarrow> u64 \<Rightarrow> bool \<Rightarrow> u64 \<Rightarrow> u64 \<Rightarrow> mmu \<Rightarrow> run_res \<times> mmu" where
  "run_loop engine va len write base got m =
     (if got < len then
        let cur = va + got;
            (t, m1) = translate engine cur write m
        in if fst t \<noteq> Ok then
             (if got \<noteq> 0 then (Run base got, m1)
              else if fst t = HostResident then (RFault (page_floor cur), m1)
              else (RErr EFAULT, m1))
           else let pa = snd t + page_offset cur
             in if got \<noteq> 0 \<and> pa \<noteq> base + got then (Run base got, m1)
                else run_loop engine va len write (if got = 0 then pa else base)
                       (got + min (len - got) (SG_PAGE_SIZE - page_offset cur)) m1
      else (Run base got, m))"
  by pat_completeness auto

termination
proof (relation "measure (\<lambda>(engine, va, len, write, base, got, m). unat len - unat got)", goal_cases)
  case (2 engine va len w base got m cur t m1 pa)
  note adv = advance [OF \<open>got < len\<close> refl, of cur]
  show ?case unfolding in_measure prod.case using adv by linarith
qed simp

declare run_loop.simps [simp del]

definition run_at :: "u32 \<Rightarrow> u64 \<Rightarrow> u64 \<Rightarrow> bool \<Rightarrow> dev_mem \<Rightarrow> run_res \<times> dev_mem" where
  "run_at engine va len write d =
     (let (r, m1) = run_loop engine va len write 0 0 (dm_mmu d);
          d1 = d\<lparr>dm_mmu := m1\<rparr>
      in case r of
           Run base got \<Rightarrow>
             if base > dm_vram_size d \<or> got > dm_vram_size d - base then (RErr EFAULT, d1)
             else (Run base got, d1)
         | _ \<Rightarrow> (r, d1))"

text \<open>\<^verbatim>\<open>resolve\<close>: one contiguous run for the whole range. A null pointer (empty range) is \<^const>\<open>None\<close>.\<close>

datatype resolved = RPtr "u64 option" | RPageFault u64 | RSplit | RError errno

definition resolve :: "u32 \<Rightarrow> u64 \<Rightarrow> u64 \<Rightarrow> bool \<Rightarrow> dev_mem \<Rightarrow> resolved \<times> dev_mem" where
  "resolve engine va len write d =
     (if len = 0 then (RPtr None, d)
      else let (r, d1) = run_at engine va len write d in
        case r of
          Run base n \<Rightarrow> (if n = len then RPtr (Some base) else RSplit, d1)
        | RFault va \<Rightarrow> (RPageFault va, d1)
        | RErr e \<Rightarrow> (RError e, d1))"

text \<open>Copies of \<open>n\<close> bytes between byte arrays, and \<^verbatim>\<open>memset\<close>.\<close>

definition blit :: "u64 \<Rightarrow> u64 \<Rightarrow> u64 \<Rightarrow> (u64 \<Rightarrow> u8) \<Rightarrow> (u64 \<Rightarrow> u8) \<Rightarrow> u64 \<Rightarrow> u8" where
  "blit to from n srcm dstm = (\<lambda>x. if x - to < n then srcm (from + (x - to)) else dstm x)"

definition memset_bytes :: "u64 \<Rightarrow> u8 \<Rightarrow> u64 \<Rightarrow> (u64 \<Rightarrow> u8) \<Rightarrow> u64 \<Rightarrow> u8" where
  "memset_bytes to v n dstm = (\<lambda>x. if x - to < n then v else dstm x)"

definition copy_in :: "u64 \<Rightarrow> u64 \<Rightarrow> dev_mem \<Rightarrow> errno option \<times> dev_mem" where
  "copy_in pa hp d =
     (if page_offset pa \<noteq> 0 \<or> pa \<ge> dm_vram_size d \<or> hp = 0 then (Some EFAULT, d)
      else (None, d\<lparr>dm_vram := blit pa hp SG_PAGE_SIZE (dm_host d) (dm_vram d)\<rparr>))"

definition copy_out :: "u64 \<Rightarrow> u64 \<Rightarrow> dev_mem \<Rightarrow> errno option \<times> dev_mem" where
  "copy_out pa hp d =
     (if page_offset pa \<noteq> 0 \<or> pa \<ge> dm_vram_size d \<or> hp = 0 then (Some EFAULT, d)
      else (None, d\<lparr>dm_host := blit hp pa SG_PAGE_SIZE (dm_vram d) (dm_host d)\<rparr>))"

section \<open>Runs of resident pages\<close>

text \<open>The VRAM offset a device address is mapped to.\<close>

definition phys :: "mmu \<Rightarrow> u64 \<Rightarrow> u64 option" where
  "phys m va = (if fst (pt_lookup m va) = Ok then Some (snd (pt_lookup m va) + page_offset va) else None)"

lemma phys_same_map: "same_map m m' \<Longrightarrow> phys m' = phys m"
  by (rule ext) (simp add: phys_def pt_lookup_same_map)

lemma phys_page:
  assumes "unat a mod 4096 + unat i < 4096" "phys m a = Some p"
  shows "phys m (a + i) = Some (p + i)"
  using assms by (auto simp: phys_def pt_lookup_def Let_def same_page split: if_splits)

lemma dirty_same_map: "same_map m m' \<Longrightarrow> dirtyp (mmu_pte m v) \<Longrightarrow> dirtyp (mmu_pte m' v)"
  by (simp add: same_map_def)

text \<open>What a run of \<open>n\<close> bytes at \<open>va\<close> promises: byte \<open>i\<close> is mapped to VRAM offset \<open>b + i\<close>, and a run for
  writing has its pages marked dirty.\<close>

definition run_ok :: "mmu \<Rightarrow> bool \<Rightarrow> u64 \<Rightarrow> u64 \<Rightarrow> u64 \<Rightarrow> bool" where
  "run_ok m w va b n \<longleftrightarrow> (\<forall>i < n. phys m (va + i) = Some (b + i) \<and> (w \<longrightarrow> dirtyp (mmu_pte m (vpn_of (va + i)))))"

lemma run_ok_same_map: "same_map m m' \<Longrightarrow> run_ok m w va b n \<Longrightarrow> run_ok m' w va b n"
  by (auto simp: run_ok_def phys_same_map dirty_same_map)

lemma run_ok_extend:
  assumes "run_ok m w va b got" "got < len" "phys m (va + got) = Some (b + got)"
    "w \<longrightarrow> dirtyp (mmu_pte m (vpn_of (va + got)))"
  shows "run_ok m w va b (got + min (len - got) (SG_PAGE_SIZE - page_offset (va + got)))"
  unfolding run_ok_def
proof (intro allI impI)
  fix i assume i: "i < got + min (len - got) (SG_PAGE_SIZE - page_offset (va + got))"
  note adv = advance [OF assms(2) refl, of "va + got"]
  show "phys m (va + i) = Some (b + i) \<and> (w \<longrightarrow> dirtyp (mmu_pte m (vpn_of (va + i))))"
  proof (cases "i < got")
    case True
    with assms(1) show ?thesis by (simp add: run_ok_def)
  next
    case False
    define j where "j = i - got"
    have ij: "i = got + j" by (simp add: j_def)
    have uj: "unat j = unat i - unat got" unfolding j_def by (rule unat_sub_64) (use False in simp)
    have gi: "unat got \<le> unat i" using False by (simp add: word_less_unat)
    have "unat i < unat got + min (unat len - unat got) (4096 - unat (va + got) mod 4096)"
      using i adv(1,3) by (simp only: word_less_unat)
    moreover have "unat (va + got) mod 4096 < 4096" by simp
    ultimately have j: "unat (va + got) mod 4096 + unat j < 4096" using uj gi by linarith
    have "vpn_of (va + i) = vpn_of (va + got)" "phys m (va + i) = Some (b + i)"
      using same_page(1) [OF j] phys_page [OF j assms(3)] by (simp_all add: ij add.assoc)
    with assms(4) show ?thesis by simp
  qed
qed

definition run_result_ok :: "mmu \<Rightarrow> mmu \<Rightarrow> bool \<Rightarrow> u64 \<Rightarrow> u64 \<Rightarrow> run_res \<Rightarrow> bool" where
  "run_result_ok m m' w va len res \<longleftrightarrow>
     (case res of
        Run b n \<Rightarrow> n \<le> len \<and> (n = 0 \<longrightarrow> len = 0) \<and> run_ok m' w va b n \<and>
          (n = len \<or> phys m (va + n) \<noteq> Some (b + n))
      | RFault f \<Rightarrow> fst (pt_lookup m va) = HostResident \<and> f = page_floor va \<and> len \<noteq> 0
      | RErr er \<Rightarrow> fst (pt_lookup m va) = NotPresent \<and> er = EFAULT \<and> len \<noteq> 0)"

lemma run_loop_correct:
  assumes "mmu_inv m" "e < SG_MAX_ENGINES" "got \<le> len" "run_ok m w va base got"
    "run_loop e va len w base got m = (res, m')"
  shows "mmu_inv m' \<and> same_map m m' \<and> run_result_ok m m' w va len res"
  using assms
proof (induction e va len w base got m rule: run_loop.induct)
  case (1 e va len w base got m)
  show ?case
  proof (cases "got < len")
    case False
    with "1.prems" have "got = len" "res = Run base got" "m' = m" by (simp_all add: run_loop.simps)
    with "1.prems" show ?thesis by (simp add: run_result_ok_def)
  next
    case True
    obtain t m1 where tr: "translate e (va + got) w m = (t, m1)" by (cases "translate e (va + got) w m")
    note t = translate_ok [OF "1.prems"(1,2) tr]
    then have sm: "same_map m m1" and inv1: "mmu_inv m1" by simp_all
    have ok1: "run_ok m1 w va base got" using run_ok_same_map [OF sm "1.prems"(4)] .
    let ?pa = "snd t + page_offset (va + got)"
    have ph: "fst t = Ok \<Longrightarrow> phys m (va + got) = Some ?pa" "fst t \<noteq> Ok \<Longrightarrow> phys m (va + got) = None"
      using t by (simp_all add: phys_def)
    show ?thesis
    proof (cases "fst t \<noteq> Ok \<or> got \<noteq> 0 \<and> ?pa \<noteq> base + got")
      case stop: True
      show ?thesis
      proof (cases "got = 0")
        case True
        with stop have nok: "fst t \<noteq> Ok" by simp
        with "1.prems"(5) \<open>got < len\<close> True tr
        have "m' = m1 \<and> res = (if fst t = HostResident then RFault (page_floor va) else RErr EFAULT)"
          by (auto simp: run_loop.simps)
        with t True sm nok \<open>got < len\<close> show ?thesis
          by (cases "fst t") (auto simp: run_result_ok_def)
      next
        case False
        with "1.prems"(5) \<open>got < len\<close> tr stop have "m' = m1 \<and> res = Run base got"
          by (auto simp: run_loop.simps Let_def split: if_splits)
        with inv1 sm ok1 False ph stop \<open>got < len\<close> show ?thesis
          by (cases "fst t = Ok") (auto simp: run_result_ok_def)
      qed
    next
      case False
      define b where "b = (if got = 0 then ?pa else base)"
      define got1 where "got1 = got + min (len - got) (SG_PAGE_SIZE - page_offset (va + got))"
      from False have fok: "fst t = Ok" and pa: "?pa = b + got" by (auto simp: b_def)
      note adv = advance [OF True refl, of "va + got"]
      have rec: "run_loop e va len w b got1 m1 = (res, m')"
        using "1.prems"(5) True False tr
        by (auto simp: run_loop.simps [of e va len w base got] b_def got1_def Let_def)
      have "run_ok m1 w va b got" using ok1 by (cases "got = 0") (auto simp: b_def run_ok_def)
      moreover have "phys m1 (va + got) = Some (b + got)" using ph(1) [OF fok] pa by (simp add: phys_same_map [OF sm])
      ultimately have ok: "run_ok m1 w va b got1"
        unfolding got1_def using t fok True by (intro run_ok_extend) auto
      have le: "got1 \<le> len" using adv unfolding got1_def by (simp add: word_le_unat)
      have IH: "mmu_inv m' \<and> same_map m1 m' \<and> run_result_ok m1 m' w va len res"
        using "1.IH" [OF True refl tr [symmetric] _ _ refl, unfolded prod.case] False rec inv1 "1.prems"(2) le ok
        by (auto simp: b_def got1_def)
      then show ?thesis
        using same_map_trans [OF sm] pt_lookup_same_map [OF sm] phys_same_map [OF sm]
        by (auto simp: run_result_ok_def split: run_res.splits)
    qed
  qed
qed

section \<open>Memory contents\<close>

definition resident :: "mmu \<Rightarrow> u64 \<Rightarrow> bool" where
  "resident m v \<longleftrightarrow> v < mmu_npages m \<and> presentp (mmu_pte m v) \<and> in_vramp (mmu_pte m v)"

definition hosted :: "mmu \<Rightarrow> u64 \<Rightarrow> bool" where
  "hosted m v \<longleftrightarrow> v < mmu_npages m \<and> presentp (mmu_pte m v) \<and> mmu_host m v \<noteq> 0"

text \<open>The byte at a device address, wherever its page is.\<close>

definition logical :: "dev_mem \<Rightarrow> u64 \<Rightarrow> u8 option" where
  "logical d va =
     (case fst (pt_lookup (dm_mmu d) va) of
        Ok \<Rightarrow> Some (dm_vram d (snd (pt_lookup (dm_mmu d) va) + page_offset va))
      | HostResident \<Rightarrow> Some (dm_host d (mmu_host (dm_mmu d) (vpn_of va) + page_offset va))
      | NotPresent \<Rightarrow> None)"

definition frames_inj :: "mmu \<Rightarrow> bool" where
  "frames_inj m \<longleftrightarrow> (\<forall>v v'. resident m v \<longrightarrow> resident m v' \<longrightarrow> frame_of (mmu_pte m v) = frame_of (mmu_pte m v') \<longrightarrow> v = v')"

definition backing_ok :: "mmu \<Rightarrow> bool" where
  "backing_ok m \<longleftrightarrow> (\<forall>v. \<not> presentp (mmu_pte m v) \<longrightarrow> mmu_host m v = 0) \<and>
     (\<forall>v. v < mmu_npages m \<longrightarrow> presentp (mmu_pte m v) \<longrightarrow> \<not> in_vramp (mmu_pte m v) \<longrightarrow> mmu_host m v \<noteq> 0) \<and>
     (\<forall>v. hosted m v \<longrightarrow> page_offset (mmu_host m v) = 0) \<and>
     (\<forall>v v'. hosted m v \<longrightarrow> hosted m v' \<longrightarrow> mmu_host m v = mmu_host m v' \<longrightarrow> v = v')"

lemma backing_okI:
  assumes "\<And>v. \<not> presentp (mmu_pte m v) \<Longrightarrow> mmu_host m v = 0"
    "\<And>v. v < mmu_npages m \<Longrightarrow> presentp (mmu_pte m v) \<Longrightarrow> \<not> in_vramp (mmu_pte m v) \<Longrightarrow> mmu_host m v \<noteq> 0"
    "\<And>v. hosted m v \<Longrightarrow> page_offset (mmu_host m v) = 0"
    "\<And>v v'. hosted m v \<Longrightarrow> hosted m v' \<Longrightarrow> mmu_host m v = mmu_host m v' \<Longrightarrow> v = v'"
  shows "backing_ok m"
  unfolding backing_ok_def using assms by blast

lemma backing_okD:
  assumes "backing_ok m"
  shows "\<not> presentp (mmu_pte m v) \<Longrightarrow> mmu_host m v = 0"
    "v < mmu_npages m \<Longrightarrow> presentp (mmu_pte m v) \<Longrightarrow> \<not> in_vramp (mmu_pte m v) \<Longrightarrow> mmu_host m v \<noteq> 0"
    "hosted m v \<Longrightarrow> page_offset (mmu_host m v) = 0"
    "hosted m v \<Longrightarrow> hosted m v' \<Longrightarrow> mmu_host m v = mmu_host m v' \<Longrightarrow> v = v'"
  using assms unfolding backing_ok_def by blast+

definition clean_ok :: "dev_mem \<Rightarrow> bool" where
  "clean_ok d \<longleftrightarrow> (\<forall>v off. resident (dm_mmu d) v \<longrightarrow> hosted (dm_mmu d) v \<longrightarrow> \<not> dirtyp (mmu_pte (dm_mmu d) v) \<longrightarrow>
     off < SG_PAGE_SIZE \<longrightarrow> \<not> dm_missing d (mmu_host (dm_mmu d) v) \<longrightarrow>
     dm_vram d (pte_pa (mmu_pte (dm_mmu d) v) + off) = dm_host d (mmu_host (dm_mmu d) v + off))"

text \<open>The invariant of device memory: no two pages share a VRAM frame or a host page, every frame lies
  in VRAM, and the host backing of a clean page, where it has contents, is up to date.\<close>

definition mem_inv :: "dev_mem \<Rightarrow> bool" where
  "mem_inv d \<longleftrightarrow> mmu_inv (dm_mmu d) \<and> mmu_vram_pages (dm_mmu d) = dm_vram_size d div SG_PAGE_SIZE \<and>
     frames_inj (dm_mmu d) \<and> backing_ok (dm_mmu d) \<and> clean_ok d"

lemma same_map_views:
  assumes "same_map m m'"
  shows "resident m' = resident m" "hosted m' = hosted m" "frames_inj m' = frames_inj m" "backing_ok m' = backing_ok m"
proof -
  show r: "resident m' = resident m" and h: "hosted m' = hosted m"
    using assms by (auto simp: fun_eq_iff resident_def hosted_def same_map_def)
  show "frames_inj m' = frames_inj m" using assms by (simp add: frames_inj_def r same_map_def)
  show "backing_ok m' = backing_ok m" using assms by (simp add: backing_ok_def h same_map_def)
qed

text \<open>Translations may be retried at will: they change nothing that \<open>mem_inv\<close> and \<open>logical\<close> look at.\<close>

lemma logical_same_map:
  assumes "same_map (dm_mmu d) m'"
  shows "logical (d\<lparr>dm_mmu := m'\<rparr>) = logical d"
proof -
  have "mmu_host m' = mmu_host (dm_mmu d)" using assms by (simp add: same_map_def)
  then show ?thesis
    by (auto simp: fun_eq_iff logical_def pt_lookup_same_map [OF assms] split: translate_status.split)
qed

lemma mem_inv_same_map:
  assumes "mem_inv d" "same_map (dm_mmu d) m'" "mmu_inv m'"
  shows "mem_inv (d\<lparr>dm_mmu := m'\<rparr>)"
proof -
  have "clean_ok (d\<lparr>dm_mmu := m'\<rparr>)"
    using assms by (auto simp: mem_inv_def clean_ok_def same_map_views [OF assms(2)] same_map_def pte_pa_frame)
  with assms show ?thesis by (simp add: mem_inv_def same_map_views [OF assms(2)]) (simp add: same_map_def)
qed

subsection \<open>Physical offsets\<close>

lemma phys_iff:
  "phys m va = Some p \<longleftrightarrow> resident m (vpn_of va) \<and> p = pte_pa (mmu_pte m (vpn_of va)) + page_offset va"
  by (auto simp: phys_def resident_def pt_lookup_def Let_def pte_pa_frame)

lemma logical_Ok: "phys (dm_mmu d) va = Some p \<Longrightarrow> logical d va = Some (dm_vram d p)"
  by (auto simp: phys_def logical_def split: if_splits)

lemma page_recompose: "push_bit 12 (vpn_of va) + page_offset va = va"
proof -
  have "unat (push_bit 12 (vpn_of va)) = unat va div 4096 * 4096"
    using unat_less_64 [of va]
    by (simp add: push_bit_eq_mult unat_word_ariths unat_vpn_of mod_less)
  then have "unat (push_bit 12 (vpn_of va) + page_offset va) = unat va div 4096 * 4096 + unat va mod 4096"
    using unat_less_64 [of va] by (subst unat_add_64) (auto simp: unat_page_offset)
  then show ?thesis by (simp add: word_eq_unat)
qed

lemma frame_base:
  assumes "f < 2 ^ 52" "off < SG_PAGE_SIZE"
  shows "vpn_of (push_bit 12 f + off) = f" "page_offset (push_bit 12 f + off) = off"
    "unat (push_bit 12 f + off) = unat f * 4096 + unat off"
proof -
  have f: "unat f < 4503599627370496" using assms(1) by (simp add: word_less_unat)
  have off: "unat off < 4096" using assms(2) by (simp add: word_less_unat SG_PAGE_SIZE_def)
  have b: "unat (push_bit 12 f) = unat f * 4096" using f by (simp add: push_bit_eq_mult unat_word_ariths mod_less)
  show u: "unat (push_bit 12 f + off) = unat f * 4096 + unat off"
    using f off b by (subst unat_add_64) auto
  show "vpn_of (push_bit 12 f + off) = f" "page_offset (push_bit 12 f + off) = off"
    using off by (simp_all add: word_eq_unat unat_vpn_of unat_page_offset u)
qed

lemma frame_bound:
  assumes "mmu_inv m" "resident m v"
  shows "frame_of (mmu_pte m v) < mmu_vram_pages m" "frame_of (mmu_pte m v) < 2 ^ 52"
proof -
  show lt: "frame_of (mmu_pte m v) < mmu_vram_pages m" and "frame_of (mmu_pte m v) < 2 ^ 52"
    using assms by (auto simp: mmu_inv_def frames_ok_def resident_def intro: less_le_trans)
qed

text \<open>Different addresses never share a byte of VRAM.\<close>

lemma phys_inj:
  assumes "mmu_inv m" "frames_inj m" "phys m x = Some p" "phys m y = Some p"
  shows "x = y"
proof -
  let ?f = "\<lambda>a. frame_of (mmu_pte m (vpn_of a))"
  have r: "resident m (vpn_of x)" "resident m (vpn_of y)"
    and p: "p = push_bit 12 (?f x) + page_offset x" "p = push_bit 12 (?f y) + page_offset y"
    using assms(3,4) by (auto simp: phys_iff pte_pa_frame)
  have "vpn_of p = ?f x" "page_offset p = page_offset x"
    unfolding p(1) by (rule frame_base [OF frame_bound(2) [OF assms(1) r(1)] page_offset_less])+
  moreover have "vpn_of p = ?f y" "page_offset p = page_offset y"
    unfolding p(2) by (rule frame_base [OF frame_bound(2) [OF assms(1) r(2)] page_offset_less])+
  ultimately have f: "?f x = ?f y" and off: "page_offset x = page_offset y" by simp_all
  have vpn: "vpn_of x = vpn_of y" using assms(2) r f unfolding frames_inj_def by blast
  have "x = push_bit 12 (vpn_of x) + page_offset x" by (rule page_recompose [symmetric])
  also have "\<dots> = y" unfolding vpn off by (rule page_recompose)
  finally show "x = y" .
qed

lemma phys_bound:
  assumes "mem_inv d" "phys (dm_mmu d) x = Some p"
  shows "p < dm_vram_size d"
proof -
  let ?m = "dm_mmu d"
  let ?f = "frame_of (mmu_pte ?m (vpn_of x))"
  have inv: "mmu_inv ?m" and np: "mmu_vram_pages ?m = dm_vram_size d div SG_PAGE_SIZE"
    using assms(1) by (auto simp: mem_inv_def)
  have r: "resident ?m (vpn_of x)" and p: "p = push_bit 12 ?f + page_offset x"
    using assms(2) by (auto simp: phys_iff pte_pa_frame)
  have "unat ?f < unat (dm_vram_size d) div 4096"
    using frame_bound(1) [OF inv r] unfolding np by (simp add: word_less_unat unat_div SG_PAGE_SIZE_def)
  then have "Suc (unat ?f) * 4096 \<le> unat (dm_vram_size d)" by (simp add: less_eq_div_iff_mult_less_eq Suc_le_eq)
  moreover have "unat (page_offset x) < 4096" by (simp add: unat_page_offset)
  moreover have "unat p = unat ?f * 4096 + unat (page_offset x)"
    unfolding p by (rule frame_base(3) [OF frame_bound(2) [OF inv r] page_offset_less])
  ultimately show ?thesis by (simp add: word_less_unat)
qed

text \<open>A run never leaves VRAM, so the bounds check of \<^verbatim>\<open>run_at\<close> does not fire.\<close>

lemma run_ok_bound:
  assumes "mem_inv d" "run_ok (dm_mmu d) w va b n"
  shows "b \<le> dm_vram_size d \<and> n \<le> dm_vram_size d - b \<or> n = 0"
proof (cases "n = 0")
  case False
  have byte: "b + i < dm_vram_size d" if "i < n" for i
    using assms that phys_bound by (auto simp: run_ok_def)
  have "0 < n" using False by (simp add: word_neq_0_conv)
  then have b: "b < dm_vram_size d" using byte [of 0] by simp
  have "k < unat n \<Longrightarrow> unat b + k < unat (dm_vram_size d)" for k
  proof (induction k)
    case (Suc k)
    then have lt: "unat b + k < unat (dm_vram_size d)" by simp
    have k: "unat (of_nat (Suc k) :: u64) = Suc k"
      using Suc.prems unat_less_64 [of n] by (intro unat_of_nat_64) simp
    then have "b + of_nat (Suc k) < dm_vram_size d" using Suc.prems by (intro byte) (simp add: word_less_unat)
    moreover have "unat (b + of_nat (Suc k)) = unat b + Suc k"
      using lt unat_less_64 [of "dm_vram_size d"] k by (subst unat_add_64) auto
    ultimately show ?case by (simp add: word_less_unat)
  qed (use b in \<open>simp add: word_less_unat\<close>)
  from this [of "unat n - 1"] have "unat b + unat n \<le> unat (dm_vram_size d)"
    using \<open>0 < n\<close> by (simp add: word_less_unat)
  then have "unat n \<le> unat (dm_vram_size d - b)" using b by (simp add: unat_sub_64)
  then show ?thesis using b by (simp add: word_le_unat word_less_unat)
qed simp

lemma run_at_correct:
  assumes "mem_inv d" "e < SG_MAX_ENGINES" "run_at e va len w d = (res, d')"
  shows "mem_inv d' \<and> same_map (dm_mmu d) (dm_mmu d') \<and> d' = d\<lparr>dm_mmu := dm_mmu d'\<rparr> \<and>
    run_result_ok (dm_mmu d) (dm_mmu d') w va len res"
proof -
  obtain r m1 where rl: "run_loop e va len w 0 0 (dm_mmu d) = (r, m1)" by fastforce
  have "mmu_inv (dm_mmu d)" using assms(1) by (simp add: mem_inv_def)
  from run_loop_correct [OF this assms(2) _ _ rl]
  have c: "mmu_inv m1" "same_map (dm_mmu d) m1" "run_result_ok (dm_mmu d) m1 w va len r"
    by (auto simp: run_ok_def)
  have inv: "mem_inv (d\<lparr>dm_mmu := m1\<rparr>)" by (rule mem_inv_same_map [OF assms(1) c(2,1)])
  have d': "d' = d\<lparr>dm_mmu := m1\<rparr>"
    using assms(3) by (auto simp: run_at_def rl Let_def split: run_res.splits if_splits)
  have "res = r"
  proof (cases r)
    case (Run b n)
    have "run_ok m1 w va b n" using c(3) Run by (simp add: run_result_ok_def)
    with run_ok_bound [OF inv, of w va b n] have b: "b \<le> dm_vram_size d \<and> n \<le> dm_vram_size d - b \<or> n = 0" by simp
    show ?thesis
    proof (cases "n = 0")
      case True
      with c(3) Run have "len = 0" by (simp add: run_result_ok_def)
      with rl Run have "b = 0" by (simp add: run_loop.simps)
      with assms(3) True Run show ?thesis by (simp add: run_at_def rl)
    next
      case False
      with b assms(3) Run show ?thesis by (auto simp: run_at_def rl Let_def split: if_splits)
    qed
  qed (use assms(3) in \<open>auto simp: run_at_def rl\<close>)
  with c inv d' show ?thesis by simp
qed

subsection \<open>Stores\<close>

lemma run_ok_prefix: "run_ok m w va b n \<Longrightarrow> k \<le> n \<Longrightarrow> run_ok m w va b k"
  by (auto simp: run_ok_def)

lemma run_ok_hit:
  assumes "mmu_inv m" "frames_inj m" "run_ok m w va b n" "phys m x = Some p"
  shows "p - b < n \<longleftrightarrow> x - va < n" "x - va < n \<Longrightarrow> p = b + (x - va)"
proof -
  have hit: "x - va < n \<Longrightarrow> p = b + (x - va)"
    using assms(3,4) by (auto simp: run_ok_def dest: spec [of _ "x - va"])
  have "x - va < n" if lt: "p - b < n"
  proof -
    have "phys m (va + (p - b)) = Some p" using assms(3) lt by (auto simp: run_ok_def)
    from phys_inj [OF assms(1,2) assms(4) this] have "x - va = p - b" by simp
    with lt show ?thesis by simp
  qed
  with hit show "p - b < n \<longleftrightarrow> x - va < n" "x - va < n \<Longrightarrow> p = b + (x - va)" by auto
qed

text \<open>A store to the VRAM bytes of a run obtained for writing.\<close>

lemma store_run:
  assumes inv: "mem_inv d" and ok: "run_ok (dm_mmu d) True va b n"
    and upd: "\<And>x. \<not> x - b < n \<Longrightarrow> f x = dm_vram d x"
  shows "mem_inv (d\<lparr>dm_vram := f\<rparr>)"
    and "logical (d\<lparr>dm_vram := f\<rparr>) x = (if x - va < n then Some (f (b + (x - va))) else logical d x)"
proof -
  let ?m = "dm_mmu d"
  have m: "mmu_inv ?m" "frames_inj ?m" using inv by (simp_all add: mem_inv_def)
  have keep: "f p = dm_vram d p" if "phys ?m y = Some p" "\<not> y - va < n" for y p
    using run_ok_hit(1) [OF m ok that(1)] that(2) upd by blast
  have sel: "dm_mmu (d\<lparr>dm_vram := f\<rparr>) = ?m" "dm_vram (d\<lparr>dm_vram := f\<rparr>) = f"
    "dm_host (d\<lparr>dm_vram := f\<rparr>) = dm_host d" "dm_missing (d\<lparr>dm_vram := f\<rparr>) = dm_missing d" by simp_all
  have "clean_ok (d\<lparr>dm_vram := f\<rparr>)"
    unfolding clean_ok_def sel
  proof (intro allI impI)
    fix v off
    assume a: "resident ?m v" "hosted ?m v" "\<not> dirtyp (mmu_pte ?m v)" "off < SG_PAGE_SIZE"
      "\<not> dm_missing d (mmu_host ?m v)"
    let ?y = "push_bit 12 v + off"
    have "v < 2 ^ 52" using a(1) inv by (auto simp: resident_def mem_inv_def mmu_inv_def frames_ok_def intro: less_le_trans)
    from frame_base [OF this a(4)] have y: "vpn_of ?y = v" "page_offset ?y = off" by simp_all
    then have ph: "phys ?m ?y = Some (pte_pa (mmu_pte ?m v) + off)" using a(1) by (simp add: phys_iff)
    have "\<not> ?y - va < n"
    proof
      assume "?y - va < n"
      with ok have "dirtyp (mmu_pte ?m (vpn_of (va + (?y - va))))" by (auto simp: run_ok_def)
      with a(3) y show False by simp
    qed
    with keep [OF ph] a inv show "f (pte_pa (mmu_pte ?m v) + off) = dm_host d (mmu_host ?m v + off)"
      by (simp add: mem_inv_def clean_ok_def)
  qed
  with inv show "mem_inv (d\<lparr>dm_vram := f\<rparr>)" by (simp add: mem_inv_def)
  show "logical (d\<lparr>dm_vram := f\<rparr>) x = (if x - va < n then Some (f (b + (x - va))) else logical d x)"
  proof (cases "phys ?m x")
    case None
    then have "\<not> x - va < n" using ok by (auto simp: run_ok_def dest: spec [of _ "x - va"])
    with None show ?thesis by (auto simp: phys_def logical_def split: translate_status.split if_splits)
  next
    case (Some p)
    then have "logical (d\<lparr>dm_vram := f\<rparr>) x = Some (f p)" using logical_Ok [of "d\<lparr>dm_vram := f\<rparr>" x p] by simp
    with Some run_ok_hit(2) [OF m ok Some] keep [OF Some] logical_Ok [OF Some] show ?thesis by auto
  qed
qed

text \<open>Loads from a run.\<close>

lemma load_run: "run_ok (dm_mmu d) w va b n \<Longrightarrow> i < n \<Longrightarrow> logical d (va + i) = Some (dm_vram d (b + i))"
  by (rule logical_Ok) (simp add: run_ok_def)

lemma host_resident_hosted:
  assumes "backing_ok m" "fst (pt_lookup m x) = HostResident"
  shows "hosted m (vpn_of x)"
proof -
  have "vpn_of x < mmu_npages m" "presentp (mmu_pte m (vpn_of x))" "\<not> in_vramp (mmu_pte m (vpn_of x))"
    using assms(2) by (auto simp: pt_lookup_def Let_def split: if_splits)
  with backing_okD(2) [OF assms(1)] show ?thesis by (simp add: hosted_def)
qed

text \<open>Host memory that backs no managed page can change freely.\<close>

definition backs :: "mmu \<Rightarrow> u64 \<Rightarrow> bool" where
  "backs m x \<longleftrightarrow> (\<exists>v. hosted m v \<and> x - mmu_host m v < SG_PAGE_SIZE)"

lemma store_host:
  assumes "mem_inv d" "\<And>x. backs (dm_mmu d) x \<Longrightarrow> g x = dm_host d x"
  shows "mem_inv (d\<lparr>dm_host := g\<rparr>)" "logical (d\<lparr>dm_host := g\<rparr>) = logical d"
proof -
  have keep: "g (mmu_host (dm_mmu d) v + off) = dm_host d (mmu_host (dm_mmu d) v + off)"
    if "hosted (dm_mmu d) v" "off < SG_PAGE_SIZE" for v off
    using that by (intro assms(2)) (auto simp: backs_def)
  then show "mem_inv (d\<lparr>dm_host := g\<rparr>)" using assms(1) by (auto simp: mem_inv_def clean_ok_def)
  have "hosted (dm_mmu d) (vpn_of x)" if "fst (pt_lookup (dm_mmu d) x) = HostResident" for x
    using assms(1) that by (simp add: mem_inv_def host_resident_hosted)
  then show "logical (d\<lparr>dm_host := g\<rparr>) = logical d"
    using keep page_offset_less by (auto simp: fun_eq_iff logical_def split: translate_status.split)
qed

subsection \<open>Moving pages\<close>

text \<open>The page table after one entry changed, with TLB contents irrelevant.\<close>

lemma logical_cong:
  assumes "mmu_npages (dm_mmu d') = mmu_npages (dm_mmu d)" "mmu_host (dm_mmu d') = mmu_host (dm_mmu d)"
    "mmu_pte (dm_mmu d') (vpn_of x) = mmu_pte (dm_mmu d) (vpn_of x)"
    "\<And>p. phys (dm_mmu d) x = Some p \<Longrightarrow> dm_vram d' p = dm_vram d p"
    "\<And>off. hosted (dm_mmu d) (vpn_of x) \<Longrightarrow> off < SG_PAGE_SIZE \<Longrightarrow>
       dm_host d' (mmu_host (dm_mmu d) (vpn_of x) + off) = dm_host d (mmu_host (dm_mmu d) (vpn_of x) + off)"
    "backing_ok (dm_mmu d)"
  shows "logical d' x = logical d x"
proof -
  have pt: "pt_lookup (dm_mmu d') x = pt_lookup (dm_mmu d) x" using assms(1,3) by (simp add: pt_lookup_def)
  show ?thesis
  proof (cases "fst (pt_lookup (dm_mmu d) x)")
    case Ok
    then show ?thesis using assms(4) by (simp add: logical_def pt phys_def)
  next
    case HostResident
    then have "hosted (dm_mmu d) (vpn_of x)"
      using assms(6) by (simp add: host_resident_hosted)
    from assms(5) [OF this page_offset_less] show ?thesis using HostResident assms(2) by (simp add: logical_def pt)
  qed (simp add: logical_def pt)
qed

lemma same_page_addr: "vpn_of x = v \<Longrightarrow> x = push_bit 12 v + page_offset x"
  using page_recompose [of x] by simp

lemma page_range:
  assumes "page_offset h = 0" "page_offset h' = 0" "x - h < SG_PAGE_SIZE" "x - h' < SG_PAGE_SIZE"
  shows "h = (h' :: u64)"
proof -
  have p: "vpn_of x = vpn_of k" if k: "page_offset k = 0" "x - k < SG_PAGE_SIZE" for k
  proof -
    have "unat k mod 4096 + unat (x - k) < 4096"
      using k by (simp add: word_eq_unat unat_page_offset word_less_unat SG_PAGE_SIZE_def)
    from same_page(1) [OF this] show ?thesis by simp
  qed
  from p [OF assms(1,3)] p [OF assms(2,4)] have "vpn_of h = vpn_of h'" by simp
  with page_recompose [of h] page_recompose [of h'] assms(1,2) show ?thesis by simp
qed

text \<open>A page migrates: its host copy is written into a frame no resident page uses, then the page is
  mapped there. Contents are unchanged.\<close>

lemma migrate_page:
  assumes inv: "mem_inv d" and v: "v = vpn_of va" "hosted (dm_mmu d) v" "\<not> resident (dm_mmu d) v"
    and free: "\<And>u. resident (dm_mmu d) u \<Longrightarrow> pte_pa (mmu_pte (dm_mmu d) u) \<noteq> pa"
    and cp: "copy_in pa (mmu_host (dm_mmu d) v) d = (None, d1)"
    and mr: "make_resident va pa (dm_mmu d1) = (None, m2)"
  shows "mem_inv (d1\<lparr>dm_mmu := m2\<rparr>)" "logical (d1\<lparr>dm_mmu := m2\<rparr>) = logical d"
    "resident m2 v" "pte_pa (mmu_pte m2 v) = pa" "\<And>u. u \<noteq> v \<Longrightarrow> mmu_pte m2 u = mmu_pte (dm_mmu d) u"
    "mmu_host m2 = mmu_host (dm_mmu d)" "mmu_npages m2 = mmu_npages (dm_mmu d)"
proof -
  let ?m = "dm_mmu d" and ?h = "mmu_host (dm_mmu d) v"
  define q where "q = PTE_PRESENT OR PTE_IN_VRAM OR PTE_ACCESSED OR push_bit PTE_FRAME_SHIFT (vpn_of pa)"
  from cp have pa0: "page_offset pa = 0" and d1: "d1 = d\<lparr>dm_vram := blit pa ?h SG_PAGE_SIZE (dm_host d) (dm_vram d)\<rparr>"
    by (auto simp: copy_in_def split: if_splits)
  have nv: "presentp (mmu_pte ?m v)" "\<not> in_vramp (mmu_pte ?m v)" "v < mmu_npages ?m"
    using v by (auto simp: hosted_def resident_def)
  have m2: "m2 = tlb_invalidate_vpn v (bump_gen (set_pte v q ?m))"
    using mr nv unfolding d1 by (auto simp: make_resident_def Let_def q_def v(1) vpn_of_def flag_test split: if_splits)
  have q: "presentp q" "in_vramp q" "\<not> dirtyp q" "frame_of q = vpn_of pa"
    using vpn_of_less [of pa] by (simp_all add: q_def pte_simps PTE_FRAME_SHIFT_def)
  then have pq: "pte_pa q = pa" by (simp add: pte_pa_frame page_aligned_push [OF pa0])
  show sel: "mmu_host m2 = mmu_host ?m" "mmu_npages m2 = mmu_npages ?m" and
    other: "\<And>u. u \<noteq> v \<Longrightarrow> mmu_pte m2 u = mmu_pte ?m u" by (simp_all add: m2)
  have at: "mmu_pte m2 v = q" by (simp add: m2)
  show r2: "resident m2 v" and "pte_pa (mmu_pte m2 v) = pa" using q pq nv by (simp_all add: resident_def at sel)
  have resid: "resident m2 u \<longleftrightarrow> u = v \<or> resident ?m u" for u
    using r2 by (cases "u = v") (simp_all add: resident_def other sel)
  have hostd: "hosted m2 = hosted ?m"
    using q nv by (auto simp: fun_eq_iff hosted_def sel m2)
  have aligned: "page_offset (pte_pa (mmu_pte ?m u)) = 0" for u
    by (simp add: word_eq_unat unat_page_offset pte_pa_frame push_bit_eq_mult unat_word_ariths mod_mod_cancel)
  have keep: "dm_vram d1 (pte_pa (mmu_pte ?m u) + off) = dm_vram d (pte_pa (mmu_pte ?m u) + off)"
    if "resident ?m u" "off < SG_PAGE_SIZE" for u off
    using page_range [OF aligned pa0, of "pte_pa (mmu_pte ?m u) + off" u] free [OF that(1)] that(2)
    by (auto simp: d1 blit_def)
  have new: "dm_vram d1 (pa + off) = dm_host d (?h + off)" if "off < SG_PAGE_SIZE" for off
    using that by (simp add: d1 blit_def)
  have "mmu_inv m2" using make_resident_inv [of "dm_mmu d1" va pa] inv mr by (simp add: d1 mem_inv_def)
  moreover have "mmu_vram_pages m2 = dm_vram_size d div SG_PAGE_SIZE" using inv by (simp add: m2 mem_inv_def)
  moreover have "frames_inj m2"
  proof -
    have "frame_of (mmu_pte ?m u) \<noteq> vpn_of pa" if "resident ?m u" for u
      using free [OF that] page_aligned_push [OF pa0] by (auto simp: pte_pa_frame)
    then show ?thesis using inv q(4) at by (auto simp: frames_inj_def resid other mem_inv_def) (metis other)+
  qed
  moreover have "backing_ok m2"
  proof -
    have bck: "backing_ok ?m" using inv by (simp add: mem_inv_def)
    show ?thesis
    proof (rule backing_okI)
      fix u assume "\<not> presentp (mmu_pte m2 u)"
      then show "mmu_host m2 u = 0" using backing_okD(1) [OF bck, of u] at other q by (cases "u = v") (simp_all add: sel)
    next
      fix u assume "u < mmu_npages m2" "presentp (mmu_pte m2 u)" "\<not> in_vramp (mmu_pte m2 u)"
      then show "mmu_host m2 u \<noteq> 0" using backing_okD(2) [OF bck, of u] at other q by (cases "u = v") (simp_all add: sel)
    qed (use backing_okD(3,4) [OF bck] in \<open>simp_all add: hostd sel\<close>)
  qed
  moreover have "clean_ok (d1\<lparr>dm_mmu := m2\<rparr>)"
  proof -
    have "dm_vram d1 (pte_pa (mmu_pte m2 u) + off) = dm_host d (mmu_host ?m u + off)"
      if a: "resident m2 u" "hosted ?m u" "\<not> dirtyp (mmu_pte m2 u)" "off < SG_PAGE_SIZE" "\<not> dm_missing d (mmu_host ?m u)" for u off
    proof (cases "u = v")
      case True
      then show ?thesis using new [OF a(4)] at pq by simp
    next
      case False
      with a resid have "resident ?m u" by simp
      with keep [OF this a(4)] a inv other [OF False] show ?thesis by (simp add: mem_inv_def clean_ok_def)
    qed
    then show ?thesis by (simp add: clean_ok_def hostd sel d1)
  qed
  ultimately show "mem_inv (d1\<lparr>dm_mmu := m2\<rparr>)" by (simp add: mem_inv_def d1)
  show "logical (d1\<lparr>dm_mmu := m2\<rparr>) = logical d"
  proof (rule ext)
    fix x
    show "logical (d1\<lparr>dm_mmu := m2\<rparr>) x = logical d x"
    proof (cases "vpn_of x = v")
      case True
      have "phys m2 x = Some (pa + page_offset x)" using r2 at pq True by (simp add: phys_iff)
      from logical_Ok [of "d1\<lparr>dm_mmu := m2\<rparr>", simplified, OF this]
      have "logical (d1\<lparr>dm_mmu := m2\<rparr>) x = Some (dm_host d (?h + page_offset x))"
        using new [OF page_offset_less] by simp
      moreover have "fst (pt_lookup ?m x) = HostResident" using nv True by (simp add: pt_lookup_def Let_def)
      ultimately show ?thesis using True by (simp add: logical_def)
    next
      case False
      have "dm_vram d1 p = dm_vram d p" if "phys ?m x = Some p" for p
        using that keep [OF _ page_offset_less] by (auto simp: phys_iff)
      then show ?thesis using inv False by (intro logical_cong) (auto simp: sel other d1 mem_inv_def)
    qed
  qed
qed

text \<open>A page is evicted: its entry goes back to host-resident, and its host page holds the frame's bytes,
  either because they were written back or because the page was clean.\<close>

lemma evict_page:
  assumes inv: "mem_inv d" and v: "v = vpn_of va" "hosted (dm_mmu d) v" "resident (dm_mmu d) v"
    and be: "begin_evict va (dm_mmu d) = (old, m1)" and ee: "end_evict va m1 = (late, m2)"
    and g: "\<And>off. off < SG_PAGE_SIZE \<Longrightarrow> g (mmu_host (dm_mmu d) v + off) = dm_vram d (pte_pa old + off)"
      "\<And>x. \<not> x - mmu_host (dm_mmu d) v < SG_PAGE_SIZE \<Longrightarrow> g x = dm_host d x"
  shows "mem_inv (d\<lparr>dm_mmu := m2, dm_host := g\<rparr>)" "logical (d\<lparr>dm_mmu := m2, dm_host := g\<rparr>) = logical d"
    "old = mmu_pte (dm_mmu d) v" "late = 0" "mmu_pte m2 v = PTE_PRESENT"
    "\<And>u. u \<noteq> v \<Longrightarrow> mmu_pte m2 u = mmu_pte (dm_mmu d) u"
    "mmu_host m2 = mmu_host (dm_mmu d)" "mmu_npages m2 = mmu_npages (dm_mmu d)"
proof -
  let ?m = "dm_mmu d" and ?h = "mmu_host (dm_mmu d) v"
  let ?d' = "d\<lparr>dm_mmu := m2, dm_host := g\<rparr>"
  have rv: "v < mmu_npages ?m" "presentp (mmu_pte ?m v)" "in_vramp (mmu_pte ?m v)"
    using v(3) by (auto simp: resident_def)
  have "begin_evict va ?m = (mmu_pte ?m v, tlb_invalidate_vpn v (bump_gen (set_pte v PTE_PRESENT ?m)))"
    using rv by (auto simp: begin_evict_def Let_def v(1) vpn_of_def pte_simps not_le)
  with be have old: "old = mmu_pte ?m v" and m1: "m1 = tlb_invalidate_vpn v (bump_gen (set_pte v PTE_PRESENT ?m))"
    by simp_all
  show "old = mmu_pte ?m v" by (rule old)
  have bits: "PTE_PRESENT AND (PTE_DIRTY OR PTE_ACCESSED) = 0" "PTE_PRESENT AND NOT PTE_DIRTY AND NOT PTE_ACCESSED = PTE_PRESENT"
    by (simp_all add: pte_consts)
  have "end_evict va m1 = (0, set_pte v PTE_PRESENT m1)"
    using rv by (auto simp: end_evict_def Let_def m1 v(1) vpn_of_def bits not_le)
  with ee have late: "late = 0" and m2: "m2 = set_pte v PTE_PRESENT m1" by simp_all
  show "late = 0" by (rule late)
  show at: "mmu_pte m2 v = PTE_PRESENT" and other: "\<And>u. u \<noteq> v \<Longrightarrow> mmu_pte m2 u = mmu_pte ?m u"
    and sel: "mmu_host m2 = mmu_host ?m" "mmu_npages m2 = mmu_npages ?m"
    by (simp_all add: m2 m1)
  have resid: "resident m2 u \<longleftrightarrow> u \<noteq> v \<and> resident ?m u" for u
    by (cases "u = v") (simp_all add: resident_def at other sel pte_simps)
  have hostd: "hosted m2 = hosted ?m"
    using rv by (auto simp: fun_eq_iff hosted_def sel m2 m1 pte_simps)
  have bck: "backing_ok ?m" using inv by (simp add: mem_inv_def)
  have keep: "g (mmu_host ?m u + off) = dm_host d (mmu_host ?m u + off)"
    if u: "hosted ?m u" "u \<noteq> v" "off < SG_PAGE_SIZE" for u off
  proof (rule g(2), rule notI)
    assume a: "mmu_host ?m u + off - ?h < SG_PAGE_SIZE"
    have "mmu_host ?m u + off - mmu_host ?m u < SG_PAGE_SIZE" using u(3) by simp
    moreover have "page_offset (mmu_host ?m u) = 0" "page_offset ?h = 0"
      using u(1) v(2) by (simp_all add: backing_okD(3) [OF bck])
    ultimately have "mmu_host ?m u = ?h" using page_range a by blast
    with backing_okD(4) [OF bck u(1) v(2)] u(2) show False by simp
  qed
  have "mmu_inv m1" using begin_evict_inv [of ?m va] inv be by (simp add: mem_inv_def)
  then have "mmu_inv m2"
    using end_evict_inv [of m1 va] ee by (simp add: m1 v(1) vpn_of_def pte_simps)
  moreover have "mmu_vram_pages m2 = dm_vram_size d div SG_PAGE_SIZE" using inv by (simp add: m2 m1 mem_inv_def)
  moreover have "frames_inj m2" using inv by (auto simp: frames_inj_def resid other mem_inv_def)
  moreover have "backing_ok m2"
  proof -
    have h: "mmu_host ?m v \<noteq> 0" using v(2) by (simp add: hosted_def)
    show ?thesis
    proof (rule backing_okI)
      fix u assume "\<not> presentp (mmu_pte m2 u)"
      then show "mmu_host m2 u = 0" using backing_okD(1) [OF bck, of u] at other by (cases "u = v") (simp_all add: sel pte_simps)
    next
      fix u assume "u < mmu_npages m2" "presentp (mmu_pte m2 u)" "\<not> in_vramp (mmu_pte m2 u)"
      then show "mmu_host m2 u \<noteq> 0" using backing_okD(2) [OF bck, of u] h other by (cases "u = v") (simp_all add: sel)
    qed (use backing_okD(3,4) [OF bck] in \<open>simp_all add: hostd sel\<close>)
  qed
  moreover have "clean_ok ?d'"
    using inv by (auto simp: clean_ok_def resid hostd sel other keep mem_inv_def)
  ultimately show "mem_inv ?d'" by (simp add: mem_inv_def)
  show "logical ?d' = logical d"
  proof (rule ext)
    fix x
    show "logical ?d' x = logical d x"
    proof (cases "vpn_of x = v")
      case True
      have "phys ?m x = Some (pte_pa old + page_offset x)" using v(3) True old by (simp add: phys_iff)
      from logical_Ok [OF this] have "logical d x = Some (g (?h + page_offset x))"
        using g(1) [OF page_offset_less] by simp
      moreover have "fst (pt_lookup m2 x) = HostResident"
        using rv(1) True by (auto simp: pt_lookup_def Let_def at sel pte_simps)
      ultimately show ?thesis using True by (simp add: logical_def sel)
    next
      case False
      then show ?thesis using bck keep [of "vpn_of x"] by (intro logical_cong) (auto simp: sel other)
    qed
  qed
qed

lemma evict_clean:
  "mem_inv d \<Longrightarrow> resident (dm_mmu d) v \<Longrightarrow> hosted (dm_mmu d) v \<Longrightarrow> \<not> dirtyp (mmu_pte (dm_mmu d) v) \<Longrightarrow>
   \<not> dm_missing d (mmu_host (dm_mmu d) v) \<Longrightarrow> off < SG_PAGE_SIZE \<Longrightarrow> dm_host d (mmu_host (dm_mmu d) v + off) = dm_vram d (pte_pa (mmu_pte (dm_mmu d) v) + off)"
  by (simp add: mem_inv_def clean_ok_def)

subsection \<open>Mapping and unmapping\<close>

definition mem_new :: "u64 \<Rightarrow> u64 \<Rightarrow> (u64 \<Rightarrow> u8) \<Rightarrow> dev_mem" where
  "mem_new vram_bytes va_bytes h =
     \<lparr>dm_vram = (\<lambda>_. 0), dm_vram_size = vram_bytes, dm_mmu = mmu_new va_bytes vram_bytes, dm_host = h,
      dm_missing = (\<lambda>_. False)\<rparr>"

lemma mem_inv_new: "mem_inv (mem_new vram_bytes va_bytes h)"
proof -
  have "\<not> resident (mmu_new va_bytes vram_bytes) v" "\<not> hosted (mmu_new va_bytes vram_bytes) v"
    "\<not> presentp (mmu_pte (mmu_new va_bytes vram_bytes) v)" for v
    by (simp_all add: resident_def hosted_def mmu_new_def pte_simps)
  then show ?thesis
    using mmu_inv_new [of va_bytes vram_bytes]
    by (simp add: mem_new_def mem_inv_def frames_inj_def backing_ok_def clean_ok_def)
      (simp add: mmu_new_def)
qed

lemma fold_map_host_sel:
  "mmu_vram_pages (fold (\<lambda>i m. tlb_invalidate_vpn (v + of_nat i) (set_pte (v + of_nat i) p (set_host (v + of_nat i) (g i) m))) is m) =
     mmu_vram_pages m"
  "n \<le> 2 ^ 64 \<Longrightarrow>
   mmu_host (fold (\<lambda>i m. tlb_invalidate_vpn (v + of_nat i) (set_pte (v + of_nat i) p (set_host (v + of_nat i) (g i) m))) [0 ..< n] m) w =
     (if unat (w - v) < n then g (unat (w - v)) else mmu_host m w)"
  subgoal by (induction "is" arbitrary: m) simp_all
  subgoal by (induction n) (auto simp: range_index less_Suc_eq)
  done

lemma map_host_success:
  assumes "fst (map_host va h n m) = None"
  shows "mmu_pte (snd (map_host va h n m)) w = (if unat (w - vpn_of va) < unat n then PTE_PRESENT else mmu_pte m w)"
    "mmu_host (snd (map_host va h n m)) w = (if unat (w - vpn_of va) < unat n
       then h + of_nat (unat (w - vpn_of va)) * SG_PAGE_SIZE else mmu_host m w)"
    "mmu_vram_pages (snd (map_host va h n m)) = mmu_vram_pages m"
    "unat (w - vpn_of va) < unat n \<Longrightarrow> \<not> presentp (mmu_pte m w)"
    "page_offset h = 0"
proof -
  have g: "(va OR h) AND (SG_PAGE_SIZE - 1) = 0" "n \<noteq> 0"
    "\<not> (\<exists>i \<in> set [0 ..< unat n]. mmu_pte m (vpn_of va + of_nat i) AND PTE_PRESENT \<noteq> 0)"
    and m': "snd (map_host va h n m) = fold (\<lambda>i m. tlb_invalidate_vpn (vpn_of va + of_nat i)
       (set_pte (vpn_of va + of_nat i) PTE_PRESENT (set_host (vpn_of va + of_nat i) (h + of_nat i * SG_PAGE_SIZE) m)))
       [0 ..< unat n] m"
    using assms by (auto simp: map_host_def Let_def vpn_of_def split: if_splits)
  show "page_offset h = 0" using g(1) by (simp add: page_offset_def or_and_eq_0)
  show "unat (w - vpn_of va) < unat n \<Longrightarrow> \<not> presentp (mmu_pte m w)" using present_range [OF g(3)] by blast
  show "mmu_pte (snd (map_host va h n m)) w = (if unat (w - vpn_of va) < unat n then PTE_PRESENT else mmu_pte m w)"
    unfolding m' by (rule fold_map_host_pte) (use unat_le_64 [of n] in simp)
  show "mmu_host (snd (map_host va h n m)) w = (if unat (w - vpn_of va) < unat n
      then h + of_nat (unat (w - vpn_of va)) * SG_PAGE_SIZE else mmu_host m w)"
    unfolding m' by (rule fold_map_host_sel(2)) (use unat_le_64 [of n] in simp)
  show "mmu_vram_pages (snd (map_host va h n m)) = mmu_vram_pages m" unfolding m' by (rule fold_map_host_sel(1))
qed

lemma page_offset_0_iff: "page_offset a = 0 \<longleftrightarrow> unat a mod 4096 = 0"
  using unat_page_offset [of a] unat_eq_0_iff [of "page_offset a"] by presburger

lemma page_addr:
  assumes "unat h + unat n * 4096 \<le> 2 ^ 64" "i < unat (n :: u64)"
  shows "unat (h + of_nat i * SG_PAGE_SIZE) = unat h + i * 4096"
proof -
  have "Suc i * 4096 \<le> unat n * 4096" using assms(2) by (intro mult_le_mono1) simp
  then have b: "unat h + i * 4096 < 2 ^ 64" using assms(1) by simp
  have i: "unat (of_nat i :: u64) = i" by (rule unat_of_nat_64) (use b in simp)
  have "unat (of_nat i * SG_PAGE_SIZE :: u64) = i * 4096"
    using i b by (subst unat_mult_64) (simp_all add: SG_PAGE_SIZE_def)
  with b show ?thesis by (subst unat_add_64) simp_all
qed

text \<open>Mapping a run of host pages: the new pages read as their host memory.\<close>

lemma mem_inv_map_host:
  assumes inv: "mem_inv d" and map: "map_host va h n (dm_mmu d) = (None, m')"
    and rng: "h \<noteq> 0" "unat h + unat n * 4096 \<le> 2 ^ 64"
    and fresh: "\<And>u i. hosted (dm_mmu d) u \<Longrightarrow> i < unat n \<Longrightarrow> mmu_host (dm_mmu d) u \<noteq> h + of_nat i * SG_PAGE_SIZE"
  shows "mem_inv (d\<lparr>dm_mmu := m'\<rparr>)"
    "logical (d\<lparr>dm_mmu := m'\<rparr>) x = (if vpn_of x < mmu_npages (dm_mmu d) \<and> unat (vpn_of x - vpn_of va) < unat n
       then Some (dm_host d (h + of_nat (unat (vpn_of x - vpn_of va)) * SG_PAGE_SIZE + page_offset x)) else logical d x)"
    "resident m' = resident (dm_mmu d)"
proof -
  let ?m = "dm_mmu d" and ?in = "\<lambda>w. unat (w - vpn_of va) < unat n"
  let ?h = "\<lambda>w. h + of_nat (unat (w - vpn_of va)) * SG_PAGE_SIZE"
  have ok: "fst (map_host va h n ?m) = None" and m': "m' = snd (map_host va h n ?m)" using map by simp_all
  note S = map_host_success [OF ok, folded m']
  have np: "mmu_npages m' = mmu_npages ?m" by (simp add: m')
  have uh: "unat (?h w) = unat h + unat (w - vpn_of va) * 4096" if "?in w" for w
    by (rule page_addr [OF rng(2) that])
  have h0: "?h w \<noteq> 0" if "?in w" for w
  proof
    assume "?h w = 0"
    then have "unat (?h w) = 0" by (simp only: unat_0)
    with uh [OF that] rng(1) show False by simp
  qed
  have hoff: "page_offset (?h w) = 0" if "?in w" for w
    using S(5) unfolding page_offset_0_iff uh [OF that] by simp
  have hinj: "w = w'" if "?in w" "?in w'" "?h w = ?h w'" for w w'
  proof -
    have "unat (w - vpn_of va) = unat (w' - vpn_of va)" using uh [OF that(1)] uh [OF that(2)] that(3) by simp
    then show ?thesis by (simp add: word_eq_unat [symmetric])
  qed
  have bck: "backing_ok ?m" using inv by (simp add: mem_inv_def)
  show resid: "resident m' = resident ?m"
    using S(4) by (auto simp: fun_eq_iff resident_def S(1) np pte_simps)
  have hostd: "hosted m' w \<longleftrightarrow> w < mmu_npages ?m \<and> ?in w \<or> hosted ?m w" for w
    using S(4) [of w] h0 [of w] backing_okD(1) [OF bck, of w]
    by (auto simp: hosted_def S(1,2) np pte_simps)
  have notin: "\<not> ?in w" if "resident ?m w \<or> hosted ?m w" for w
    using that S(4) [of w] by (auto simp: resident_def hosted_def)
  have "backing_ok m'"
  proof (rule backing_okI)
    show "mmu_host m' w = 0" if "\<not> presentp (mmu_pte m' w)" for w
      using that backing_okD(1) [OF bck, of w] by (auto simp: S(1,2) pte_simps split: if_splits)
    show "mmu_host m' w \<noteq> 0" if "w < mmu_npages m'" "presentp (mmu_pte m' w)" "\<not> in_vramp (mmu_pte m' w)" for w
      using that backing_okD(2) [OF bck, of w] h0 [of w] by (auto simp: S(1,2) np split: if_splits)
    show "page_offset (mmu_host m' w) = 0" if "hosted m' w" for w
      using that backing_okD(3) [OF bck, of w] hoff [of w] by (auto simp: S(2) hostd)
    show "w = w'" if "hosted m' w" "hosted m' w'" "mmu_host m' w = mmu_host m' w'" for w w'
      using that backing_okD(4) [OF bck, of w w'] hinj [of w w'] fresh [of w "unat (w' - vpn_of va)"]
        fresh [of w' "unat (w - vpn_of va)"]
      by (cases "?in w"; cases "?in w'") (simp_all add: S(2) hostd)
  qed
  moreover have "clean_ok (d\<lparr>dm_mmu := m'\<rparr>)"
    using inv notin by (auto simp: clean_ok_def resid hostd S(1,2) mem_inv_def)
  moreover have "mmu_inv m'" using map_host_inv [of ?m va h n] inv by (simp add: m' mem_inv_def)
  moreover have "frames_inj m'"
    using inv notin by (auto simp: frames_inj_def resid S(1) mem_inv_def)
  ultimately show "mem_inv (d\<lparr>dm_mmu := m'\<rparr>)" using inv by (simp add: mem_inv_def S(3))
  show "logical (d\<lparr>dm_mmu := m'\<rparr>) x = (if vpn_of x < mmu_npages ?m \<and> ?in (vpn_of x)
       then Some (dm_host d (?h (vpn_of x) + page_offset x)) else logical d x)"
  proof (cases "vpn_of x < mmu_npages ?m \<and> ?in (vpn_of x)")
    case True
    then have "fst (pt_lookup m' x) = HostResident" by (auto simp: pt_lookup_def Let_def S(1) np pte_simps)
    with True show ?thesis by (simp add: logical_def S(2))
  next
    case False
    have "logical (d\<lparr>dm_mmu := m'\<rparr>) x = logical d x"
    proof (cases "vpn_of x < mmu_npages ?m")
      case True
      with False show ?thesis by (auto simp: logical_def pt_lookup_def Let_def S(1,2) np)
    qed (auto simp: logical_def pt_lookup_def Let_def np)
    with False show ?thesis by auto
  qed
qed

lemma map_vram_vram_pages: "mmu_vram_pages (snd (map_vram va pa n m)) = mmu_vram_pages m"
  by (simp add: map_vram_def Let_def fold_map_vram_vram_pages)

lemma fold_set_pte_host:
  "mmu_host (fold (\<lambda>i m. tlb_invalidate_vpn (v + of_nat i) (set_pte (v + of_nat i) (f i) m)) is m) = mmu_host m"
  by (induction "is" arbitrary: m) simp_all

lemma map_vram_host: "mmu_host (snd (map_vram va pa n m)) = mmu_host m"
  by (simp add: map_vram_def Let_def fold_set_pte_host)

text \<open>Mapping a run of VRAM frames that no page uses.\<close>

lemma mem_inv_map_vram:
  assumes inv: "mem_inv d" and map: "map_vram va pa n (dm_mmu d) = (None, m')"
    and fresh: "\<And>u. resident (dm_mmu d) u \<Longrightarrow> \<not> unat (frame_of (mmu_pte (dm_mmu d) u) - vpn_of pa) < unat n"
  shows "mem_inv (d\<lparr>dm_mmu := m'\<rparr>)"
    "\<not> unat (vpn_of x - vpn_of va) < unat n \<Longrightarrow> logical (d\<lparr>dm_mmu := m'\<rparr>) x = logical d x"
    "hosted m' = hosted (dm_mmu d)"
proof -
  let ?m = "dm_mmu d" and ?in = "\<lambda>w. unat (w - vpn_of va) < unat n"
  have ok: "fst (map_vram va pa n ?m) = None" and m': "m' = snd (map_vram va pa n ?m)" using map by simp_all
  note S = map_vram_success [OF ok, folded m']
  have g: "unat (vpn_of pa) + unat n \<le> unat (mmu_vram_pages ?m)" "\<And>w. ?in w \<Longrightarrow> \<not> presentp (mmu_pte ?m w)"
    using ok by (simp_all add: map_vram_None_iff)
  have v52: "mmu_vram_pages ?m \<le> 2 ^ 52" using inv unfolding mem_inv_def mmu_inv_def frames_ok_def by blast
  have np: "mmu_npages m' = mmu_npages ?m" and vp: "mmu_vram_pages m' = mmu_vram_pages ?m" and hs: "mmu_host m' = mmu_host ?m"
    by (simp_all add: m' map_vram_vram_pages map_vram_host)
  have fr: "frame_of (mmu_pte m' w) = vpn_of pa + (w - vpn_of va)" if "?in w" for w
    using that mapped_frame [OF v52 g(1), of "w - vpn_of va"] by (simp add: S)
  have resid: "resident m' w \<longleftrightarrow> w < mmu_npages ?m \<and> ?in w \<or> resident ?m w" for w
    using g(2) [of w] by (auto simp: resident_def S np pte_simps)
  have bck: "backing_ok ?m" using inv by (simp add: mem_inv_def)
  have h0: "mmu_host ?m w = 0" if "?in w" for w using backing_okD(1) [OF bck g(2) [OF that]] .
  show hostd: "hosted m' = hosted ?m"
    using h0 by (auto simp: fun_eq_iff hosted_def S np hs pte_simps)
  have notin: "\<not> ?in w" if "resident ?m w \<or> hosted ?m w" for w
    using that g(2) [of w] by (auto simp: resident_def hosted_def)
  have "frames_inj m'"
    unfolding frames_inj_def
  proof (intro allI impI)
    fix u u' assume r: "resident m' u" "resident m' u'" and eq: "frame_of (mmu_pte m' u) = frame_of (mmu_pte m' u')"
    have keep: "\<not> ?in w \<Longrightarrow> frame_of (mmu_pte m' w) = frame_of (mmu_pte ?m w)" for w by (simp add: S)
    have off: "vpn_of pa + (w - vpn_of va) - vpn_of pa = w - vpn_of va" for w by simp
    show "u = u'"
    proof (cases "?in u"; cases "?in u'")
      assume "\<not> ?in u" "\<not> ?in u'"
      with r eq keep resid inv show ?thesis by (simp add: frames_inj_def mem_inv_def)
    next
      assume a: "?in u" "\<not> ?in u'"
      with r resid have "resident ?m u'" by simp
      have "frame_of (mmu_pte ?m u') = vpn_of pa + (u - vpn_of va)" using eq fr [OF a(1)] keep [OF a(2)] by simp
      with fresh [OF \<open>resident ?m u'\<close>] a(1) show ?thesis by (simp only: off not_True_eq_False)
    next
      assume a: "\<not> ?in u" "?in u'"
      with r resid have "resident ?m u" by simp
      have "frame_of (mmu_pte ?m u) = vpn_of pa + (u' - vpn_of va)" using eq fr [OF a(2)] keep [OF a(1)] by simp
      with fresh [OF \<open>resident ?m u\<close>] a(2) show ?thesis by (simp only: off not_True_eq_False)
    next
      assume "?in u" "?in u'"
      with fr eq show ?thesis by simp
    qed
  qed
  moreover have "backing_ok m'"
  proof (rule backing_okI)
    show "mmu_host m' w = 0" if "\<not> presentp (mmu_pte m' w)" for w
      using that backing_okD(1) [OF bck, of w] by (auto simp: S hs pte_simps split: if_splits)
    show "mmu_host m' w \<noteq> 0" if "w < mmu_npages m'" "presentp (mmu_pte m' w)" "\<not> in_vramp (mmu_pte m' w)" for w
      using that backing_okD(2) [OF bck, of w] by (auto simp: S np hs pte_simps split: if_splits)
  qed (use backing_okD(3,4) [OF bck] in \<open>simp_all add: hostd hs\<close>)
  moreover have "clean_ok (d\<lparr>dm_mmu := m'\<rparr>)"
    using inv notin by (auto simp: clean_ok_def resid hostd S hs mem_inv_def)
  moreover have "mmu_inv m'" using map_vram_inv [of ?m va pa n] inv by (simp add: m' mem_inv_def)
  ultimately show "mem_inv (d\<lparr>dm_mmu := m'\<rparr>)" using inv by (simp add: mem_inv_def vp)
  show "logical (d\<lparr>dm_mmu := m'\<rparr>) x = logical d x" if "\<not> ?in (vpn_of x)"
    using that bck by (intro logical_cong) (auto simp: np hs S)
qed

text \<open>Unmapping a run.\<close>

lemma unmap_host:
  assumes "fst (unmap va n m) = None"
  shows "mmu_host (snd (unmap va n m)) w = (if unat (w - vpn_of va) < unat n then 0 else mmu_host m w)"
    "mmu_vram_pages (snd (unmap va n m)) = mmu_vram_pages m"
proof -
  have inv: "mmu_host (fold (\<lambda>i. tlb_invalidate_vpn (v + of_nat i)) is m) = mmu_host m"
    "mmu_vram_pages (fold (\<lambda>i. tlb_invalidate_vpn (v + of_nat i)) is m) = mmu_vram_pages m" for v "is" m
    by (induction "is" arbitrary: m) simp_all
  have clr: "k \<le> 2 ^ 64 \<Longrightarrow> mmu_host (fold (\<lambda>i m. set_host (v + of_nat i) 0 (set_pte (v + of_nat i) 0 m)) [0 ..< k] m) w =
      (if unat (w - v) < k then 0 else mmu_host m w)" for v k
    by (induction k) (auto simp: range_index less_Suc_eq)
  have vp: "mmu_vram_pages (fold (\<lambda>i m. set_host (v + of_nat i) 0 (set_pte (v + of_nat i) 0 m)) is m) = mmu_vram_pages m" for v "is"
    by (induction "is" arbitrary: m) simp_all
  show "mmu_host (snd (unmap va n m)) w = (if unat (w - vpn_of va) < unat n then 0 else mmu_host m w)"
    "mmu_vram_pages (snd (unmap va n m)) = mmu_vram_pages m"
    using assms unat_le_64 [of n] by (auto simp: unmap_def Let_def inv clr vp vpn_of_def split: if_splits)
qed

lemma mem_inv_unmap:
  assumes inv: "mem_inv d" and un: "unmap va n (dm_mmu d) = (None, m')"
  shows "mem_inv (d\<lparr>dm_mmu := m'\<rparr>)"
    "\<not> unat (vpn_of x - vpn_of va) < unat n \<Longrightarrow> logical (d\<lparr>dm_mmu := m'\<rparr>) x = logical d x"
    "unat (vpn_of x - vpn_of va) < unat n \<Longrightarrow> logical (d\<lparr>dm_mmu := m'\<rparr>) x = None"
    "resident m' w \<longleftrightarrow> resident (dm_mmu d) w \<and> \<not> unat (w - vpn_of va) < unat n"
    "hosted m' w \<longleftrightarrow> hosted (dm_mmu d) w \<and> \<not> unat (w - vpn_of va) < unat n"
proof -
  let ?m = "dm_mmu d" and ?in = "\<lambda>w. unat (w - vpn_of va) < unat n"
  have ok: "fst (unmap va n ?m) = None" and m': "m' = snd (unmap va n ?m)" using un by simp_all
  note P = unmap_pte(1) [OF ok, folded m'] and H = unmap_host(1) [OF ok, folded m']
  have np: "mmu_npages m' = mmu_npages ?m" and vp: "mmu_vram_pages m' = mmu_vram_pages ?m"
    using unmap_pte(2) [OF ok] unmap_host(2) [OF ok] by (simp_all add: m')
  show resid: "resident m' w \<longleftrightarrow> resident ?m w \<and> \<not> ?in w" for w by (simp add: resident_def P np pte_simps)
  show hostd: "hosted m' w \<longleftrightarrow> hosted ?m w \<and> \<not> ?in w" for w by (simp add: hosted_def P H np pte_simps)
  have bck: "backing_ok ?m" using inv by (simp add: mem_inv_def)
  have "backing_ok m'"
  proof (rule backing_okI)
    show "mmu_host m' w = 0" if "\<not> presentp (mmu_pte m' w)" for w
      using that backing_okD(1) [OF bck, of w] by (auto simp: P H split: if_splits)
    show "mmu_host m' w \<noteq> 0" if "w < mmu_npages m'" "presentp (mmu_pte m' w)" "\<not> in_vramp (mmu_pte m' w)" for w
      using that backing_okD(2) [OF bck, of w] by (auto simp: P H np pte_simps split: if_splits)
    show "page_offset (mmu_host m' w) = 0" if "hosted m' w" for w
      using that backing_okD(3) [OF bck, of w] by (simp add: H hostd)
    show "w = w'" if "hosted m' w" "hosted m' w'" "mmu_host m' w = mmu_host m' w'" for w w'
      using that backing_okD(4) [OF bck, of w w'] by (simp add: H hostd)
  qed
  moreover have "frames_inj m'" using inv by (auto simp: frames_inj_def resid P mem_inv_def)
  moreover have "clean_ok (d\<lparr>dm_mmu := m'\<rparr>)" using inv by (auto simp: clean_ok_def resid hostd P H mem_inv_def)
  moreover have "mmu_inv m'" using unmap_inv [of ?m va n] inv by (simp add: m' mem_inv_def)
  ultimately show "mem_inv (d\<lparr>dm_mmu := m'\<rparr>)" using inv by (simp add: mem_inv_def vp)
  show "logical (d\<lparr>dm_mmu := m'\<rparr>) x = logical d x" if "\<not> ?in (vpn_of x)"
    using that by (auto simp: logical_def pt_lookup_def Let_def np P H)
  show "logical (d\<lparr>dm_mmu := m'\<rparr>) x = None" if "?in (vpn_of x)"
    using that by (auto simp: logical_def pt_lookup_def Let_def P pte_simps)
qed

end
