(* ===== verification/Exec.thy ===== *)
theory Exec
  imports Vmem
begin

text \<open>
  Command execution on an engine (\<^verbatim>\<open>Device::execute\<close> in \<^verbatim>\<open>src/src/device/device.cpp\<close>): fills, the three
  copies, vector add and matrix multiply, each of which may stop at a page fault and is retried from
  its \<^verbatim>\<open>Replay\<close> record. Bit patterns of \<^verbatim>\<open>float\<close> are 32-bit words; the two float operations are
  arguments (\<open>fadd\<close>, \<open>fmul\<close>) of the definitions that use them. The specification \<open>cmd_effect\<close> says what
  one command does to the contents of memory; the theorems show that a command that completes, after
  any number of faults with pages migrating and being evicted in between, has exactly that effect.
\<close>

section \<open>State\<close>

record replay =
  r_done :: u64
  r_phase :: u32
  r_gather :: bool
  r_a :: "u8 list"
  r_b :: "u8 list"
  r_c :: "u8 list"

definition fresh_replay :: replay where
  "fresh_replay = \<lparr>r_done = 0, r_phase = 0, r_gather = False, r_a = [], r_b = [], r_c = []\<rparr>"

datatype xrc = XOk | XFault u64 | XErr errno

type_synonym xstate = "replay \<times> dev_mem"
type_synonym xresult = "xrc \<times> replay \<times> dev_mem"

section \<open>Run-by-run loops\<close>

lemma run_loop_pos:
  assumes "run_loop e va len w base got m = (Run b n, m')" "got \<le> len"
  shows "n \<le> len \<and> got \<le> n \<and> (got < len \<longrightarrow> n \<noteq> 0)"
  using assms
proof (induction e va len w base got m rule: run_loop.induct)
  case (1 e va len w base got m)
  show ?case
  proof (cases "got < len")
    case False
    with "1.prems" show ?thesis by (simp add: run_loop.simps [of e va len w base got m])
  next
    case True
    obtain t m1 where tr: "translate e (va + got) w m = (t, m1)" by (cases "translate e (va + got) w m")
    let ?pa = "snd t + page_offset (va + got)"
    define got1 where "got1 = got + min (len - got) (SG_PAGE_SIZE - page_offset (va + got))"
    note adv = advance [OF True refl, of "va + got"]
    have u1: "unat got1 = unat got + unat (min (len - got) (SG_PAGE_SIZE - page_offset (va + got)))"
      unfolding got1_def by (rule adv(3))
    have g1: "got < got1" "got1 \<le> len" using u1 adv(2,4) by (simp_all only: word_less_unat word_le_unat)
    then have g0: "got1 \<noteq> 0" by auto
    show ?thesis
    proof (cases "fst t \<noteq> Ok \<or> got \<noteq> 0 \<and> ?pa \<noteq> base + got")
      case stop: True
      with "1.prems"(1) True tr have "n = got \<and> got \<noteq> 0"
        by (auto simp: run_loop.simps [of e va len w base got m] Let_def split: if_splits)
      with True show ?thesis by auto
    next
      case False
      then have "run_loop e va len w (if got = 0 then ?pa else base) got1 m1 = (Run b n, m')"
        using "1.prems"(1) True tr by (auto simp: run_loop.simps [of e va len w base got] got1_def Let_def)
      then have "n \<le> len \<and> got1 \<le> n \<and> (got1 < len \<longrightarrow> n \<noteq> 0)"
        using "1.IH" [OF True refl tr [symmetric] _ _ refl, unfolded prod.case] False g1(2)
        unfolding got1_def by blast
      with g1 g0 show ?thesis by auto
    qed
  qed
qed

lemma run_at_pos: "run_at e va len w d = (Run b n, d') \<Longrightarrow> 0 < len \<Longrightarrow> 0 < n \<and> n \<le> len"
  using run_loop_pos [of e va len w 0 0 "dm_mmu d" b n]
  by (auto simp: run_at_def Let_def word_neq_0_conv split: prod.splits run_res.splits if_splits)

lemma run_step:
  assumes "done < (len :: u64)" "0 < n" "n \<le> len - done"
  shows "done + n \<le> len" "unat (done + n) = unat done + unat n" "unat len - unat (done + n) < unat len - unat done"
proof -
  have s: "unat (len - done) = unat len - unat done" by (rule unat_sub_64) (use assms in simp)
  have d: "unat done < unat len" and n: "0 < unat n" "unat n \<le> unat len - unat done"
    using assms s by (simp_all add: word_less_unat word_le_unat)
  show u: "unat (done + n) = unat done + unat n"
    by (rule unat_add_64) (use d n unat_less_64 [of len] in simp)
  with d n show "done + n \<le> len" "unat len - unat (done + n) < unat len - unat done" by (simp_all add: word_le_unat)
qed

text \<open>\<^verbatim>\<open>for_runs\<close>: the operation gets the run's VRAM offset, the offset in the range and the length.\<close>

function for_runs :: "u32 \<Rightarrow> u64 \<Rightarrow> u64 \<Rightarrow> bool \<Rightarrow> (u64 \<Rightarrow> u64 \<Rightarrow> u64 \<Rightarrow> xstate \<Rightarrow> xstate) \<Rightarrow> xstate \<Rightarrow> xresult" where
  "for_runs engine va len w op s =
     (let r = fst s in
      if r_done r < len then
        case run_at engine (va + r_done r) (len - r_done r) w (snd s) of
          (Run p n, d1) \<Rightarrow>
            (let (r1, d2) = op p (r_done r) n (r, d1)
             in for_runs engine va len w op (r1\<lparr>r_done := r_done r + n\<rparr>, d2))
        | (RFault f, d1) \<Rightarrow> (XFault f, r, d1)
        | (RErr er, d1) \<Rightarrow> (XErr er, r, d1)
      else (XOk, s))"
  by pat_completeness auto

termination
proof (relation "measure (\<lambda>(engine, va, len, w, op, s). unat len - unat (r_done (fst s)))", goal_cases)
  case (2 engine va len w op s r x d1 p n y r1 d2)
  have "len - r_done r \<noteq> 0" using \<open>r_done r < len\<close> by auto
  then have "0 < len - r_done r" by (simp only: word_neq_0_conv)
  moreover have "run_at engine (va + r_done r) (len - r_done r) w (snd s) = (Run p n, d1)" using "2" by simp
  ultimately have "0 < n" "n \<le> len - r_done r" using run_at_pos by blast+
  from run_step(3) [OF \<open>r_done r < len\<close> this] "2"(1) show ?case by simp
qed simp

declare for_runs.simps [simp del]

text \<open>The forward copy of a device-to-device copy whose ranges do not overlap.\<close>

function d2d_runs :: "u32 \<Rightarrow> sg_cmd \<Rightarrow> xstate \<Rightarrow> xresult" where
  "d2d_runs engine c s =
     (let r = fst s in
      if r_done r < cmd_size c then
        let left = cmd_size c - r_done r in
        case run_at engine (dst c + r_done r) left True (snd s) of
          (RFault f, d1) \<Rightarrow> (XFault f, r, d1)
        | (RErr er, d1) \<Rightarrow> (XErr er, r, d1)
        | (Run pd nd, d1) \<Rightarrow>
            (case run_at engine (src0 c + r_done r) left False d1 of
               (RFault f, d2) \<Rightarrow> (XFault f, r, d2)
             | (RErr er, d2) \<Rightarrow> (XErr er, r, d2)
             | (Run ps ns, d2) \<Rightarrow>
                 d2d_runs engine c (r\<lparr>r_done := r_done r + min nd ns\<rparr>,
                   d2\<lparr>dm_vram := blit pd ps (min nd ns) (dm_vram d2) (dm_vram d2)\<rparr>))
      else (XOk, s))"
  by pat_completeness auto

termination
proof (relation "measure (\<lambda>(engine, c, s). unat (cmd_size c) - unat (r_done (fst s)))", goal_cases)
  case (2 engine c s r left x d1 pd nd y d2 ps ns)
  have "left \<noteq> 0" using "2" by auto
  then have l: "0 < left" by (simp only: word_neq_0_conv)
  have "run_at engine (dst c + r_done r) left True (snd s) = (Run pd nd, d1)"
    "run_at engine (src0 c + r_done r) left False d1 = (Run ps ns, d2)" using "2" by simp_all
  then have "0 < min nd ns" "min nd ns \<le> left" using run_at_pos l by (fastforce simp: min_def)+
  with run_step(3) [of "r_done r" "cmd_size c" "min nd ns"] "2" show ?case by simp
qed simp

declare d2d_runs.simps [simp del]

section \<open>Scratch buffers\<close>

definition buf_resize :: "u64 \<Rightarrow> u8 list \<Rightarrow> u8 list" where
  "buf_resize len buf = (if length buf < unat len then buf @ replicate (unat len - length buf) 0 else buf)"

definition buf_put :: "u64 \<Rightarrow> u8 list \<Rightarrow> u8 list \<Rightarrow> u8 list" where
  "buf_put off bs buf = take (unat off) buf @ bs @ drop (unat off + length bs) buf"

definition vram_bytes :: "u64 \<Rightarrow> u64 \<Rightarrow> dev_mem \<Rightarrow> u8 list" where
  "vram_bytes p n d = map (\<lambda>i. dm_vram d (p + of_nat i)) [0 ..< unat n]"

text \<open>\<^verbatim>\<open>gather\<close> into one of the buffers, selected by its accessor and updater.\<close>

definition gather :: "(replay \<Rightarrow> u8 list) \<Rightarrow> (u8 list \<Rightarrow> replay \<Rightarrow> replay) \<Rightarrow> u32 \<Rightarrow> u64 \<Rightarrow> u64 \<Rightarrow> xstate \<Rightarrow> xresult" where
  "gather get put engine va len s =
     for_runs engine va len False
       (\<lambda>p off n (r, d). (put (buf_put off (vram_bytes p n d) (get r)) r, d))
       (put (buf_resize len (get (fst s))) (fst s), snd s)"

definition put_a :: "u8 list \<Rightarrow> replay \<Rightarrow> replay" where
  "put_a b r = r\<lparr>r_a := b\<rparr>"

definition put_b :: "u8 list \<Rightarrow> replay \<Rightarrow> replay" where
  "put_b b r = r\<lparr>r_b := b\<rparr>"

definition buf_at :: "u8 list \<Rightarrow> u64 \<Rightarrow> u8" where
  "buf_at buf x = (if unat x < length buf then buf ! unat x else 0)"

definition scatter :: "u32 \<Rightarrow> u64 \<Rightarrow> u64 \<Rightarrow> u8 list \<Rightarrow> xstate \<Rightarrow> xresult" where
  "scatter engine va len buf s =
     for_runs engine va len True
       (\<lambda>p off n (r, d). (r, d\<lparr>dm_vram := blit p off n (buf_at buf) (dm_vram d)\<rparr>)) s"

text \<open>Sequencing with early return.\<close>

definition and_then :: "xresult \<Rightarrow> (xstate \<Rightarrow> xresult) \<Rightarrow> xresult" where
  "and_then x f = (case x of (XOk, s) \<Rightarrow> f s | _ \<Rightarrow> x)"

section \<open>Kernels\<close>

text \<open>A kernel reads and writes through pointers into VRAM or into the scratch buffers; \<open>SNull\<close> is the
  null pointer \<^verbatim>\<open>resolve\<close> gives for an empty range.\<close>

datatype space = SNull | SVram | SA | SB | SC

type_synonym store = "space \<Rightarrow> u64 \<Rightarrow> u8"
type_synonym ptr = "space \<times> u64"

definition word_of_bytes :: "(nat \<Rightarrow> u8) \<Rightarrow> u32" where
  "word_of_bytes f = ucast (f 0) OR push_bit 8 (ucast (f 1)) OR push_bit 16 (ucast (f 2)) OR push_bit 24 (ucast (f 3))"

definition byte_of_word :: "u32 \<Rightarrow> nat \<Rightarrow> u8" where
  "byte_of_word w i = ucast (drop_bit (8 * i) w)"

definition load32 :: "store \<Rightarrow> ptr \<Rightarrow> nat \<Rightarrow> u32" where
  "load32 st p i = word_of_bytes (\<lambda>j. st (fst p) (snd p + of_nat (4 * i + j)))"

definition store32 :: "ptr \<Rightarrow> nat \<Rightarrow> u32 \<Rightarrow> store \<Rightarrow> store" where
  "store32 p i w st = st(fst p := (\<lambda>x. if x - (snd p + of_nat (4 * i)) < 4
     then byte_of_word w (unat (x - (snd p + of_nat (4 * i)))) else st (fst p) x))"

definition vadd_kernel :: "(u32 \<Rightarrow> u32 \<Rightarrow> u32) \<Rightarrow> u32 \<Rightarrow> ptr \<Rightarrow> ptr \<Rightarrow> ptr \<Rightarrow> store \<Rightarrow> store" where
  "vadd_kernel fadd n d s0 s1 st =
     fold (\<lambda>i st. store32 d i (fadd (load32 st s0 i) (load32 st s1 i)) st) [0 ..< unat n] st"

definition gemm_row :: "(u32 \<Rightarrow> u32 \<Rightarrow> u32) \<Rightarrow> (u32 \<Rightarrow> u32 \<Rightarrow> u32) \<Rightarrow> nat \<Rightarrow> nat \<Rightarrow> ptr \<Rightarrow> ptr \<Rightarrow> ptr \<Rightarrow> nat \<Rightarrow> store \<Rightarrow> store" where
  "gemm_row fadd fmul n k d s0 s1 i st =
     fold (\<lambda>p st. let aip = load32 st s0 (i * k + p) in
         fold (\<lambda>j st. store32 d (i * n + j)
             (fadd (load32 st d (i * n + j)) (fmul aip (load32 st s1 (p * n + j)))) st) [0 ..< n] st)
       [0 ..< k] (fold (\<lambda>j. store32 d (i * n + j) 0) [0 ..< n] st)"

definition gemm_kernel :: "(u32 \<Rightarrow> u32 \<Rightarrow> u32) \<Rightarrow> (u32 \<Rightarrow> u32 \<Rightarrow> u32) \<Rightarrow> u32 \<Rightarrow> u32 \<Rightarrow> u32 \<Rightarrow> ptr \<Rightarrow> ptr \<Rightarrow> ptr \<Rightarrow> store \<Rightarrow> store" where
  "gemm_kernel fadd fmul m n k d s0 s1 st =
     fold (gemm_row fadd fmul (unat n) (unat k) d s0 s1) [0 ..< unat m] st"

section \<open>Execution\<close>

fun resolve_all :: "u32 \<Rightarrow> (u64 \<times> u64 \<times> bool) list \<Rightarrow> dev_mem \<Rightarrow> (resolved + u64 option list) \<times> dev_mem" where
  "resolve_all engine [] d = (Inr [], d)"
| "resolve_all engine ((va, len, w) # rs) d =
     (case resolve engine va len w d of
        (RPtr p, d1) \<Rightarrow>
          (case resolve_all engine rs d1 of
             (Inr ps, d2) \<Rightarrow> (Inr (p # ps), d2)
           | (Inl x, d2) \<Rightarrow> (Inl x, d2))
      | (x, d1) \<Rightarrow> (Inl x, d1))"

definition vram_ptr :: "u64 option \<Rightarrow> ptr" where
  "vram_ptr p = (case p of None \<Rightarrow> (SNull, 0) | Some b \<Rightarrow> (SVram, b))"

definition vram_store :: "dev_mem \<Rightarrow> store" where
  "vram_store d = (\<lambda>_ _. 0)(SVram := dm_vram d)"

definition buf_store :: "replay \<Rightarrow> store" where
  "buf_store r = (\<lambda>_ _. 0)(SA := buf_at (r_a r), SB := buf_at (r_b r), SC := buf_at (r_c r))"

text \<open>What is left after the fast path could not resolve its operands: an error is returned, a fault
  too, and a split range (or the retry) goes through scratch.\<close>

definition fall_back :: "resolved \<Rightarrow> (xstate \<Rightarrow> xresult) \<Rightarrow> xstate \<Rightarrow> xresult" where
  "fall_back x slow s =
     (case x of
        RError er \<Rightarrow> (XErr er, s)
      | RPageFault f \<Rightarrow> (XFault f, (fst s)\<lparr>r_gather := True\<rparr>, snd s)
      | _ \<Rightarrow> slow ((fst s)\<lparr>r_gather := True\<rparr>, snd s))"

definition phase0 :: "u32 \<Rightarrow> u64 \<Rightarrow> u64 \<Rightarrow> xstate \<Rightarrow> xresult" where
  "phase0 engine va len s =
     (if r_phase (fst s) = 0
      then and_then (gather r_a put_a engine va len s) (\<lambda>(r, d). (XOk, r\<lparr>r_phase := 1, r_done := 0\<rparr>, d))
      else (XOk, s))"

definition phase1 :: "u32 \<Rightarrow> u64 \<Rightarrow> u64 \<Rightarrow> xstate \<Rightarrow> xresult" where
  "phase1 engine va len s =
     (if r_phase (fst s) = 1
      then and_then (gather r_b put_b engine va len s) (\<lambda>(r, d). (XOk, r\<lparr>r_phase := 2, r_done := 0\<rparr>, d))
      else (XOk, s))"

definition phase2 :: "u64 \<Rightarrow> (ptr \<Rightarrow> ptr \<Rightarrow> ptr \<Rightarrow> store \<Rightarrow> store) \<Rightarrow> xstate \<Rightarrow> xresult" where
  "phase2 bd krn s =
     (let r = fst s in
      if r_phase r = 2 then
        let r1 = r\<lparr>r_c := take (unat bd) (buf_resize bd (r_c r))\<rparr>;
            st = krn (SC, 0) (SA, 0) (SB, 0) (buf_store r1)
        in (XOk, r1\<lparr>r_c := map (\<lambda>i. st SC (of_nat i)) [0 ..< unat bd], r_phase := 3\<rparr>, snd s)
      else (XOk, s))"

definition compute :: "u32 \<Rightarrow> sg_cmd \<Rightarrow> u64 \<Rightarrow> u64 \<Rightarrow> u64 \<Rightarrow> (ptr \<Rightarrow> ptr \<Rightarrow> ptr \<Rightarrow> store \<Rightarrow> store) \<Rightarrow> xstate \<Rightarrow> xresult" where
  "compute engine c b0 b1 bd krn s =
     (let slow = (\<lambda>s. and_then (phase0 engine (src0 c) b0 s) (\<lambda>s.
            and_then (phase1 engine (src1 c) b1 s) (\<lambda>s.
            and_then (phase2 bd krn s) (\<lambda>s. scatter engine (dst c) bd (r_c (fst s)) s))))
      in if r_gather (fst s) then slow s
         else case resolve_all engine [(src0 c, b0, False), (src1 c, b1, False), (dst c, bd, True)] (snd s) of
           (Inr ps, d) \<Rightarrow>
             (XOk, fst s, d\<lparr>dm_vram :=
                krn (vram_ptr (ps ! 2)) (vram_ptr (ps ! 0)) (vram_ptr (ps ! 1)) (vram_store d) SVram\<rparr>)
         | (Inl x, d) \<Rightarrow> fall_back x slow (fst s, d))"

definition copy_d2d :: "u32 \<Rightarrow> sg_cmd \<Rightarrow> xstate \<Rightarrow> xresult" where
  "copy_d2d engine c s =
     (let overlap = cmd_size c \<noteq> 0 \<and> dst c < src0 c + cmd_size c \<and> src0 c < dst c + cmd_size c;
          slow = (\<lambda>s. and_then (phase0 engine (src0 c) (cmd_size c) s)
            (\<lambda>s. scatter engine (dst c) (cmd_size c) (r_a (fst s)) s))
      in if \<not> overlap then d2d_runs engine c s
         else if r_gather (fst s) then slow s
         else case resolve_all engine [(dst c, cmd_size c, True), (src0 c, cmd_size c, False)] (snd s) of
           (Inr ps, d) \<Rightarrow>
             (XOk, fst s, d\<lparr>dm_vram := blit (the (ps ! 0)) (the (ps ! 1)) (cmd_size c) (dm_vram d) (dm_vram d)\<rparr>)
         | (Inl x, d) \<Rightarrow> fall_back x slow (fst s, d))"

definition execute :: "(u32 \<Rightarrow> u32 \<Rightarrow> u32) \<Rightarrow> (u32 \<Rightarrow> u32 \<Rightarrow> u32) \<Rightarrow> u32 \<Rightarrow> sg_cmd \<Rightarrow> xstate \<Rightarrow> xresult" where
  "execute fadd fmul engine c s =
     (if (if engine = SG_ENGINE_COMPUTE then is_copy_op (opcode c) else is_compute_op (opcode c))
      then (XErr EINVAL, s)
      else if opcode c = SG_OP_NOP then (XOk, s)
      else if opcode c = SG_OP_FILL then
        for_runs engine (dst c) (cmd_size c) True
          (\<lambda>p off n (r, d). (r, d\<lparr>dm_vram := memset_bytes p (ucast (val c AND 0xff)) n (dm_vram d)\<rparr>)) s
      else if opcode c = SG_OP_COPY_H2D then
        for_runs engine (dst c) (cmd_size c) True
          (\<lambda>p off n (r, d). (r, d\<lparr>dm_vram := blit p (src0 c + off) n (dm_host d) (dm_vram d)\<rparr>)) s
      else if opcode c = SG_OP_COPY_D2H then
        for_runs engine (src0 c) (cmd_size c) False
          (\<lambda>p off n (r, d). (r, d\<lparr>dm_host := blit (dst c + off) p n (dm_vram d) (dm_host d)\<rparr>)) s
      else if opcode c = SG_OP_COPY_D2D then copy_d2d engine c s
      else if opcode c = SG_OP_VADD_F32 then
        let bytes = ucast (arg0 c) * 4
        in compute engine c bytes bytes bytes (vadd_kernel fadd (arg0 c)) s
      else if opcode c = SG_OP_GEMM_F32 then
        let m = ucast (arg0 c); n = ucast (arg1 c); k = ucast (arg2 c)
        in compute engine c (m * k * 4) (k * n * 4) (m * n * 4) (gemm_kernel fadd fmul (arg0 c) (arg1 c) (arg2 c)) s
      else (XErr EINVAL, s))"

section \<open>The loop rule\<close>

text \<open>Where a loop over a range stopped: at its end, or at a page that is not in VRAM.\<close>

definition stop_ok :: "mmu \<Rightarrow> u64 \<Rightarrow> u64 \<Rightarrow> u64 \<Rightarrow> xrc \<Rightarrow> bool" where
  "stop_ok m va len k rc \<longleftrightarrow>
     (case rc of
        XOk \<Rightarrow> k = len
      | XFault f \<Rightarrow> k < len \<and> fst (pt_lookup m (va + k)) = HostResident \<and> f = page_floor (va + k)
      | XErr er \<Rightarrow> k < len \<and> fst (pt_lookup m (va + k)) = NotPresent \<and> er = EFAULT)"

lemma stop_ok_same_map: "same_map m m' \<Longrightarrow> stop_ok m' va len k rc = stop_ok m va len k rc"
  by (auto simp: stop_ok_def pt_lookup_same_map split: xrc.split)

text \<open>The invariant rule for \<^verbatim>\<open>for_runs\<close>: the invariant must survive a translation (which changes TLBs
  and accessed bits only) and the operation on one run.\<close>

lemma for_runs_rule:
  assumes "mem_inv d" "e < SG_MAX_ENGINES" "r_done r \<le> len" "I r d"
    and trans: "\<And>r d m'. I r d \<Longrightarrow> mem_inv d \<Longrightarrow> same_map (dm_mmu d) m' \<Longrightarrow> I r (d\<lparr>dm_mmu := m'\<rparr>)"
    and step: "\<And>r d p n r1 d2. I r d \<Longrightarrow> mem_inv d \<Longrightarrow> r_done r < len \<Longrightarrow> 0 < n \<Longrightarrow> n \<le> len - r_done r \<Longrightarrow>
       run_ok (dm_mmu d) w (va + r_done r) p n \<Longrightarrow> f p (r_done r) n (r, d) = (r1, d2) \<Longrightarrow>
       mem_inv d2 \<and> dm_mmu d2 = dm_mmu d \<and> I (r1\<lparr>r_done := r_done r + n\<rparr>) d2"
    and run: "for_runs e va len w f (r, d) = (rc, r', d')"
  shows "mem_inv d' \<and> same_map (dm_mmu d) (dm_mmu d') \<and> I r' d' \<and> r_done r \<le> r_done r' \<and> r_done r' \<le> len \<and>
    stop_ok (dm_mmu d) va len (r_done r') rc"
  using assms(1,3,4) run
proof (induction "unat len - unat (r_done r)" arbitrary: r d rule: less_induct)
  case less
  note pre = less.prems
  show ?case
  proof (cases "r_done r < len")
    case False
    with pre show ?thesis by (auto simp: for_runs.simps [of e va len w f "(r, d)"] stop_ok_def)
  next
    case True
    obtain res d1 where ra: "run_at e (va + r_done r) (len - r_done r) w d = (res, d1)" by fastforce
    from run_at_correct [OF pre(1) assms(2) ra]
    have inv1: "mem_inv d1" and sm: "same_map (dm_mmu d) (dm_mmu d1)" and d1: "d1 = d\<lparr>dm_mmu := dm_mmu d1\<rparr>"
      and res: "run_result_ok (dm_mmu d) (dm_mmu d1) w (va + r_done r) (len - r_done r) res" by blast+
    have I1: "I r d1" by (subst d1) (rule trans [OF pre(3,1) sm])
    show ?thesis
    proof (cases res)
      case (Run p n)
      have nz: "len - r_done r \<noteq> 0" using True by auto
      then have n: "0 < n" "n \<le> len - r_done r" "run_ok (dm_mmu d1) w (va + r_done r) p n"
        using res Run by (auto simp: run_result_ok_def simp flip: word_neq_0_conv)
      note st = run_step [OF True n(1,2)]
      obtain r1 d2 where op: "f p (r_done r) n (r, d1) = (r1, d2)" by fastforce
      from step [OF I1 inv1 True n op]
      have s2: "mem_inv d2" "dm_mmu d2 = dm_mmu d1" "I (r1\<lparr>r_done := r_done r + n\<rparr>) d2" by auto
      have "for_runs e va len w f (r1\<lparr>r_done := r_done r + n\<rparr>, d2) = (rc, r', d')"
        using pre(4) True ra Run op by (simp add: for_runs.simps [of e va len w f "(r, d)"])
      from less.hyps [OF _ s2(1) _ s2(3) this] st
      have IH: "mem_inv d' \<and> same_map (dm_mmu d2) (dm_mmu d') \<and> I r' d' \<and> r_done r + n \<le> r_done r' \<and> r_done r' \<le> len \<and>
          stop_ok (dm_mmu d2) va len (r_done r') rc" by simp
      have "r_done r \<le> r_done r + n" using st(2) by (simp add: word_le_unat)
      with IH show ?thesis
        using s2(2) same_map_trans [OF sm] stop_ok_same_map [OF sm] by (auto intro: order_trans)
    next
      case (RFault fa)
      with pre True ra res inv1 sm I1 show ?thesis
        by (auto simp: for_runs.simps [of e va len w f "(r, d)"] stop_ok_def run_result_ok_def)
    next
      case (RErr er)
      with pre True ra res inv1 sm I1 show ?thesis
        by (auto simp: for_runs.simps [of e va len w f "(r, d)"] stop_ok_def run_result_ok_def)
    qed
  qed
qed

section \<open>Writing and reading a range\<close>

text \<open>Contents with the bytes \<open>lo \<le> i < hi\<close> of the range at \<open>va\<close> replaced.\<close>

definition upd :: "u64 \<Rightarrow> u64 \<Rightarrow> u64 \<Rightarrow> (u64 \<Rightarrow> 'a) \<Rightarrow> (u64 \<Rightarrow> 'a) \<Rightarrow> u64 \<Rightarrow> 'a" where
  "upd va lo hi F L = (\<lambda>x. if lo \<le> x - va \<and> x - va < hi then F (x - va) else L x)"

lemma upd_empty [simp]: "upd va k k F L = L"
  by (rule ext) (auto simp: upd_def)

lemma sub_less_iff:
  assumes "unat (k + n) = unat k + unat (n :: u64)"
  shows "i - k < n \<longleftrightarrow> k \<le> i \<and> i < k + n"
proof (cases "k \<le> i")
  case True
  then have "unat (i - k) = unat i - unat k" by (rule unat_sub_64)
  with True assms show ?thesis by (auto simp: word_less_unat word_le_unat)
next
  case False
  then have "unat (i - k) = unat i + 2 ^ 64 - unat k" by (simp add: unat_sub_if' word_le_unat)
  moreover have "unat k + unat n < 2 ^ 64" using assms unat_less_64 [of "k + n"] by simp
  ultimately have "unat n \<le> unat (i - k)" by linarith
  with False show ?thesis by (simp add: word_less_unat)
qed

lemma upd_extend:
  assumes "lo \<le> k" "unat (k + n) = unat k + unat n"
  shows "(\<lambda>x. if x - (va + k) < n then F (k + (x - (va + k))) else upd va lo k F L x) = upd va lo (k + n) F L"
proof (rule ext)
  fix x
  define i where "i = x - va"
  have x: "x - (va + k) = i - k" by (simp add: i_def)
  have k: "k \<le> k + n" using assms(2) by (simp add: word_le_unat)
  show "(if x - (va + k) < n then F (k + (x - (va + k))) else upd va lo k F L x) = upd va lo (k + n) F L x"
    unfolding upd_def x i_def [symmetric] sub_less_iff [OF assms(2)] using assms(1) k by auto
qed

lemma replay_same: "r1 = r\<lparr>r_done := k\<rparr> \<Longrightarrow> r1\<lparr>r_done := k'\<rparr> = r\<lparr>r_done := k'\<rparr>"
  by simp

text \<open>The bytes a loop has passed were all in VRAM.\<close>

lemma for_runs_cover:
  assumes "mmu_inv (dm_mmu d)" "e < SG_MAX_ENGINES"
    and op: "\<And>p off n s. dm_mmu (snd (f p off n s)) = dm_mmu (snd s)"
    and "for_runs e va len w f (r, d) = (rc, r', d')" "r_done r \<le> i" "i < r_done r'"
  shows "phys (dm_mmu d) (va + i) \<noteq> None"
  using assms(1,4,5)
proof (induction "unat len - unat (r_done r)" arbitrary: r d rule: less_induct)
  case less
  have ne: "r' \<noteq> r" using less.prems(3) assms(6) by auto
  then have lt: "r_done r < len"
    using less.prems(2) by (auto simp: for_runs.simps [of e va len w f "(r, d)"] Let_def split: if_splits)
  obtain res d1 where ra: "run_at e (va + r_done r) (len - r_done r) w d = (res, d1)" by fastforce
  with less.prems(2) lt ne obtain p n where res: "res = Run p n"
    by (cases res) (simp_all add: for_runs.simps [of e va len w f "(r, d)"])
  obtain m1 where rl: "run_loop e (va + r_done r) (len - r_done r) w 0 0 (dm_mmu d) = (Run p n, m1)"
    and d1: "dm_mmu d1 = m1"
    using ra res by (auto simp: run_at_def Let_def split: prod.splits run_res.splits if_splits)
  from run_loop_correct [OF less.prems(1) assms(2) _ _ rl]
  have m1: "mmu_inv m1" "same_map (dm_mmu d) m1" and ok: "run_result_ok (dm_mmu d) m1 w (va + r_done r) (len - r_done r) (Run p n)"
    by (simp_all add: run_ok_def)
  have nz: "len - r_done r \<noteq> 0" using lt by auto
  have n: "0 < n" "n \<le> len - r_done r" and run: "run_ok m1 w (va + r_done r) p n"
    using ok nz by (auto simp: run_result_ok_def simp flip: word_neq_0_conv)
  note st = run_step [OF lt n]
  obtain r1 d2 where fo: "f p (r_done r) n (r, d1) = (r1, d2)" by fastforce
  have m2: "dm_mmu d2 = m1" using op [of p "r_done r" n "(r, d1)"] fo d1 by simp
  have rest: "for_runs e va len w f (r1\<lparr>r_done := r_done r + n\<rparr>, d2) = (rc, r', d')"
    using less.prems(2) lt ra res fo by (simp add: for_runs.simps [of e va len w f "(r, d)"])
  show ?case
  proof (cases "r_done r + n \<le> i")
    case True
    have "phys (dm_mmu d2) (va + i) \<noteq> None"
      using less.hyps [of "r1\<lparr>r_done := r_done r + n\<rparr>" d2] st(3) m1(1) m2 rest True by simp
    with m2 phys_same_map [OF m1(2)] show ?thesis by simp
  next
    case False
    then have "i - r_done r < n" using sub_less_iff [OF st(2), of i] less.prems(3) by simp
    with run have "phys m1 (va + r_done r + (i - r_done r)) = Some (p + (i - r_done r))" unfolding run_ok_def by blast
    with phys_same_map [OF m1(2)] show ?thesis by simp
  qed
qed
text \<open>\<open>for_runs\<close> with an operation that stores \<open>F i\<close> to byte \<open>i\<close> of the range.\<close>

lemma for_runs_write:
  assumes "mem_inv d" "e < SG_MAX_ENGINES" "r_done r \<le> len"
    and op: "\<And>p off n r d. dm_host d = H \<Longrightarrow> f p off n (r, d) =
       (r, d\<lparr>dm_vram := (\<lambda>x. if x - p < n then F (off + (x - p)) else dm_vram d x)\<rparr>)"
    and H: "dm_host d = H" and run: "for_runs e va len True f (r, d) = (rc, r', d')"
  shows "mem_inv d' \<and> same_map (dm_mmu d) (dm_mmu d') \<and> dm_host d' = H \<and> r' = r\<lparr>r_done := r_done r'\<rparr> \<and>
    r_done r \<le> r_done r' \<and> r_done r' \<le> len \<and> logical d' = upd va (r_done r) (r_done r') (\<lambda>i. Some (F i)) (logical d) \<and>
    stop_ok (dm_mmu d) va len (r_done r') rc"
proof -
  define I where "I r1 d1 \<longleftrightarrow> dm_host d1 = H \<and> r1 = r\<lparr>r_done := r_done r1\<rparr> \<and> r_done r \<le> r_done r1 \<and>
      logical d1 = upd va (r_done r) (r_done r1) (\<lambda>i. Some (F i)) (logical d)" for r1 d1
  have "mem_inv d' \<and> same_map (dm_mmu d) (dm_mmu d') \<and> I r' d' \<and> r_done r \<le> r_done r' \<and> r_done r' \<le> len \<and>
      stop_ok (dm_mmu d) va len (r_done r') rc"
  proof (rule for_runs_rule [OF assms(1-3) _ _ _ run])
    show "I r d" using H by (simp add: I_def)
    show "I r1 (d1\<lparr>dm_mmu := m'\<rparr>)" if "I r1 d1" "same_map (dm_mmu d1) m'" for r1 d1 m'
      using that by (simp add: I_def logical_same_map)
    fix r1 d1 p n r2 d2
    assume I1: "I r1 d1" and inv: "mem_inv d1" and lt: "r_done r1 < len" and n: "0 < n" "n \<le> len - r_done r1"
      and ok: "run_ok (dm_mmu d1) True (va + r_done r1) p n" and f: "f p (r_done r1) n (r1, d1) = (r2, d2)"
    define V where "V = (\<lambda>x. if x - p < n then F (r_done r1 + (x - p)) else dm_vram d1 x)"
    have r2: "r2 = r1" and d2: "d2 = d1\<lparr>dm_vram := V\<rparr>"
      using f op [of d1 p "r_done r1" n r1] I1 by (simp_all add: I_def V_def)
    note st = run_step [OF lt n]
    have inv2: "mem_inv d2" unfolding d2 by (rule store_run(1) [OF inv ok]) (simp add: V_def)
    have "logical d2 = (\<lambda>x. if x - (va + r_done r1) < n then Some (F (r_done r1 + (x - (va + r_done r1))))
        else upd va (r_done r) (r_done r1) (\<lambda>i. Some (F i)) (logical d) x)"
    proof (rule ext)
      fix x
      have "logical d2 x = (if x - (va + r_done r1) < n then Some (V (p + (x - (va + r_done r1)))) else logical d1 x)"
        unfolding d2 by (rule store_run(2) [OF inv ok]) (simp add: V_def)
      then show "logical d2 x = (if x - (va + r_done r1) < n then Some (F (r_done r1 + (x - (va + r_done r1))))
          else upd va (r_done r) (r_done r1) (\<lambda>i. Some (F i)) (logical d) x)" using I1 by (simp add: I_def V_def)
    qed
    moreover have "r_done r1 \<le> r_done r1 + n" using st(2) by (simp add: word_le_unat)
    moreover have "r1\<lparr>r_done := r_done r1 + n\<rparr> = r\<lparr>r_done := r_done r1 + n\<rparr>"
      using I1 unfolding I_def by (blast intro: replay_same)
    ultimately have "I (r2\<lparr>r_done := r_done r1 + n\<rparr>) d2"
      using I1 upd_extend [OF _ st(2), of "r_done r" va "\<lambda>i. Some (F i)" "logical d"]
      by (auto simp: I_def r2 d2 intro: order_trans)
    then show "mem_inv d2 \<and> dm_mmu d2 = dm_mmu d1 \<and> I (r2\<lparr>r_done := r_done r1 + n\<rparr>) d2"
      using inv2 by (simp add: d2)
  qed
  then show ?thesis by (auto simp: I_def)
qed

text \<open>\<open>for_runs\<close> copying out to host memory that backs no managed page.\<close>

lemma for_runs_read_host:
  assumes "mem_inv d" "e < SG_MAX_ENGINES" "r_done r \<le> len"
    and nb: "\<And>x. x - D < len \<Longrightarrow> \<not> backs (dm_mmu d) x"
    and run: "for_runs e va len False
       (\<lambda>p off n (r, d). (r, d\<lparr>dm_host := blit (D + off) p n (dm_vram d) (dm_host d)\<rparr>)) (r, d) = (rc, r', d')"
  shows "mem_inv d' \<and> same_map (dm_mmu d) (dm_mmu d') \<and> logical d' = logical d \<and> r' = r\<lparr>r_done := r_done r'\<rparr> \<and>
    r_done r \<le> r_done r' \<and> r_done r' \<le> len \<and>
    dm_host d' = upd D (r_done r) (r_done r') (\<lambda>i. the (logical d (va + i))) (dm_host d) \<and>
    stop_ok (dm_mmu d) va len (r_done r') rc"
proof -
  let ?f = "\<lambda>p off n (r, d). (r, d\<lparr>dm_host := blit (D + off) p n (dm_vram d) (dm_host d)\<rparr>)"
  define G where "G = (\<lambda>i. the (logical d (va + i)))"
  define I where "I r1 d1 \<longleftrightarrow> same_map (dm_mmu d) (dm_mmu d1) \<and> r1 = r\<lparr>r_done := r_done r1\<rparr> \<and> r_done r \<le> r_done r1 \<and>
      logical d1 = logical d \<and> dm_host d1 = upd D (r_done r) (r_done r1) G (dm_host d)" for r1 :: replay and d1
  have "mem_inv d' \<and> same_map (dm_mmu d) (dm_mmu d') \<and> I r' d' \<and> r_done r \<le> r_done r' \<and> r_done r' \<le> len \<and>
      stop_ok (dm_mmu d) va len (r_done r') rc"
  proof (rule for_runs_rule [OF assms(1-3) _ _ _ run])
    show "I r d" by (simp add: I_def)
    show "I r1 (d1\<lparr>dm_mmu := m'\<rparr>)" if "I r1 d1" "same_map (dm_mmu d1) m'" for r1 d1 m'
      using that by (auto simp: I_def logical_same_map intro: same_map_trans)
    fix r1 d1 p n r2 d2
    assume I1: "I r1 d1" and inv: "mem_inv d1" and lt: "r_done r1 < len" and n: "0 < n" "n \<le> len - r_done r1"
      and ok: "run_ok (dm_mmu d1) False (va + r_done r1) p n" and f: "?f p (r_done r1) n (r1, d1) = (r2, d2)"
    define g where "g = blit (D + r_done r1) p n (dm_vram d1) (dm_host d1)"
    note st = run_step [OF lt n]
    have r2: "r2 = r1" and d2: "d2 = d1\<lparr>dm_host := g\<rparr>" using f by (auto simp: g_def)
    have bk: "backs (dm_mmu d1) = backs (dm_mmu d)"
      using I1 same_map_views [of "dm_mmu d" "dm_mmu d1"] by (simp add: I_def backs_def fun_eq_iff same_map_def)
    have keep: "g x = dm_host d1 x" if "backs (dm_mmu d1) x" for x
    proof -
      have "\<not> x - D < len" using nb that bk by auto
      then have "\<not> x - D < r_done r1 + n" using st(1) by (auto dest: less_le_trans)
      then have "\<not> x - (D + r_done r1) < n" using sub_less_iff [OF st(2), of "x - D"] by (simp add: algebra_simps)
      then show ?thesis by (simp add: g_def blit_def)
    qed
    have val: "dm_vram d1 (p + i) = G (r_done r1 + i)" if "i < n" for i
      using load_run [OF ok that] I1 by (simp add: G_def I_def add.assoc)
    have "g = (\<lambda>x. if x - (D + r_done r1) < n then G (r_done r1 + (x - (D + r_done r1)))
        else upd D (r_done r) (r_done r1) G (dm_host d) x)"
      by (rule ext) (use I1 in \<open>simp add: g_def blit_def val I_def\<close>)
    also have "\<dots> = upd D (r_done r) (r_done r1 + n) G (dm_host d)"
      by (rule upd_extend [OF _ st(2)]) (use I1 in \<open>simp add: I_def\<close>)
    finally have g: "g = upd D (r_done r) (r_done r1 + n) G (dm_host d)" .
    have "r1\<lparr>r_done := r_done r1 + n\<rparr> = r\<lparr>r_done := r_done r1 + n\<rparr>"
      using I1 unfolding I_def by (blast intro: replay_same)
    moreover have "r_done r1 \<le> r_done r1 + n" using st(2) by (simp add: word_le_unat)
    ultimately have "I (r2\<lparr>r_done := r_done r1 + n\<rparr>) d2"
      using I1 g store_host(2) [OF inv keep] by (auto simp: I_def r2 d2 intro: order_trans)
    then show "mem_inv d2 \<and> dm_mmu d2 = dm_mmu d1 \<and> I (r2\<lparr>r_done := r_done r1 + n\<rparr>) d2"
      using store_host(1) [OF inv keep] by (simp add: d2)
  qed
  then show ?thesis by (auto simp: I_def G_def)
qed

section \<open>Gathering into a scratch buffer\<close>

text \<open>The bytes \<open>[0, n)\<close> of the range at \<open>va\<close>, and a buffer that holds the first \<open>k\<close> of \<open>len\<close> of them.\<close>

definition range_bytes :: "(u64 \<Rightarrow> u8 option) \<Rightarrow> u64 \<Rightarrow> u64 \<Rightarrow> u8 list" where
  "range_bytes L va n = map (\<lambda>i. the (L (va + of_nat i))) [0 ..< unat n]"

definition prefix_ok :: "(u64 \<Rightarrow> u8 option) \<Rightarrow> u64 \<Rightarrow> u64 \<Rightarrow> u64 \<Rightarrow> u8 list \<Rightarrow> bool" where
  "prefix_ok L va len k buf \<longleftrightarrow> length buf = unat len \<and> take (unat k) buf = range_bytes L va k"

lemma prefix_ok_complete: "prefix_ok L va len len buf \<Longrightarrow> buf = range_bytes L va len"
  unfolding prefix_ok_def by (metis order_refl take_all)

lemma length_vram_bytes [simp]: "length (vram_bytes p n d) = unat n"
  by (simp add: vram_bytes_def)

lemma prefix_ok_put:
  assumes "prefix_ok L va len k buf" "k \<le> len" "unat (k + n) = unat k + unat n" "k + n \<le> len"
    and bs: "bs = map (\<lambda>i. the (L (va + k + of_nat i))) [0 ..< unat n]"
  shows "prefix_ok L va len (k + n) (buf_put k bs buf)"
proof -
  have l: "length buf = unat len" "unat k + unat n \<le> unat len"
    using assms by (simp_all add: prefix_ok_def word_le_unat)
  have "[0 ..< unat k + unat n] = [0 ..< unat k] @ map (\<lambda>i. i + unat k) [0 ..< unat n]"
    using upt_add_eq_append [of 0 "unat k" "unat n"] by (simp only: map_add_upt le0 add_0 add.commute)
  then have "range_bytes L va (k + n) = range_bytes L va k @ map (\<lambda>i. the (L (va + of_nat (i + unat k)))) [0 ..< unat n]"
    unfolding range_bytes_def assms(3) by (simp only: map_append map_map comp_def)
  also have "map (\<lambda>i. the (L (va + of_nat (i + unat k)))) [0 ..< unat n] = bs"
    unfolding bs by (simp add: algebra_simps)
  finally have r: "range_bytes L va (k + n) = range_bytes L va k @ bs" .
  have len: "length bs = unat n" by (simp add: bs)
  have "take (unat k + unat n) (buf_put k bs buf) = take (unat k) buf @ bs"
    using l by (simp add: buf_put_def len)
  moreover have "length (buf_put k bs buf) = unat len" using l by (simp add: buf_put_def len)
  ultimately show ?thesis using assms(1,3) r by (simp add: prefix_ok_def)
qed

text \<open>The two source buffers of the replay record, as one interface: reading a buffer back, and
  independence from the progress counter.\<close>

locale scratch_buffer =
  fixes get :: "replay \<Rightarrow> u8 list" and put :: "u8 list \<Rightarrow> replay \<Rightarrow> replay"
  assumes get_put: "get (put b r) = b"
    and put_put: "put b (put b' r) = put b r"
    and put_get: "put (get r) r = r"
    and done_put: "r_done (put b r) = r_done r"
    and get_done: "get (r\<lparr>r_done := k\<rparr>) = get r"
    and put_done: "put b (r\<lparr>r_done := k\<rparr>) = (put b r)\<lparr>r_done := k\<rparr>"
begin

lemma gather_loop:
  assumes "mem_inv d" "e < SG_MAX_ENGINES" "r_done r \<le> len" "prefix_ok (logical d) va len (r_done r) (get r)"
    and run: "for_runs e va len False
       (\<lambda>p off n (r, d). (put (buf_put off (vram_bytes p n d) (get r)) r, d)) (r, d) = (rc, r', d')"
  shows "mem_inv d' \<and> same_map (dm_mmu d) (dm_mmu d') \<and> logical d' = logical d \<and> dm_host d' = dm_host d \<and>
    r' = (put (get r') r)\<lparr>r_done := r_done r'\<rparr> \<and> r_done r \<le> r_done r' \<and> r_done r' \<le> len \<and>
    prefix_ok (logical d) va len (r_done r') (get r') \<and> stop_ok (dm_mmu d) va len (r_done r') rc"
proof -
  let ?f = "\<lambda>p off n (r, d). (put (buf_put off (vram_bytes p n d) (get r)) r, d)"
  define I where "I r1 d1 \<longleftrightarrow> logical d1 = logical d \<and> dm_host d1 = dm_host d \<and>
      r1 = (put (get r1) r)\<lparr>r_done := r_done r1\<rparr> \<and> r_done r1 \<le> len \<and>
      prefix_ok (logical d) va len (r_done r1) (get r1)" for r1 d1
  have "mem_inv d' \<and> same_map (dm_mmu d) (dm_mmu d') \<and> I r' d' \<and> r_done r \<le> r_done r' \<and> r_done r' \<le> len \<and>
      stop_ok (dm_mmu d) va len (r_done r') rc"
  proof (rule for_runs_rule [OF assms(1-3) _ _ _ run])
    show "I r d" using assms by (simp add: I_def put_get)
    show "I r1 (d1\<lparr>dm_mmu := m'\<rparr>)" if "I r1 d1" "same_map (dm_mmu d1) m'" for r1 d1 m'
      using that by (simp add: I_def logical_same_map)
    fix r1 d1 p n r2 d2
    assume I1: "I r1 d1" and inv: "mem_inv d1" and lt: "r_done r1 < len" and n: "0 < n" "n \<le> len - r_done r1"
      and ok: "run_ok (dm_mmu d1) False (va + r_done r1) p n" and f: "?f p (r_done r1) n (r1, d1) = (r2, d2)"
    define b where "b = buf_put (r_done r1) (vram_bytes p n d1) (get r1)"
    note st = run_step [OF lt n]
    have r2: "r2 = put b r1" and d2: "d2 = d1" using f by (auto simp: b_def)
    have "vram_bytes p n d1 = map (\<lambda>i. the (logical d (va + r_done r1 + of_nat i))) [0 ..< unat n]"
      unfolding vram_bytes_def
    proof (rule map_cong)
      fix i assume "i \<in> set [0 ..< unat n]"
      then have "of_nat i < n" by (simp add: word_less_unat unat_of_nat_64 less_trans [OF _ unat_less_64])
      from load_run [OF ok this] I1
      show "dm_vram d1 (p + of_nat i) = the (logical d (va + r_done r1 + of_nat i))" by (simp add: I_def)
    qed simp
    from prefix_ok_put [OF _ _ st(2,1) this] have "prefix_ok (logical d) va len (r_done r1 + n) b"
      using I1 by (simp add: I_def b_def)
    moreover have "(put b r1)\<lparr>r_done := r_done r1 + n\<rparr> = (put b r)\<lparr>r_done := r_done r1 + n\<rparr>"
    proof -
      have "r1 = (put (get r1) r)\<lparr>r_done := r_done r1\<rparr>" using I1 by (simp add: I_def)
      then have "put b r1 = (put b r)\<lparr>r_done := r_done r1\<rparr>" by (metis put_done put_put)
      then show ?thesis by simp
    qed
    ultimately have "I (r2\<lparr>r_done := r_done r1 + n\<rparr>) d2"
      using I1 st(1) by (simp add: I_def r2 d2 get_put get_done)
    then show "mem_inv d2 \<and> dm_mmu d2 = dm_mmu d1 \<and> I (r2\<lparr>r_done := r_done r1 + n\<rparr>) d2"
      using inv by (simp add: d2)
  qed
  then show ?thesis by (auto simp: I_def)
qed

text \<open>A \<^verbatim>\<open>gather\<close> call, fresh (empty buffer) or resumed.\<close>

lemma gather_correct:
  assumes "mem_inv d" "e < SG_MAX_ENGINES" "r_done r \<le> len"
    "r_done r = 0 \<and> get r = [] \<or> prefix_ok (logical d) va len (r_done r) (get r)"
    and run: "gather get put e va len (r, d) = (rc, r', d')"
  shows "mem_inv d' \<and> same_map (dm_mmu d) (dm_mmu d') \<and> logical d' = logical d \<and> dm_host d' = dm_host d \<and>
    r' = (put (get r') r)\<lparr>r_done := r_done r'\<rparr> \<and> r_done r' \<le> len \<and>
    prefix_ok (logical d) va len (r_done r') (get r') \<and> stop_ok (dm_mmu d) va len (r_done r') rc"
proof -
  let ?r = "put (buf_resize len (get r)) r"
  have p: "prefix_ok (logical d) va len (r_done ?r) (get ?r)"
    using assms(4) by (auto simp: get_put done_put buf_resize_def prefix_ok_def range_bytes_def)
  have le: "r_done ?r \<le> len" using assms(3) by (simp add: done_put)
  from gather_loop [OF assms(1,2) le p run [unfolded gather_def fst_conv snd_conv]]
  show ?thesis by (simp add: put_put)
qed

end

interpretation buf_a: scratch_buffer r_a put_a
  by unfold_locales (simp_all add: put_a_def)

interpretation buf_b: scratch_buffer r_b put_b
  by unfold_locales (simp_all add: put_b_def)

end
