(* ===== verification/Kernels.thy ===== *)
theory Kernels
  imports Exec
begin

text \<open>
  The two compute kernels: \<open>vadd_kernel\<close> and the i-k-j loop nest \<open>gemm_kernel\<close> write exactly the elements
  of their destination, each with the value of a reference definition (an elementwise sum, a dot
  product in index order).
\<close>

section \<open>Words in byte memory\<close>

lemma bit_word_of_bytes:
  "bit (word_of_bytes f) n \<longleftrightarrow> n < 32 \<and> bit (f (n div 8)) (n mod 8)"
proof -
  consider "n < 8" | "8 \<le> n" "n < 16" | "16 \<le> n" "n < 24" | "24 \<le> n" "n < 32" | "32 \<le> n" by linarith
  then show ?thesis
  proof cases
    case 1
    then show ?thesis by (auto simp: word_of_bytes_def bit_simps)
  next
    case 2
    then have "n div 8 = 1" "n mod 8 = n - 8" by (auto simp: div_nat_eqI mod_if)
    then show ?thesis using 2 bit_imp_le_length [of "f 0" n] by (auto simp: word_of_bytes_def bit_simps)
  next
    case 3
    then have "n div 8 = 2" "n mod 8 = n - 16" by (auto simp: div_nat_eqI mod_if)
    then show ?thesis
      using 3 bit_imp_le_length [of "f 0" n] bit_imp_le_length [of "f 1" "n - 8"]
      by (auto simp: word_of_bytes_def bit_simps)
  next
    case 4
    then have "n div 8 = 3" "n mod 8 = n - 24" by (auto simp: div_nat_eqI mod_if)
    then show ?thesis
      using 4 bit_imp_le_length [of "f 0" n] bit_imp_le_length [of "f 1" "n - 8"] bit_imp_le_length [of "f 2" "n - 16"]
      by (auto simp: word_of_bytes_def bit_simps)
  next
    case 5
    then show ?thesis by (auto dest: bit_imp_le_length)
  qed
qed

lemma bit_byte_of_word: "bit (byte_of_word w i) n \<longleftrightarrow> n < 8 \<and> bit w (8 * i + n)"
  by (auto simp: byte_of_word_def bit_simps)

lemma word_of_byte_of_word: "word_of_bytes (byte_of_word w) = w"
proof (rule bit_word_eqI)
  fix n assume "n < LENGTH(32)"
  moreover have "8 * (n div 8) + n mod 8 = n" by simp
  ultimately show "bit (word_of_bytes (byte_of_word w)) n \<longleftrightarrow> bit w n"
    by (simp add: bit_word_of_bytes bit_byte_of_word)
qed

lemma word_of_bytes_cong: "(\<And>j. j < 4 \<Longrightarrow> f j = g j) \<Longrightarrow> word_of_bytes f = word_of_bytes g"
  by (simp add: word_of_bytes_def)

section \<open>A block of written elements\<close>

text \<open>\<open>wr d N V st\<close> is the store in which elements \<open>0 \<dots> N - 1\<close> of the array at \<open>d\<close> hold \<open>V\<close>.\<close>

definition elem_byte :: "(nat \<Rightarrow> u32) \<Rightarrow> nat \<Rightarrow> u8" where
  "elem_byte V i = byte_of_word (V (i div 4)) (i mod 4)"

definition wr :: "ptr \<Rightarrow> nat \<Rightarrow> (nat \<Rightarrow> u32) \<Rightarrow> store \<Rightarrow> store" where
  "wr d N V st = st(fst d := (\<lambda>x. if unat (x - snd d) < 4 * N then elem_byte V (unat (x - snd d)) else st (fst d) x))"

lemma wr_0 [simp]: "wr d 0 V st = st"
  by (simp add: wr_def)

lemma wr_cong: "(\<And>q. q < N \<Longrightarrow> V q = W q) \<Longrightarrow> wr d N V st = wr d N W st"
  by (auto simp: wr_def elem_byte_def fun_eq_iff less_mult_imp_div_less)

lemma elem_range:
  assumes "4 * i + 4 < (2 :: nat) ^ 64"
  shows "x - (b + of_nat (4 * i)) < (4 :: u64) \<longleftrightarrow> 4 * i \<le> unat (x - b) \<and> unat (x - b) < 4 * i + 4"
    and "x - (b + of_nat (4 * i)) < (4 :: u64) \<Longrightarrow> unat (x - (b + of_nat (4 * i))) = unat (x - b) - 4 * i"
proof -
  let ?k = "of_nat (4 * i) :: u64"
  have k: "unat ?k = 4 * i" by (rule unat_of_nat_64) (use assms in simp)
  have k4: "unat (?k + 4) = unat ?k + unat (4 :: u64)" by (rule unat_add_64) (use k assms in simp)
  have d: "x - (b + ?k) = (x - b) - ?k" by (simp add: algebra_simps)
  show iff: "x - (b + ?k) < 4 \<longleftrightarrow> 4 * i \<le> unat (x - b) \<and> unat (x - b) < 4 * i + 4"
    unfolding d sub_less_iff [OF k4] using k k4 by (simp only: word_le_unat word_less_unat) simp
  show "unat (x - (b + ?k)) = unat (x - b) - 4 * i" if "x - (b + ?k) < 4"
    unfolding d using iff that k by (subst unat_sub_64) (auto simp: word_le_unat)
qed

lemma elem_byte_upd:
  "elem_byte (V(q := w)) i = (if 4 * q \<le> i \<and> i < 4 * q + 4 then byte_of_word w (i - 4 * q) else elem_byte V i)"
proof -
  have "i div 4 = q \<longleftrightarrow> 4 * q \<le> i \<and> i < 4 * q + 4" by auto
  moreover have "i div 4 = q \<Longrightarrow> i mod 4 = i - 4 * q" by (auto simp: minus_mult_div_eq_mod [symmetric])
  ultimately show ?thesis by (auto simp: elem_byte_def)
qed

text \<open>Storing one element: inside the block, or just past its end.\<close>

lemma store32_wr:
  assumes "q \<le> N" "4 * N + 4 < (2 :: nat) ^ 64"
  shows "store32 d q w (wr d N V st) = wr d (max N (Suc q)) (V(q := w)) st"
proof -
  have q: "4 * q + 4 < (2 :: nat) ^ 64" using assms by linarith
  have eq: "(if x - (snd d + of_nat (4 * q)) < 4 then byte_of_word w (unat (x - (snd d + of_nat (4 * q))))
      else if unat (x - snd d) < 4 * N then elem_byte V (unat (x - snd d)) else st (fst d) x) =
    (if unat (x - snd d) < 4 * max N (Suc q) then elem_byte (V(q := w)) (unat (x - snd d)) else st (fst d) x)" for x
    using elem_range [OF q, of x "snd d"] assms(1) by (auto simp: elem_byte_upd max_def)
  show ?thesis unfolding store32_def wr_def by (simp only: fun_upd_upd fun_upd_same eq)
qed

lemma load32_wr_same:
  assumes "q < N" "4 * N + 4 < (2 :: nat) ^ 64"
  shows "load32 (wr d N V st) d q = V q"
proof -
  have "load32 (wr d N V st) d q = word_of_bytes (byte_of_word (V q))"
    unfolding load32_def
  proof (rule word_of_bytes_cong)
    fix j :: nat assume j: "j < 4"
    have "unat (of_nat (4 * q + j) :: u64) = 4 * q + j" by (rule unat_of_nat_64) (use assms j in simp)
    moreover have "(4 * q + j) div 4 = q" "(4 * q + j) mod 4 = j" "4 * q + j < 4 * N" using j assms by auto
    ultimately show "wr d N V st (fst d) (snd d + of_nat (4 * q + j)) = byte_of_word (V q) j"
      by (simp add: wr_def elem_byte_def)
  qed
  then show ?thesis by (simp add: word_of_byte_of_word)
qed

text \<open>Element \<open>j\<close> at \<open>p\<close> shares no byte with elements \<open>0 \<dots> N - 1\<close> at \<open>d\<close>.\<close>

definition apart :: "ptr \<Rightarrow> nat \<Rightarrow> ptr \<Rightarrow> nat \<Rightarrow> bool" where
  "apart d N p j \<longleftrightarrow> fst p = fst d \<longrightarrow> (\<forall>b < 4. \<not> unat (snd p + of_nat (4 * j + b) - snd d) < 4 * N)"

lemma load32_wr_apart: "apart d N p j \<Longrightarrow> load32 (wr d N V st) p j = load32 st p j"
  unfolding load32_def by (rule word_of_bytes_cong) (auto simp: wr_def apart_def)

lemma apart_mono: "apart d N p j \<Longrightarrow> M \<le> N \<Longrightarrow> apart d M p j"
  unfolding apart_def by (meson less_le_trans mult_le_mono2)

section \<open>Vector add\<close>

definition vadd_elem :: "(u32 \<Rightarrow> u32 \<Rightarrow> u32) \<Rightarrow> ptr \<Rightarrow> ptr \<Rightarrow> store \<Rightarrow> nat \<Rightarrow> u32" where
  "vadd_elem fadd s0 s1 st i = fadd (load32 st s0 i) (load32 st s1 i)"

lemma vadd_kernel_correct:
  assumes "\<And>i. i < unat n \<Longrightarrow> apart d i s0 i \<and> apart d i s1 i"
  shows "vadd_kernel fadd n d s0 s1 st = wr d (unat n) (vadd_elem fadd s0 s1 st) st"
proof -
  have n: "unat n < 4294967296" using unsigned_less [of n] by simp
  have "k \<le> unat n \<Longrightarrow> fold (\<lambda>i st. store32 d i (fadd (load32 st s0 i) (load32 st s1 i)) st) [0 ..< k] st =
      wr d k (vadd_elem fadd s0 s1 st) st" for k
  proof (induction k)
    case (Suc k)
    have ap: "apart d k s0 k" "apart d k s1 k" using assms [of k] Suc.prems by auto
    have "store32 d k (vadd_elem fadd s0 s1 st k) (wr d k (vadd_elem fadd s0 s1 st) st) =
        wr d (Suc k) (vadd_elem fadd s0 s1 st) st"
      using Suc.prems n by (subst store32_wr) simp_all
    moreover have "fadd (load32 (wr d k (vadd_elem fadd s0 s1 st) st) s0 k) (load32 (wr d k (vadd_elem fadd s0 s1 st) st) s1 k) =
        vadd_elem fadd s0 s1 st k" using ap by (simp add: load32_wr_apart vadd_elem_def)
    ultimately show ?case using Suc by simp
  qed simp
  then show ?thesis by (simp add: vadd_kernel_def)
qed

section \<open>Matrix multiply\<close>

text \<open>The reference: element \<open>(i, j)\<close> is the dot product of row \<open>i\<close> and column \<open>j\<close>, accumulated from 0 in the
  order of the inner index.\<close>

definition dot :: "(u32 \<Rightarrow> u32 \<Rightarrow> u32) \<Rightarrow> (u32 \<Rightarrow> u32 \<Rightarrow> u32) \<Rightarrow> (nat \<Rightarrow> u32) \<Rightarrow> (nat \<Rightarrow> u32) \<Rightarrow> nat \<Rightarrow> nat \<Rightarrow> nat \<Rightarrow> nat \<Rightarrow> u32" where
  "dot fadd fmul A B n k i j = fold (\<lambda>p acc. fadd acc (fmul (A (i * k + p)) (B (p * n + j)))) [0 ..< k] 0"

definition gemm_elem :: "(u32 \<Rightarrow> u32 \<Rightarrow> u32) \<Rightarrow> (u32 \<Rightarrow> u32 \<Rightarrow> u32) \<Rightarrow> nat \<Rightarrow> nat \<Rightarrow> (nat \<Rightarrow> u32) \<Rightarrow> (nat \<Rightarrow> u32) \<Rightarrow> nat \<Rightarrow> u32" where
  "gemm_elem fadd fmul n k A B q = dot fadd fmul A B n k (q div n) (q mod n)"

lemma fold_store_elems:
  assumes "i * n + n \<le> N" "4 * N + 4 < (2 :: nat) ^ 64"
    and val: "\<And>j V. j < n \<Longrightarrow> g j (wr d N V st) = h j (V (i * n + j))"
  shows "fold (\<lambda>j st. store32 d (i * n + j) (g j st) st) [0 ..< n] (wr d N V st) =
    wr d N (\<lambda>q. if i * n \<le> q \<and> q < i * n + n then h (q - i * n) (V q) else V q) st"
proof -
  have "m \<le> n \<Longrightarrow> fold (\<lambda>j st. store32 d (i * n + j) (g j st) st) [0 ..< m] (wr d N V st) =
      wr d N (\<lambda>q. if i * n \<le> q \<and> q < i * n + m then h (q - i * n) (V q) else V q) st" for m
  proof (induction m)
    case 0
    have "(\<lambda>q. if i * n \<le> q \<and> q < i * n + 0 then h (q - i * n) (V q) else V q) = V" by (rule ext) auto
    then show ?case by simp
  next
    case (Suc m)
    let ?W = "\<lambda>q. if i * n \<le> q \<and> q < i * n + m then h (q - i * n) (V q) else V q"
    have "store32 d (i * n + m) (h m (?W (i * n + m))) (wr d N ?W st) = wr d N (?W(i * n + m := h m (V (i * n + m)))) st"
      using Suc.prems assms(1,2) by (subst store32_wr) (auto simp: max_absorb1)
    moreover have "?W(i * n + m := h m (V (i * n + m))) =
        (\<lambda>q. if i * n \<le> q \<and> q < i * n + Suc m then h (q - i * n) (V q) else V q)"
      by (auto simp: fun_eq_iff)
    ultimately show ?case using Suc val [of m ?W] by simp
  qed
  from this [of n] show ?thesis by simp
qed

lemma fold_store_fresh:
  assumes "4 * (N + n) + 4 < (2 :: nat) ^ 64"
  shows "fold (\<lambda>j. store32 d (N + j) 0) [0 ..< n] (wr d N V st) = wr d (N + n) (\<lambda>q. if q < N then V q else 0) st"
  using assms
proof (induction n)
  case 0
  show ?case by (simp, rule wr_cong) simp
next
  case (Suc n)
  then show ?case by (simp add: store32_wr) (rule wr_cong, auto)
qed

lemma gemm_row_correct:
  assumes size: "4 * (i * n + n) + 4 < (2 :: nat) ^ 64"
    and a: "\<And>p. p < k \<Longrightarrow> apart d (i * n + n) s0 (i * k + p)"
    and b: "\<And>p j. p < k \<Longrightarrow> j < n \<Longrightarrow> apart d (i * n + n) s1 (p * n + j)"
  shows "gemm_row fadd fmul n k d s0 s1 i (wr d (i * n) V st) =
    wr d (i * n + n) (\<lambda>q. if q < i * n then V q
      else dot fadd fmul (load32 st s0) (load32 st s1) n k i (q - i * n)) st"
proof -
  let ?N = "i * n + n"
  define part where "part m j = fold (\<lambda>p acc. fadd acc (fmul (load32 st s0 (i * k + p)) (load32 st s1 (p * n + j)))) [0 ..< m] 0"
    for m j
  define W where "W m = (\<lambda>q. if q < i * n then V q else part m (q - i * n))" for m
  define body where "body = (\<lambda>p st. let aip = load32 st s0 (i * k + p) in
      fold (\<lambda>j st. store32 d (i * n + j) (fadd (load32 st d (i * n + j)) (fmul aip (load32 st s1 (p * n + j)))) st) [0 ..< n] st)"
  have step: "body p (wr d ?N (W p) st) = wr d ?N (W (Suc p)) st" if p: "p < k" for p
  proof -
    let ?aip = "load32 st s0 (i * k + p)"
    have "body p (wr d ?N (W p) st) =
        fold (\<lambda>j st. store32 d (i * n + j) (fadd (load32 st d (i * n + j)) (fmul ?aip (load32 st s1 (p * n + j)))) st)
          [0 ..< n] (wr d ?N (W p) st)"
      using a [OF p] by (simp add: body_def load32_wr_apart)
    also have "\<dots> = wr d ?N (\<lambda>q. if i * n \<le> q \<and> q < i * n + n
        then fadd (W p q) (fmul ?aip (load32 st s1 (p * n + (q - i * n)))) else W p q) st"
      using size b [OF p] by (subst fold_store_elems [where h = "\<lambda>j v. fadd v (fmul ?aip (load32 st s1 (p * n + j)))"])
        (auto simp: load32_wr_same load32_wr_apart)
    also have "\<dots> = wr d ?N (W (Suc p)) st"
      by (rule wr_cong) (auto simp: W_def part_def)
    finally show ?thesis .
  qed
  have "m \<le> k \<Longrightarrow> fold body [0 ..< m] (wr d ?N (W 0) st) = wr d ?N (W m) st" for m
    by (induction m) (simp_all add: step)
  moreover have "fold (\<lambda>j. store32 d (i * n + j) 0) [0 ..< n] (wr d (i * n) V st) = wr d ?N (W 0) st"
    using size by (simp add: fold_store_fresh W_def part_def cong: if_cong)
  moreover have "W k = (\<lambda>q. if q < i * n then V q else dot fadd fmul (load32 st s0) (load32 st s1) n k i (q - i * n))"
    by (simp add: W_def part_def dot_def cong: if_cong)
  ultimately show ?thesis unfolding gemm_row_def body_def [symmetric] by simp
qed

lemma gemm_kernel_correct:
  assumes size: "4 * (unat m * unat n) + 4 < (2 :: nat) ^ 64"
    and a: "\<And>q. q < unat m * unat k \<Longrightarrow> apart d (unat m * unat n) s0 q"
    and b: "\<And>q. q < unat k * unat n \<Longrightarrow> apart d (unat m * unat n) s1 q"
  shows "gemm_kernel fadd fmul m n k d s0 s1 st =
    wr d (unat m * unat n) (gemm_elem fadd fmul (unat n) (unat k) (load32 st s0) (load32 st s1)) st"
proof -
  let ?n = "unat n" and ?k = "unat k"
  let ?E = "gemm_elem fadd fmul ?n ?k (load32 st s0) (load32 st s1)"
  have "r \<le> unat m \<Longrightarrow> fold (gemm_row fadd fmul ?n ?k d s0 s1) [0 ..< r] st = wr d (r * ?n) ?E st" for r
  proof (induction r)
    case (Suc r)
    then have r: "Suc r \<le> unat m" by simp
    have le: "r * ?n + ?n \<le> unat m * ?n" using mult_le_mono1 [OF r, of ?n] by simp
    have "apart d (r * ?n + ?n) s0 (r * ?k + p)" if p: "p < ?k" for p
    proof (rule apart_mono [OF a le])
      have "r * ?k + p < Suc r * ?k" using p by simp
      also have "\<dots> \<le> unat m * ?k" by (rule mult_le_mono1 [OF r])
      finally show "r * ?k + p < unat m * ?k" .
    qed
    moreover have "apart d (r * ?n + ?n) s1 (p * ?n + j)" if pj: "p < ?k" "j < ?n" for p j
    proof (rule apart_mono [OF b le])
      have "p * ?n + j < Suc p * ?n" using pj by simp
      also have "\<dots> \<le> ?k * ?n" by (rule mult_le_mono1) (use pj in simp)
      finally show "p * ?n + j < ?k * ?n" .
    qed
    ultimately have "gemm_row fadd fmul ?n ?k d s0 s1 r (wr d (r * ?n) ?E st) =
        wr d (r * ?n + ?n) (\<lambda>q. if q < r * ?n then ?E q
          else dot fadd fmul (load32 st s0) (load32 st s1) ?n ?k r (q - r * ?n)) st"
      using size le by (intro gemm_row_correct) auto
    also have "\<dots> = wr d (r * ?n + ?n) ?E st"
    proof (rule wr_cong)
      fix q assume q: "q < r * ?n + ?n"
      show "(if q < r * ?n then ?E q else dot fadd fmul (load32 st s0) (load32 st s1) ?n ?k r (q - r * ?n)) = ?E q"
      proof (cases "q < r * ?n")
        case False
        then have dv: "q div ?n = r" using q by (intro div_nat_eqI) (auto simp: mult.commute)
        then have "q mod ?n = q - r * ?n" by (simp add: minus_div_mult_eq_mod [symmetric])
        with dv False show ?thesis by (simp add: gemm_elem_def)
      qed simp
    qed
    finally show ?case using Suc by (simp add: add.commute)
  qed simp
  then show ?thesis by (simp add: gemm_kernel_def)
qed

end
