(* ===== verification/Commands.thy ===== *)
theory Commands
  imports Kernels
begin

text \<open>
  What commands do to memory. \<open>cmd_effect\<close> is the specification of one command on memory contents;
  \<open>cmd_run\<close> is a command executed to its end, with pages migrating and being evicted whenever it is
  parked on a fault. Each operation of \<^verbatim>\<open>Device::execute\<close> keeps a progress invariant across faults
  and completes with the specified effect.
\<close>

section \<open>Resolving whole operands\<close>

definition ptr_ok :: "mmu \<Rightarrow> bool \<Rightarrow> u64 \<Rightarrow> u64 \<Rightarrow> u64 option \<Rightarrow> bool" where
  "ptr_ok m w va len p \<longleftrightarrow> (case p of None \<Rightarrow> len = 0 | Some b \<Rightarrow> run_ok m w va b len)"

lemma ptr_ok_same_map: "same_map m m' \<Longrightarrow> ptr_ok m w va len p \<Longrightarrow> ptr_ok m' w va len p"
  by (auto simp: ptr_ok_def run_ok_same_map split: option.splits)

lemma resolve_correct:
  assumes "mem_inv d" "e < SG_MAX_ENGINES" "resolve e va len w d = (x, d')"
  shows "mem_inv d' \<and> same_map (dm_mmu d) (dm_mmu d') \<and> d' = d\<lparr>dm_mmu := dm_mmu d'\<rparr> \<and>
    (\<forall>p. x = RPtr p \<longrightarrow> ptr_ok (dm_mmu d') w va len p)"
proof (cases "len = 0")
  case True
  with assms show ?thesis by (auto simp: resolve_def ptr_ok_def)
next
  case False
  obtain res d1 where ra: "run_at e va len w d = (res, d1)" by fastforce
  from run_at_correct [OF assms(1,2) ra] assms(3) False ra show ?thesis
    by (auto simp: resolve_def ptr_ok_def run_result_ok_def split: run_res.splits if_splits)
qed

lemma resolve_all_correct:
  assumes "mem_inv d" "e < SG_MAX_ENGINES" "resolve_all e rs d = (x, d')"
  shows "mem_inv d' \<and> same_map (dm_mmu d) (dm_mmu d') \<and> d' = d\<lparr>dm_mmu := dm_mmu d'\<rparr> \<and>
    (\<forall>ps. x = Inr ps \<longrightarrow> list_all2 (\<lambda>(va, len, w) p. ptr_ok (dm_mmu d') w va len p) rs ps)"
  using assms
proof (induction rs arbitrary: d x d')
  case (Cons q rs)
  obtain va len w where q: "q = (va, len, w)" by (cases q)
  obtain y d1 where r: "resolve e va len w d = (y, d1)" by fastforce
  from resolve_correct [OF Cons.prems(1,2) r]
  have 1: "mem_inv d1" "same_map (dm_mmu d) (dm_mmu d1)" "d1 = d\<lparr>dm_mmu := dm_mmu d1\<rparr>"
    "\<And>p. y = RPtr p \<Longrightarrow> ptr_ok (dm_mmu d1) w va len p" by auto
  show ?case
  proof (cases y)
    case (RPtr p)
    obtain z d2 where ra: "resolve_all e rs d1 = (z, d2)" by fastforce
    from Cons.IH [OF 1(1) Cons.prems(2) ra]
    have 2: "mem_inv d2" "same_map (dm_mmu d1) (dm_mmu d2)" "d2 = d1\<lparr>dm_mmu := dm_mmu d2\<rparr>"
      "\<And>ps. z = Inr ps \<Longrightarrow> list_all2 (\<lambda>(va, len, w) p. ptr_ok (dm_mmu d2) w va len p) rs ps" by auto
    have "d' = d2" using Cons.prems(3) q r RPtr ra by (auto split: sum.splits)
    moreover have "ptr_ok (dm_mmu d2) w va len p" by (rule ptr_ok_same_map [OF 2(2) 1(4) [OF RPtr]])
    moreover have "d2 = d\<lparr>dm_mmu := dm_mmu d2\<rparr>" by (subst 2(3), subst 1(3)) simp
    moreover have "same_map (dm_mmu d) (dm_mmu d2)" by (rule same_map_trans [OF 1(2) 2(2)])
    ultimately show ?thesis using Cons.prems(3) q r RPtr ra 2 by (cases z) auto
  next
    case RSplit
    with Cons.prems(3) q r 1 show ?thesis by auto
  next
    case (RPageFault f)
    with Cons.prems(3) q r 1 show ?thesis by auto
  next
    case (RError er)
    with Cons.prems(3) q r 1 show ?thesis by auto
  qed
qed auto

section \<open>Scattering a buffer\<close>

lemma scatter_correct:
  assumes "mem_inv d" "e < SG_MAX_ENGINES" "r_done r \<le> len" "scatter e va len buf (r, d) = (rc, r', d')"
  shows "mem_inv d' \<and> same_map (dm_mmu d) (dm_mmu d') \<and> dm_host d' = dm_host d \<and> r' = r\<lparr>r_done := r_done r'\<rparr> \<and>
    r_done r \<le> r_done r' \<and> r_done r' \<le> len \<and>
    logical d' = upd va (r_done r) (r_done r') (\<lambda>i. Some (buf_at buf i)) (logical d) \<and>
    stop_ok (dm_mmu d) va len (r_done r') rc"
  by (rule for_runs_write [OF assms(1-3) _ refl assms(4) [unfolded scatter_def]]) (simp add: blit_def)

lemma upd_join:
  assumes "logical d = upd va 0 k F L" "k \<le> k'" "L' = upd va k k' F (logical d)"
  shows "L' = upd va 0 k' F L"
  using assms by (auto simp: upd_def fun_eq_iff)

section \<open>Device-to-device copies of disjoint ranges\<close>

lemma index_less:
  assumes "unat (k + n) = unat k + unat n" "i < (n :: u64)"
  shows "unat (k + i) = unat k + unat i" "k + i < k + n"
proof -
  have "unat i < unat n" using assms(2) by (simp add: word_less_unat)
  moreover have "unat k + unat n < 2 ^ 64" using assms(1) unat_less_64 [of "k + n"] by simp
  ultimately show u: "unat (k + i) = unat k + unat i" by (intro unat_add_64) simp
  show "k + i < k + n" using \<open>unat i < unat n\<close> by (simp add: word_less_unat u assms(1))
qed

lemma d2d_runs_correct:
  assumes "mem_inv d" "e < SG_MAX_ENGINES" "r_done r \<le> cmd_size c" "d2d_runs e c (r, d) = (rc, r', d')"
    and L: "logical d = upd (dst c) 0 (r_done r) (\<lambda>i. Some (the (L0 (src0 c + i)))) L0"
    and disj: "\<And>i. i < cmd_size c \<Longrightarrow> \<not> src0 c + i - dst c < cmd_size c"
  shows "mem_inv d' \<and> same_map (dm_mmu d) (dm_mmu d') \<and> dm_host d' = dm_host d \<and> r' = r\<lparr>r_done := r_done r'\<rparr> \<and>
    r_done r' \<le> cmd_size c \<and> logical d' = upd (dst c) 0 (r_done r') (\<lambda>i. Some (the (L0 (src0 c + i)))) L0 \<and>
    (rc = XOk \<longrightarrow> r_done r' = cmd_size c)"
  using assms(1,3,4,5)
proof (induction "unat (cmd_size c) - unat (r_done r)" arbitrary: r d rule: less_induct)
  case less
  note pre = less.prems
  let ?k = "r_done r" and ?len = "cmd_size c"
  note eq = d2d_runs.simps [of e c "(r, d)"]
  show ?case
  proof (cases "?k < ?len")
    case False
    with pre show ?thesis by (auto simp: eq)
  next
    case True
    obtain res1 d1 where r1: "run_at e (dst c + ?k) (?len - ?k) True d = (res1, d1)" by fastforce
    obtain res2 d2 where r2: "run_at e (src0 c + ?k) (?len - ?k) False d1 = (res2, d2)" by fastforce
    from run_at_correct [OF pre(1) assms(2) r1]
    have 1: "mem_inv d1" "same_map (dm_mmu d) (dm_mmu d1)" "d1 = d\<lparr>dm_mmu := dm_mmu d1\<rparr>"
      "run_result_ok (dm_mmu d) (dm_mmu d1) True (dst c + ?k) (?len - ?k) res1" by auto
    from run_at_correct [OF 1(1) assms(2) r2]
    have 2: "mem_inv d2" "same_map (dm_mmu d1) (dm_mmu d2)" "d2 = d1\<lparr>dm_mmu := dm_mmu d2\<rparr>"
      "run_result_ok (dm_mmu d1) (dm_mmu d2) False (src0 c + ?k) (?len - ?k) res2" by auto
    have log1: "logical d1 = logical d" by (subst 1(3)) (rule logical_same_map [OF 1(2)])
    have log2: "logical d2 = logical d" by (subst 2(3)) (simp add: logical_same_map [OF 2(2)] log1)
    have host: "dm_host d1 = dm_host d" "dm_host d2 = dm_host d"
      by (subst 1(3), simp) (subst 2(3), subst 1(3), simp)
    have sm: "same_map (dm_mmu d) (dm_mmu d2)" by (rule same_map_trans [OF 1(2) 2(2)])
    show ?thesis
    proof (cases "\<exists>pd nd ps ns. res1 = Run pd nd \<and> res2 = Run ps ns")
      case False
      then have "rc \<noteq> XOk \<and> r' = r \<and> (d' = d1 \<or> d' = d2)"
        using pre(3) True r1 r2 by (auto simp: eq Let_def split: run_res.splits)
      then consider "rc \<noteq> XOk" "r' = r" "d' = d1" | "rc \<noteq> XOk" "r' = r" "d' = d2" by blast
      then show ?thesis
        by cases (use 1(1,2) 2(1) sm log1 log2 host pre(2,4) in simp_all)
    next
      case runs: True
      then obtain pd nd ps ns where res: "res1 = Run pd nd" "res2 = Run ps ns" by blast
      define n where "n = min nd ns"
      have "?len - ?k \<noteq> 0" using True by auto
      then have nz: "0 < nd" "nd \<le> ?len - ?k" "0 < ns"
        using 1(4) 2(4) res by (auto simp: run_result_ok_def simp flip: word_neq_0_conv)
      have n: "0 < n" "n \<le> ?len - ?k" using nz by (auto simp: n_def min_def)
      note st = run_step [OF True n]
      have "run_ok (dm_mmu d1) True (dst c + ?k) pd nd" "run_ok (dm_mmu d2) False (src0 c + ?k) ps ns"
        using 1(4) 2(4) res by (simp_all add: run_result_ok_def)
      then have okd: "run_ok (dm_mmu d2) True (dst c + ?k) pd n" and oks: "run_ok (dm_mmu d2) False (src0 c + ?k) ps n"
        using run_ok_prefix [OF run_ok_same_map [OF 2(2)], of True _ pd nd n] run_ok_prefix [of _ False _ ps ns n]
        by (simp_all add: n_def)
      define V where "V = blit pd ps n (dm_vram d2) (dm_vram d2)"
      define d3 where "d3 = d2\<lparr>dm_vram := V\<rparr>"
      have V: "\<not> x - pd < n \<Longrightarrow> V x = dm_vram d2 x" for x by (simp add: V_def blit_def)
      have inv3: "mem_inv d3" unfolding d3_def by (rule store_run(1) [OF 2(1) okd V])
      have val: "Some (V (pd + i)) = Some (the (L0 (src0 c + (?k + i))))" if i: "i < n" for i
      proof -
        have "Some (V (pd + i)) = logical d (src0 c + ?k + i)"
          using load_run [OF oks i] i log2 by (simp add: V_def blit_def)
        moreover have "?k + i < ?len" using index_less(2) [OF st(2) i] st(1) by (rule less_le_trans)
        ultimately have "Some (V (pd + i)) = L0 (src0 c + (?k + i))" using disj [of "?k + i"] pre(2,4)
          by (auto simp: upd_def add.assoc dest: less_le_trans)
        then show ?thesis by (metis option.sel)
      qed
      have "logical d3 = (\<lambda>x. if x - (dst c + ?k) < n then Some (the (L0 (src0 c + (?k + (x - (dst c + ?k)))))) else logical d x)"
      proof (rule ext)
        fix x
        have "logical d3 x = (if x - (dst c + ?k) < n then Some (V (pd + (x - (dst c + ?k)))) else logical d2 x)"
          unfolding d3_def by (rule store_run(2) [OF 2(1) okd V])
        then show "logical d3 x = (if x - (dst c + ?k) < n then Some (the (L0 (src0 c + (?k + (x - (dst c + ?k)))))) else logical d x)"
          by (simp only: val log2 cong: if_cong)
      qed
      then have L3: "logical d3 = upd (dst c) 0 (?k + n) (\<lambda>i. Some (the (L0 (src0 c + i)))) L0"
        unfolding pre(4) by (subst upd_extend [OF _ st(2), symmetric]) simp_all
      have "d2d_runs e c (r\<lparr>r_done := ?k + n\<rparr>, d3) = (rc, r', d')"
        using pre(3) True r1 r2 res by (simp add: eq d3_def V_def n_def)
      from less.hyps [OF _ inv3 _ this] st L3
      have "mem_inv d' \<and> same_map (dm_mmu d3) (dm_mmu d') \<and> dm_host d' = dm_host d3 \<and>
          r' = r\<lparr>r_done := ?k + n\<rparr>\<lparr>r_done := r_done r'\<rparr> \<and> r_done r' \<le> ?len \<and>
          logical d' = upd (dst c) 0 (r_done r') (\<lambda>i. Some (the (L0 (src0 c + i)))) L0 \<and> (rc = XOk \<longrightarrow> r_done r' = ?len)"
        by simp
      then show ?thesis using host same_map_trans [OF sm] by (auto simp: d3_def)
    qed
  qed
qed

section \<open>Compute commands\<close>

subsection \<open>Operands as arrays of words\<close>

definition dword :: "(u64 \<Rightarrow> u8 option) \<Rightarrow> u64 \<Rightarrow> nat \<Rightarrow> u32" where
  "dword L va i = word_of_bytes (\<lambda>j. the (L (va + of_nat (4 * i + j))))"

lemma load32_vram:
  assumes "ptr_ok (dm_mmu d) w va len p" "4 * i + 4 \<le> unat len"
  shows "load32 (vram_store d) (vram_ptr p) i = dword (logical d) va i"
proof (cases p)
  case None
  with assms show ?thesis by (simp add: ptr_ok_def)
next
  case (Some b)
  show ?thesis unfolding load32_def dword_def
  proof (rule word_of_bytes_cong)
    fix j :: nat assume "j < 4"
    then have "4 * i + j < unat len" using assms(2) by simp
    then have "of_nat (4 * i + j) < len"
      using unat_less_64 [of len] by (simp only: word_less_unat) (subst unat_of_nat_64, simp_all)
    from load_run [of d w va b len, OF _ this]
    show "vram_store d (fst (vram_ptr p)) (snd (vram_ptr p) + of_nat (4 * i + j)) = the (logical d (va + of_nat (4 * i + j)))"
      using assms(1) Some by (simp only: ptr_ok_def vram_ptr_def vram_store_def option.case fst_conv snd_conv fun_upd_same option.sel)
  qed
qed

lemma load32_buf:
  assumes "buf = range_bytes L va len" "4 * i + 4 \<le> unat len" "st s = buf_at buf"
  shows "load32 st (s, 0) i = dword L va i"
  unfolding load32_def dword_def
proof (rule word_of_bytes_cong)
  fix j :: nat assume "j < 4"
  then have j: "4 * i + j < unat len" using assms(2) by simp
  then have u: "unat (of_nat (4 * i + j) :: u64) = 4 * i + j"
    using unat_less_64 [of len] by (intro unat_of_nat_64) simp
  have "buf_at buf (of_nat (4 * i + j)) = the (L (va + of_nat (4 * i + j)))"
    unfolding buf_at_def u using j by (simp add: assms(1) range_bytes_def)
  then show "st (fst (s, 0)) (snd (s, 0) + of_nat (4 * i + j)) = the (L (va + of_nat (4 * i + j)))"
    by (simp only: fst_conv snd_conv add_0 assms(3))
qed

text \<open>Source element \<open>j\<close> shares no device address with the first \<open>N\<close> elements of the destination.\<close>

definition va_apart :: "u64 \<Rightarrow> nat \<Rightarrow> u64 \<Rightarrow> nat \<Rightarrow> bool" where
  "va_apart va N s j \<longleftrightarrow> (\<forall>b < 4. \<not> unat (s + of_nat (4 * j + b) - va) < 4 * N)"

lemma apart_vram:
  assumes "mem_inv d" "ptr_ok (dm_mmu d) w va len pd" "ptr_ok (dm_mmu d) w' s slen ps"
    and "va_apart va N s j" "4 * N \<le> unat len" "4 * j + 4 \<le> unat slen"
  shows "apart (vram_ptr pd) N (vram_ptr ps) j"
proof (cases pd)
  case None
  with assms(2,5) have "N = 0" by (simp add: ptr_ok_def)
  then show ?thesis by (simp add: apart_def)
next
  case (Some bd)
  note pd = this
  show ?thesis
  proof (cases ps)
    case None
    with assms(3,6) show ?thesis by (simp add: ptr_ok_def)
  next
    case (Some bs)
    have "\<not> unat (bs + of_nat (4 * j + b) - bd) < 4 * N" if b: "b < 4" for b
    proof
      let ?o = "of_nat (4 * j + b) :: u64"
      assume lt: "unat (bs + ?o - bd) < 4 * N"
      have m: "mmu_inv (dm_mmu d)" "frames_inj (dm_mmu d)" using assms(1) by (simp_all add: mem_inv_def)
      have okd: "run_ok (dm_mmu d) w va bd len" using assms(2) pd by (simp add: ptr_ok_def)
      have "4 * j + b < unat slen" using b assms(6) by simp
      then have "?o < slen"
        using unat_less_64 [of slen] by (simp only: word_less_unat) (subst unat_of_nat_64, simp_all)
      then have ph: "phys (dm_mmu d) (s + ?o) = Some (bs + ?o)" using assms(3) Some by (simp add: ptr_ok_def run_ok_def)
      have "bs + ?o - bd < len" using lt assms(5) by (simp only: word_less_unat)
      with run_ok_hit [OF m okd ph] have "bs + ?o = bd + (s + ?o - va)" by blast
      then have "bs + ?o - bd = s + ?o - va" by simp
      with lt assms(4) b show False unfolding va_apart_def by metis
    qed
    then show ?thesis using pd Some by (simp add: apart_def vram_ptr_def)
  qed
qed

subsection \<open>Progress of a compute command\<close>

definition cstate :: "sg_cmd \<Rightarrow> u64 \<Rightarrow> u64 \<Rightarrow> u64 \<Rightarrow> (nat \<Rightarrow> u32) \<Rightarrow> (u64 \<Rightarrow> u8 option) \<Rightarrow> u32 \<Rightarrow> replay \<Rightarrow> dev_mem \<Rightarrow> bool" where
  "cstate c b0 b1 bd V L ph r d \<longleftrightarrow> r_gather r \<and> r_phase r = ph \<and>
     (if ph = 0 then logical d = L \<and> r_done r \<le> b0 \<and>
        (r_done r = 0 \<and> r_a r = [] \<or> prefix_ok L (src0 c) b0 (r_done r) (r_a r)) \<and> r_b r = []
      else if ph = 1 then logical d = L \<and> r_a r = range_bytes L (src0 c) b0 \<and> r_done r \<le> b1 \<and>
        (r_done r = 0 \<and> r_b r = [] \<or> prefix_ok L (src1 c) b1 (r_done r) (r_b r))
      else if ph = 2 then logical d = L \<and> r_a r = range_bytes L (src0 c) b0 \<and> r_b r = range_bytes L (src1 c) b1 \<and> r_done r = 0
      else r_c r = map (elem_byte V) [0 ..< unat bd] \<and> r_done r \<le> bd \<and>
        logical d = upd (dst c) 0 (r_done r) (\<lambda>i. Some (elem_byte V (unat i))) L)"

definition cprog :: "sg_cmd \<Rightarrow> u64 \<Rightarrow> u64 \<Rightarrow> u64 \<Rightarrow> (nat \<Rightarrow> u32) \<Rightarrow> (u64 \<Rightarrow> u8 option) \<Rightarrow> replay \<Rightarrow> dev_mem \<Rightarrow> bool" where
  "cprog c b0 b1 bd V L r d \<longleftrightarrow> r = fresh_replay \<and> logical d = L \<or>
     (\<exists>ph \<in> {0, 1, 3}. cstate c b0 b1 bd V L ph r d)"

text \<open>What every step of the slow path keeps.\<close>

definition same_host :: "dev_mem \<Rightarrow> dev_mem \<Rightarrow> bool" where
  "same_host d d' \<longleftrightarrow> mem_inv d' \<and> same_map (dm_mmu d) (dm_mmu d') \<and> dm_host d' = dm_host d"

lemma same_host_trans: "same_host a b \<Longrightarrow> same_host b c \<Longrightarrow> same_host a c"
  by (auto simp: same_host_def intro: same_map_trans)

lemma phase0_correct:
  assumes "mem_inv d" "e < SG_MAX_ENGINES" "cstate c b0 b1 bd V L ph r d" "phase0 e (src0 c) b0 (r, d) = (rc, r', d')"
  shows "same_host d d' \<and>
    (rc = XOk \<longrightarrow> (if ph = 0 then cstate c b0 b1 bd V L 1 r' d' else r' = r \<and> d' = d)) \<and>
    (rc \<noteq> XOk \<longrightarrow> ph = 0 \<and> cstate c b0 b1 bd V L 0 r' d')"
proof (cases "ph = 0")
  case False
  with assms show ?thesis by (auto simp: phase0_def cstate_def same_host_def)
next
  case True
  obtain rc1 r1 d1 where g: "gather r_a put_a e (src0 c) b0 (r, d) = (rc1, r1, d1)" by (metis prod_cases3)
  have st: "r_gather r" "r_phase r = 0" "logical d = L" "r_done r \<le> b0" "r_b r = []"
    "r_done r = 0 \<and> r_a r = [] \<or> prefix_ok (logical d) (src0 c) b0 (r_done r) (r_a r)"
    using assms(3) True by (auto simp: cstate_def)
  note gc = buf_a.gather_correct [OF assms(1,2) st(4,6) g]
  then have r1: "r1 = r\<lparr>r_a := r_a r1, r_done := r_done r1\<rparr>" by (simp add: put_a_def)
  have sel: "r_gather r1" "r_phase r1 = 0" "r_b r1 = []"
    by (subst r1, simp add: st)+
  have res: "phase0 e (src0 c) b0 (r, d) = and_then (rc1, r1, d1) (\<lambda>(r, d). (XOk, r\<lparr>r_phase := 1, r_done := 0\<rparr>, d))"
    using g st by (simp add: phase0_def)
  show ?thesis
  proof (cases "rc1 = XOk")
    case ok: True
    then have "r_a r1 = range_bytes L (src0 c) b0"
      using gc st(3) by (auto simp: stop_ok_def dest: prefix_ok_complete)
    moreover have "rc = XOk" "r' = r1\<lparr>r_phase := 1, r_done := 0\<rparr>" "d' = d1"
      using assms(4) res ok by (auto simp: and_then_def)
    ultimately show ?thesis using True gc sel st(3) by (auto simp: cstate_def same_host_def)
  next
    case nok: False
    then have "rc = rc1" "r' = r1" "d' = d1" using assms(4) res by (auto simp: and_then_def split: xrc.splits)
    with True nok gc sel st(3) show ?thesis by (auto simp: cstate_def same_host_def)
  qed
qed

lemma phase1_correct:
  assumes "mem_inv d" "e < SG_MAX_ENGINES" "cstate c b0 b1 bd V L ph r d" "phase1 e (src1 c) b1 (r, d) = (rc, r', d')"
  shows "same_host d d' \<and>
    (rc = XOk \<longrightarrow> (if ph = 1 then cstate c b0 b1 bd V L 2 r' d' else r' = r \<and> d' = d)) \<and>
    (rc \<noteq> XOk \<longrightarrow> ph = 1 \<and> cstate c b0 b1 bd V L 1 r' d')"
proof (cases "ph = 1")
  case False
  with assms show ?thesis by (auto simp: phase1_def cstate_def same_host_def)
next
  case True
  obtain rc1 r1 d1 where g: "gather r_b put_b e (src1 c) b1 (r, d) = (rc1, r1, d1)" by (metis prod_cases3)
  have st: "r_gather r" "r_phase r = 1" "logical d = L" "r_done r \<le> b1" "r_a r = range_bytes L (src0 c) b0"
    "r_done r = 0 \<and> r_b r = [] \<or> prefix_ok (logical d) (src1 c) b1 (r_done r) (r_b r)"
    using assms(3) True by (auto simp: cstate_def)
  note gc = buf_b.gather_correct [OF assms(1,2) st(4,6) g]
  then have r1: "r1 = r\<lparr>r_b := r_b r1, r_done := r_done r1\<rparr>" by (simp add: put_b_def)
  have sel: "r_gather r1" "r_phase r1 = 1" "r_a r1 = range_bytes L (src0 c) b0"
    by (subst r1, simp add: st)+
  have res: "phase1 e (src1 c) b1 (r, d) = and_then (rc1, r1, d1) (\<lambda>(r, d). (XOk, r\<lparr>r_phase := 2, r_done := 0\<rparr>, d))"
    using g st by (simp add: phase1_def)
  show ?thesis
  proof (cases "rc1 = XOk")
    case ok: True
    then have "r_b r1 = range_bytes L (src1 c) b1"
      using gc st(3) by (auto simp: stop_ok_def dest: prefix_ok_complete)
    moreover have "rc = XOk" "r' = r1\<lparr>r_phase := 2, r_done := 0\<rparr>" "d' = d1"
      using assms(4) res ok by (auto simp: and_then_def)
    ultimately show ?thesis using True gc sel st(3) by (auto simp: cstate_def same_host_def)
  next
    case nok: False
    then have "rc = rc1" "r' = r1" "d' = d1" using assms(4) res by (auto simp: and_then_def split: xrc.splits)
    with True nok gc sel st(3) show ?thesis by (auto simp: cstate_def same_host_def)
  qed
qed

subsection \<open>The contract of a kernel\<close>

text \<open>A kernel over \<open>n0\<close> and \<open>n1\<close> source elements writes \<open>N\<close> destination elements with the values \<open>value\<close>, provided
  that source element \<open>q\<close> shares nothing with the first \<open>K0 q\<close> (\<open>K1 q\<close>) elements of the destination.\<close>

locale compute_kernel =
  fixes krn :: "ptr \<Rightarrow> ptr \<Rightarrow> ptr \<Rightarrow> store \<Rightarrow> store"
    and N n0 n1 :: nat and K0 K1 :: "nat \<Rightarrow> nat"
    and elem :: "(nat \<Rightarrow> u32) \<Rightarrow> (nat \<Rightarrow> u32) \<Rightarrow> nat \<Rightarrow> u32"
  assumes correct: "4 * N + 4 < (2 :: nat) ^ 64 \<Longrightarrow> (\<And>q. q < n0 \<Longrightarrow> apart dp (K0 q) p0 q) \<Longrightarrow>
      (\<And>q. q < n1 \<Longrightarrow> apart dp (K1 q) p1 q) \<Longrightarrow> krn dp p0 p1 st = wr dp N (elem (load32 st p0) (load32 st p1)) st"
    and cong: "(\<And>q. q < n0 \<Longrightarrow> A q = A' q) \<Longrightarrow> (\<And>q. q < n1 \<Longrightarrow> B q = B' q) \<Longrightarrow> i < N \<Longrightarrow> elem A B i = elem A' B' i"
    and K_le: "q < n0 \<Longrightarrow> K0 q \<le> N" "q < n1 \<Longrightarrow> K1 q \<le> N"
begin

lemma wr_elem:
  assumes "\<And>q. q < n0 \<Longrightarrow> A q = A' q" "\<And>q. q < n1 \<Longrightarrow> B q = B' q"
  shows "wr dp N (elem A B) st = wr dp N (elem A' B') st"
  by (rule wr_cong) (use assms in \<open>auto intro: cong\<close>)

lemma phase2_correct:
  assumes st: "cstate c b0 b1 bd V L 2 r d" and sz: "4 * N + 4 < (2 :: nat) ^ 64" "unat bd = 4 * N" "unat b0 = 4 * n0" "unat b1 = 4 * n1"
    and V: "V = elem (dword L (src0 c)) (dword L (src1 c))"
    and run: "phase2 bd krn (r, d) = (rc, r', d')"
  shows "rc = XOk \<and> d' = d \<and> cstate c b0 b1 bd V L 3 r' d'"
proof -
  define r1 where "r1 = r\<lparr>r_c := take (unat bd) (buf_resize bd (r_c r))\<rparr>"
  let ?S = "buf_store r1"
  have "krn (SC, 0) (SA, 0) (SB, 0) ?S = wr (SC, 0) N (elem (load32 ?S (SA, 0)) (load32 ?S (SB, 0))) ?S"
    by (rule correct [OF sz(1)]) (simp_all add: apart_def)
  also have "\<dots> = wr (SC, 0) N V ?S"
    unfolding V
  proof (rule wr_elem)
    show "load32 ?S (SA, 0) q = dword L (src0 c) q" if "q < n0" for q
      by (rule load32_buf [of "r_a r" _ _ b0]) (use that sz(3) st in \<open>simp_all add: cstate_def buf_store_def r1_def\<close>)
    show "load32 ?S (SB, 0) q = dword L (src1 c) q" if "q < n1" for q
      by (rule load32_buf [of "r_b r" _ _ b1]) (use that sz(4) st in \<open>simp_all add: cstate_def buf_store_def r1_def\<close>)
  qed
  finally have k: "krn (SC, 0) (SA, 0) (SB, 0) ?S = wr (SC, 0) N V ?S" .
  have bytes: "map (\<lambda>i. wr (SC, 0) N V ?S SC (of_nat i)) [0 ..< unat bd] = map (elem_byte V) [0 ..< unat bd]"
  proof (rule map_cong)
    fix i assume "i \<in> set [0 ..< unat bd]"
    then have "unat (of_nat i :: u64) = i" "i < 4 * N" using sz(2) unat_less_64 [of bd] by (simp_all add: unat_of_nat_64)
    then show "wr (SC, 0) N V ?S SC (of_nat i) = elem_byte V i" by (simp add: wr_def)
  qed simp
  have "r_phase r = 2" using st by (simp add: cstate_def)
  then have "phase2 bd krn (r, d) = (XOk, r1\<lparr>r_c := map (\<lambda>i. wr (SC, 0) N V ?S SC (of_nat i)) [0 ..< unat bd], r_phase := 3\<rparr>, d)"
    unfolding phase2_def Let_def fst_conv snd_conv r1_def [symmetric] k by simp
  then have "r' = r1\<lparr>r_c := map (elem_byte V) [0 ..< unat bd], r_phase := 3\<rparr> \<and> rc = XOk \<and> d' = d"
    using run unfolding bytes by simp
  then show ?thesis using st by (simp add: cstate_def r1_def)
qed

lemma scatter_phase:
  assumes "mem_inv d" "e < SG_MAX_ENGINES" "cstate c b0 b1 bd V L 3 r d"
    "scatter e (dst c) bd (r_c r) (r, d) = (rc, r', d')"
  shows "same_host d d' \<and> (rc = XOk \<longrightarrow> logical d' = upd (dst c) 0 bd (\<lambda>i. Some (elem_byte V (unat i))) L) \<and>
    (rc \<noteq> XOk \<longrightarrow> cstate c b0 b1 bd V L 3 r' d')"
proof -
  have st: "r_gather r" "r_phase r = 3" "r_c r = map (elem_byte V) [0 ..< unat bd]" "r_done r \<le> bd"
    "logical d = upd (dst c) 0 (r_done r) (\<lambda>i. Some (elem_byte V (unat i))) L"
    using assms(3) by (auto simp: cstate_def)
  note sc = scatter_correct [OF assms(1,2) st(4) assms(4)]
  have "upd (dst c) (r_done r) (r_done r') (\<lambda>i. Some (buf_at (r_c r) i)) (logical d) =
      upd (dst c) (r_done r) (r_done r') (\<lambda>i. Some (elem_byte V (unat i))) (logical d)"
    using sc by (auto simp: upd_def fun_eq_iff buf_at_def st(3) word_less_unat word_le_unat)
  with sc have "logical d' = upd (dst c) (r_done r) (r_done r') (\<lambda>i. Some (elem_byte V (unat i))) (logical d)" by simp
  from upd_join [OF st(5) _ this] sc have L': "logical d' = upd (dst c) 0 (r_done r') (\<lambda>i. Some (elem_byte V (unat i))) L"
    by simp
  have r': "r' = r\<lparr>r_done := r_done r'\<rparr>" using sc by simp
  have "r_gather r'" "r_phase r' = 3" "r_c r' = r_c r" by (subst r', simp add: st)+
  then show ?thesis using sc L' st(3) by (auto simp: same_host_def cstate_def stop_ok_def)
qed

text \<open>The slow path, from any phase.\<close>

lemma slow_correct:
  assumes inv: "mem_inv d" and e: "e < SG_MAX_ENGINES" and st: "cstate c b0 b1 bd V L ph r d" and ph: "ph \<in> {0, 1, 3}"
    and sz: "4 * N + 4 < (2 :: nat) ^ 64" "unat bd = 4 * N" "unat b0 = 4 * n0" "unat b1 = 4 * n1"
    and V: "V = elem (dword L (src0 c)) (dword L (src1 c))"
    and run: "and_then (phase0 e (src0 c) b0 (r, d)) (\<lambda>s. and_then (phase1 e (src1 c) b1 s) (\<lambda>s.
      and_then (phase2 bd krn s) (\<lambda>s. scatter e (dst c) bd (r_c (fst s)) s))) = (rc, r', d')"
  shows "same_host d d' \<and> (rc = XOk \<longrightarrow> logical d' = upd (dst c) 0 bd (\<lambda>i. Some (elem_byte V (unat i))) L) \<and>
    (rc \<noteq> XOk \<longrightarrow> cprog c b0 b1 bd V L r' d')"
proof -
  obtain rc1 r1 d1 where p0: "phase0 e (src0 c) b0 (r, d) = (rc1, r1, d1)" by (metis prod_cases3)
  note c0 = phase0_correct [OF inv e st p0]
  show ?thesis
  proof (cases "rc1 = XOk")
    case False
    then have "rc = rc1" "r' = r1" "d' = d1" using run p0 by (auto simp: and_then_def split: xrc.splits)
    with False c0 show ?thesis by (auto simp: cprog_def)
  next
    case ok0: True
    define ph1 where "ph1 = (if ph = 0 then 1 else ph)"
    have st1: "cstate c b0 b1 bd V L ph1 r1 d1" using c0 ok0 st by (auto simp: ph1_def split: if_splits)
    have inv1: "mem_inv d1" using c0 by (simp add: same_host_def)
    obtain rc2 r2 d2 where p1: "phase1 e (src1 c) b1 (r1, d1) = (rc2, r2, d2)" by (metis prod_cases3)
    note c1 = phase1_correct [OF inv1 e st1 p1]
    show ?thesis
    proof (cases "rc2 = XOk")
      case False
      then have "rc = rc2" "r' = r2" "d' = d2" using run p0 p1 ok0 by (auto simp: and_then_def split: xrc.splits)
      with False c0 c1 show ?thesis by (auto simp: cprog_def intro: same_host_trans)
    next
      case ok1: True
      have inv2: "mem_inv d2" and sh2: "same_host d d2" using c0 c1 by (auto simp: same_host_def intro: same_map_trans)
      obtain rc3 r3 d3 where p2: "phase2 bd krn (r2, d2) = (rc3, r3, d3)" by (metis prod_cases3)
      have st3: "rc3 = XOk \<and> d3 = d2 \<and> cstate c b0 b1 bd V L 3 r3 d3"
      proof (cases "ph1 = 1")
        case True
        then have "cstate c b0 b1 bd V L 2 r2 d2" using c1 ok1 by simp
        from phase2_correct [OF this sz V p2] show ?thesis .
      next
        case False
        then have "cstate c b0 b1 bd V L 3 r2 d2" using c1 ok1 st1 ph by (auto simp: ph1_def split: if_splits)
        moreover from this have "r_phase r2 = 3" by (simp add: cstate_def)
        ultimately show ?thesis using p2 by (auto simp: phase2_def)
      qed
      have sc: "scatter e (dst c) bd (r_c r3) (r3, d2) = (rc, r', d')"
        using run p0 p1 p2 ok0 ok1 st3 by (simp add: and_then_def)
      from st3 have "cstate c b0 b1 bd V L 3 r3 d2" by auto
      from scatter_phase [OF inv2 e this sc] sh2 show ?thesis by (auto simp: cprog_def intro: same_host_trans)
    qed
  qed
qed

text \<open>The fast path: every operand is one resident run.\<close>

lemma fast_correct:
  assumes inv: "mem_inv d" and L: "logical d = L"
    and pok: "ptr_ok (dm_mmu d) False (src0 c) b0 q0" "ptr_ok (dm_mmu d) False (src1 c) b1 q1" "ptr_ok (dm_mmu d) True (dst c) bd qd"
    and sz: "4 * N + 4 < (2 :: nat) ^ 64" "unat bd = 4 * N" "unat b0 = 4 * n0" "unat b1 = 4 * n1"
    and ap: "\<And>q. q < n0 \<Longrightarrow> va_apart (dst c) (K0 q) (src0 c) q" "\<And>q. q < n1 \<Longrightarrow> va_apart (dst c) (K1 q) (src1 c) q"
    and V: "V = elem (dword L (src0 c)) (dword L (src1 c))"
    and d': "d' = d\<lparr>dm_vram := krn (vram_ptr qd) (vram_ptr q0) (vram_ptr q1) (vram_store d) SVram\<rparr>"
  shows "mem_inv d' \<and> logical d' = upd (dst c) 0 bd (\<lambda>i. Some (elem_byte V (unat i))) L"
proof -
  let ?S = "vram_store d" and ?d = "vram_ptr qd"
  have "krn ?d (vram_ptr q0) (vram_ptr q1) ?S = wr ?d N (elem (load32 ?S (vram_ptr q0)) (load32 ?S (vram_ptr q1))) ?S"
  proof (rule correct [OF sz(1)])
    show "apart ?d (K0 q) (vram_ptr q0) q" if "q < n0" for q
      by (rule apart_vram [OF inv pok(3,1) ap(1) [OF that]]) (use that sz K_le(1) [OF that] in simp_all)
    show "apart ?d (K1 q) (vram_ptr q1) q" if "q < n1" for q
      by (rule apart_vram [OF inv pok(3,2) ap(2) [OF that]]) (use that sz K_le(2) [OF that] in simp_all)
  qed
  also have "\<dots> = wr ?d N V ?S"
    unfolding V L [symmetric]
    by (rule wr_elem) (use sz in \<open>auto intro!: load32_vram [OF pok(1)] load32_vram [OF pok(2)]\<close>)
  finally have k: "krn ?d (vram_ptr q0) (vram_ptr q1) ?S = wr ?d N V ?S" .
  show ?thesis
  proof (cases qd)
    case None
    then have "bd = 0" "N = 0" using pok(3) sz(2) by (auto simp: ptr_ok_def)
    then have "d' = d" unfolding d' k by (simp add: vram_store_def)
    with \<open>bd = 0\<close> inv L show ?thesis by simp
  next
    case (Some b)
    define f where "f = wr ?d N V ?S SVram"
    have f: "f = (\<lambda>x. if x - b < bd then elem_byte V (unat (x - b)) else dm_vram d x)"
      by (auto simp: f_def wr_def vram_ptr_def Some vram_store_def word_less_unat sz(2))
    have ok: "run_ok (dm_mmu d) True (dst c) b bd" using pok(3) Some by (simp add: ptr_ok_def)
    have d'f: "d' = d\<lparr>dm_vram := f\<rparr>" unfolding d' k f_def ..
    have keep: "\<not> x - b < bd \<Longrightarrow> f x = dm_vram d x" for x by (simp add: f)
    have "logical d' x = upd (dst c) 0 bd (\<lambda>i. Some (elem_byte V (unat i))) L x" for x
      using store_run(2) [OF inv ok keep, of x] L by (simp add: d'f upd_def f)
    then show ?thesis using store_run(1) [OF inv ok keep] by (auto simp: d'f)
  qed
qed

lemma compute_correct:
  assumes inv: "mem_inv d" and e: "e < SG_MAX_ENGINES" and pr: "cprog c b0 b1 bd V L r d"
    and sz: "4 * N + 4 < (2 :: nat) ^ 64" "unat bd = 4 * N" "unat b0 = 4 * n0" "unat b1 = 4 * n1"
    and ap: "\<And>q. q < n0 \<Longrightarrow> va_apart (dst c) (K0 q) (src0 c) q" "\<And>q. q < n1 \<Longrightarrow> va_apart (dst c) (K1 q) (src1 c) q"
    and V: "V = elem (dword L (src0 c)) (dword L (src1 c))"
    and run: "compute e c b0 b1 bd krn (r, d) = (rc, r', d')"
  shows "same_host d d' \<and> (rc = XOk \<longrightarrow> logical d' = upd (dst c) 0 bd (\<lambda>i. Some (elem_byte V (unat i))) L) \<and>
    (\<forall>f. rc = XFault f \<longrightarrow> cprog c b0 b1 bd V L r' d')"
proof (cases "r_gather r")
  case True
  then have "r \<noteq> fresh_replay" by (auto simp: fresh_replay_def)
  with pr obtain ph where st: "cstate c b0 b1 bd V L ph r d" "ph \<in> {0, 1, 3}" by (auto simp: cprog_def)
  from run True have "and_then (phase0 e (src0 c) b0 (r, d)) (\<lambda>s. and_then (phase1 e (src1 c) b1 s) (\<lambda>s.
      and_then (phase2 bd krn s) (\<lambda>s. scatter e (dst c) bd (r_c (fst s)) s))) = (rc, r', d')"
    by (simp add: compute_def)
  from slow_correct [OF inv e st sz V this] show ?thesis by auto
next
  case False
  then have fresh: "r = fresh_replay" and L: "logical d = L" using pr by (auto simp: cprog_def cstate_def)
  obtain x d1 where ra: "resolve_all e [(src0 c, b0, False), (src1 c, b1, False), (dst c, bd, True)] d = (x, d1)"
    by fastforce
  note rc = resolve_all_correct [OF inv e ra]
  have d1: "d1 = d\<lparr>dm_mmu := dm_mmu d1\<rparr>" and inv1: "mem_inv d1" and sm: "same_map (dm_mmu d) (dm_mmu d1)"
    using rc by blast+
  have L1: "logical d1 = L" using logical_same_map [OF sm] d1 L by metis
  have h1: "dm_host d1 = dm_host d" by (subst d1) simp
  have sh1: "same_host d d1" using inv1 sm h1 by (simp add: same_host_def)
  let ?r = "r\<lparr>r_gather := True\<rparr>"
  have st: "cstate c b0 b1 bd V L 0 ?r d1" using L1 by (simp add: cstate_def fresh fresh_replay_def)
  show ?thesis
  proof (cases x)
    case (Inr ps)
    with rc obtain q0 q1 qd where ps: "ps = [q0, q1, qd]"
      and pok: "ptr_ok (dm_mmu d1) False (src0 c) b0 q0" "ptr_ok (dm_mmu d1) False (src1 c) b1 q1"
        "ptr_ok (dm_mmu d1) True (dst c) bd qd"
      by (auto simp: list_all2_Cons1)
    have res: "rc = XOk" "d' = d1\<lparr>dm_vram := krn (vram_ptr qd) (vram_ptr q0) (vram_ptr q1) (vram_store d1) SVram\<rparr>"
      using run False ra Inr ps by (auto simp: compute_def numeral_2_eq_2)
    from fast_correct [OF inv1 L1 pok sz ap V res(2)] res sh1 show ?thesis
      by (auto simp: same_host_def)
  next
    case (Inl y)
    show ?thesis
    proof (cases "\<exists>f. y = RPageFault f")
      case True
      then have "r' = ?r" "d' = d1" using run False ra Inl by (auto simp: compute_def fall_back_def)
      moreover have "rc \<noteq> XOk" using run False ra Inl True by (auto simp: compute_def fall_back_def)
      ultimately show ?thesis using sh1 st by (auto simp: cprog_def)
    next
      case nf: False
      show ?thesis
      proof (cases "\<exists>er. y = RError er")
        case True
        then show ?thesis using run False ra Inl sh1 by (auto simp: compute_def fall_back_def)
      next
        case False
        with nf have "y = RSplit \<or> (\<exists>p. y = RPtr p)" by (cases y) auto
        then have "and_then (phase0 e (src0 c) b0 (?r, d1)) (\<lambda>s. and_then (phase1 e (src1 c) b1 s) (\<lambda>s.
            and_then (phase2 bd krn s) (\<lambda>s. scatter e (dst c) bd (r_c (fst s)) s))) = (rc, r', d')"
          using run \<open>\<not> r_gather r\<close> ra Inl by (auto simp: compute_def fall_back_def)
        from slow_correct [OF inv1 e st _ sz V this] sh1 show ?thesis by (auto intro: same_host_trans)
      qed
    qed
  qed
qed

end

interpretation vadd: compute_kernel "vadd_kernel fadd n" "unat n" "unat n" "unat n" "\<lambda>q. q" "\<lambda>q. q"
  "\<lambda>A B i. fadd (A i) (B i)" for fadd n
  by unfold_locales (simp_all add: vadd_kernel_correct vadd_elem_def [abs_def])

lemma gemm_elem_cong:
  assumes "\<And>q. q < m * k \<Longrightarrow> A q = A' q" "\<And>q. q < k * n \<Longrightarrow> B q = B' q" "i < m * n"
  shows "gemm_elem fadd fmul n k A B i = gemm_elem fadd fmul n k A' B' i"
proof -
  have n: "0 < n" using assms(3) by (cases n) auto
  have "fmul (A (i div n * k + p)) (B (p * n + i mod n)) = fmul (A' (i div n * k + p)) (B' (p * n + i mod n))"
    if p: "p < k" for p
  proof -
    have "i div n < m" using assms(3) n by (simp add: less_mult_imp_div_less mult.commute)
    then have "i div n * k + p < m * k"
      using p by (metis Suc_le_eq add.commute add_less_cancel_left less_le_trans mult_Suc mult_le_mono1)
    moreover have "p * n + i mod n < k * n"
      using p n by (metis Suc_le_eq add.commute add_less_cancel_left less_le_trans mod_less_divisor mult_Suc mult_le_mono1)
    ultimately show ?thesis using assms(1,2) by simp
  qed
  then show ?thesis unfolding gemm_elem_def dot_def by (intro fold_cong) auto
qed

interpretation gemm: compute_kernel "gemm_kernel fadd fmul m n k" "unat m * unat n" "unat m * unat k" "unat k * unat n"
  "\<lambda>_. unat m * unat n" "\<lambda>_. unat m * unat n" "gemm_elem fadd fmul (unat n) (unat k)" for fadd fmul m n k
  by unfold_locales (auto simp: gemm_kernel_correct intro: gemm_elem_cong)

section \<open>Device-to-device copies\<close>

definition d2d_overlap :: "sg_cmd \<Rightarrow> bool" where
  "d2d_overlap c \<longleftrightarrow> cmd_size c \<noteq> 0 \<and> dst c < src0 c + cmd_size c \<and> src0 c < dst c + cmd_size c"

lemma d2d_disjoint:
  assumes "\<not> d2d_overlap c" "unat (dst c) + unat (cmd_size c) < 2 ^ 64" "unat (src0 c) + unat (cmd_size c) < 2 ^ 64" "i < cmd_size c"
  shows "\<not> src0 c + i - dst c < cmd_size c"
proof -
  have i: "unat i < unat (cmd_size c)" "cmd_size c \<noteq> 0" using assms(4) by (auto simp: word_less_unat)
  have si: "unat (src0 c + i) = unat (src0 c) + unat i" by (rule unat_add_64) (use i assms(3) in simp)
  note d = unat_add_64 [OF assms(2)] and s = unat_add_64 [OF assms(3)]
  have "unat (src0 c) + unat (cmd_size c) \<le> unat (dst c) \<or> unat (dst c) + unat (cmd_size c) \<le> unat (src0 c)"
    using assms(1) i(2) d s by (auto simp: d2d_overlap_def word_less_unat)
  then show ?thesis
    unfolding sub_less_iff [OF d] using si d i(1) by (auto simp: word_less_unat word_le_unat)
qed

definition d2d_prog :: "sg_cmd \<Rightarrow> (u64 \<Rightarrow> u8 option) \<Rightarrow> replay \<Rightarrow> dev_mem \<Rightarrow> bool" where
  "d2d_prog c L r d \<longleftrightarrow>
     (let F = (\<lambda>i. Some (the (L (src0 c + i)))) in
      if \<not> d2d_overlap c then r_done r \<le> cmd_size c \<and> logical d = upd (dst c) 0 (r_done r) F L
      else r = fresh_replay \<and> logical d = L \<or> cstate c (cmd_size c) 0 0 (\<lambda>_. 0) L 0 r d \<or>
        r_gather r \<and> r_phase r = 1 \<and> r_a r = range_bytes L (src0 c) (cmd_size c) \<and> r_done r \<le> cmd_size c \<and>
        logical d = upd (dst c) 0 (r_done r) F L)"

lemma d2d_scatter:
  assumes "mem_inv d" "e < SG_MAX_ENGINES" "r_done r \<le> cmd_size c" "r_a r = range_bytes L (src0 c) (cmd_size c)"
    "logical d = upd (dst c) 0 (r_done r) (\<lambda>i. Some (the (L (src0 c + i)))) L"
    "scatter e (dst c) (cmd_size c) (r_a r) (r, d) = (rc, r', d')"
  shows "same_host d d' \<and> r' = r\<lparr>r_done := r_done r'\<rparr> \<and> r_done r' \<le> cmd_size c \<and> (rc = XOk \<longrightarrow> r_done r' = cmd_size c) \<and>
    logical d' = upd (dst c) 0 (r_done r') (\<lambda>i. Some (the (L (src0 c + i)))) L"
proof -
  note sc = scatter_correct [OF assms(1-3,6)]
  have "upd (dst c) (r_done r) (r_done r') (\<lambda>i. Some (buf_at (r_a r) i)) (logical d) =
      upd (dst c) (r_done r) (r_done r') (\<lambda>i. Some (the (L (src0 c + i)))) (logical d)"
    using sc by (auto simp: upd_def fun_eq_iff buf_at_def assms(4) range_bytes_def word_less_unat word_le_unat)
  with sc upd_join [OF assms(5)] show ?thesis by (auto simp: same_host_def stop_ok_def)
qed

lemma d2d_slow:
  assumes inv: "mem_inv d" and e: "e < SG_MAX_ENGINES" and ov: "d2d_overlap c" and pr: "d2d_prog c L r d" "r_gather r"
    and run: "and_then (phase0 e (src0 c) (cmd_size c) (r, d))
      (\<lambda>s. scatter e (dst c) (cmd_size c) (r_a (fst s)) s) = (rc, r', d')"
  shows "same_host d d' \<and> (rc = XOk \<longrightarrow> logical d' = upd (dst c) 0 (cmd_size c) (\<lambda>i. Some (the (L (src0 c + i)))) L) \<and>
    (rc \<noteq> XOk \<longrightarrow> d2d_prog c L r' d')"
proof -
  let ?F = "\<lambda>i. Some (the (L (src0 c + i)))"
  have nf: "r \<noteq> fresh_replay" using pr(2) by (auto simp: fresh_replay_def)
  have scat: "same_host d1 d' \<and> (rc = XOk \<longrightarrow> logical d' = upd (dst c) 0 (cmd_size c) ?F L) \<and> d2d_prog c L r' d'"
    if a: "mem_inv d1" "scatter e (dst c) (cmd_size c) (r_a r1) (r1, d1) = (rc, r', d')" "r_gather r1" "r_phase r1 = 1"
      "r_a r1 = range_bytes L (src0 c) (cmd_size c)" "r_done r1 \<le> cmd_size c" "logical d1 = upd (dst c) 0 (r_done r1) ?F L"
    for r1 d1
  proof -
    note sc = d2d_scatter [OF a(1) e a(6,5,7,2)]
    then have r': "r' = r1\<lparr>r_done := r_done r'\<rparr>" by simp
    have "r_gather r'" "r_phase r' = 1" "r_a r' = r_a r1" by (subst r', simp add: a)+
    with sc a(5) ov show ?thesis by (auto simp: d2d_prog_def Let_def)
  qed
  show ?thesis
  proof (cases "r_phase r = 0")
    case True
    then have st: "cstate c (cmd_size c) 0 0 (\<lambda>_. 0) L 0 r d" using pr nf ov by (auto simp: d2d_prog_def Let_def)
    obtain rc1 r1 d1 where p0: "phase0 e (src0 c) (cmd_size c) (r, d) = (rc1, r1, d1)" by (metis prod_cases3)
    note c0 = phase0_correct [OF inv e st p0]
    show ?thesis
    proof (cases "rc1 = XOk")
      case ok: True
      then have "scatter e (dst c) (cmd_size c) (r_a r1) (r1, d1) = (rc, r', d')" using run p0 by (simp add: and_then_def)
      from scat [OF _ this] c0 ok show ?thesis by (auto simp: same_host_def cstate_def intro: same_map_trans)
    next
      case False
      then have "rc = rc1" "r' = r1" "d' = d1" using run p0 by (auto simp: and_then_def split: xrc.splits)
      with c0 False ov show ?thesis by (auto simp: d2d_prog_def Let_def)
    qed
  next
    case False
    then have "scatter e (dst c) (cmd_size c) (r_a r) (r, d) = (rc, r', d')" using run by (simp add: phase0_def and_then_def)
    from scat [OF inv this] False pr nf ov show ?thesis by (auto simp: d2d_prog_def Let_def cstate_def)
  qed
qed

lemma copy_d2d_correct:
  assumes inv: "mem_inv d" and e: "e < SG_MAX_ENGINES" and pr: "d2d_prog c L r d"
    and nw: "unat (dst c) + unat (cmd_size c) < 2 ^ 64" "unat (src0 c) + unat (cmd_size c) < 2 ^ 64"
    and run: "copy_d2d e c (r, d) = (rc, r', d')"
  shows "same_host d d' \<and> (rc = XOk \<longrightarrow> logical d' = upd (dst c) 0 (cmd_size c) (\<lambda>i. Some (the (L (src0 c + i)))) L) \<and>
    (\<forall>f. rc = XFault f \<longrightarrow> d2d_prog c L r' d')"
proof (cases "d2d_overlap c")
  case False
  then have "d2d_runs e c (r, d) = (rc, r', d')" using run by (auto simp: copy_d2d_def d2d_overlap_def)
  from d2d_runs_correct [OF inv e _ this _ d2d_disjoint [OF False nw]] pr False show ?thesis
    by (auto simp: d2d_prog_def Let_def same_host_def)
next
  case ov: True
  let ?slow = "\<lambda>s. and_then (phase0 e (src0 c) (cmd_size c) s) (\<lambda>s. scatter e (dst c) (cmd_size c) (r_a (fst s)) s)"
  show ?thesis
  proof (cases "r_gather r")
    case True
    then have "?slow (r, d) = (rc, r', d')" using run ov by (simp add: copy_d2d_def d2d_overlap_def)
    from d2d_slow [OF inv e ov pr True this] show ?thesis by auto
  next
    case ng: False
    then have fresh: "r = fresh_replay" and L: "logical d = L" using pr ov by (auto simp: d2d_prog_def Let_def cstate_def)
    obtain x d1 where ra: "resolve_all e [(dst c, cmd_size c, True), (src0 c, cmd_size c, False)] d = (x, d1)" by fastforce
    note rc = resolve_all_correct [OF inv e ra]
    have d1: "d1 = d\<lparr>dm_mmu := dm_mmu d1\<rparr>" and inv1: "mem_inv d1" and sm: "same_map (dm_mmu d) (dm_mmu d1)"
      using rc by blast+
    have L1: "logical d1 = L" using logical_same_map [OF sm] d1 L by metis
    have h1: "dm_host d1 = dm_host d" by (subst d1) simp
    have sh1: "same_host d d1" using inv1 sm h1 by (simp add: same_host_def)
    let ?r = "r\<lparr>r_gather := True\<rparr>"
    have pr1: "d2d_prog c L ?r d1" using L1 ov by (simp add: d2d_prog_def Let_def cstate_def fresh fresh_replay_def)
    have unf: "copy_d2d e c (r, d) = (case resolve_all e [(dst c, cmd_size c, True), (src0 c, cmd_size c, False)] d of
        (Inr ps, d) \<Rightarrow> (XOk, r, d\<lparr>dm_vram := blit (the (ps ! 0)) (the (ps ! 1)) (cmd_size c) (dm_vram d) (dm_vram d)\<rparr>)
      | (Inl x, d) \<Rightarrow> fall_back x ?slow (r, d))"
      using ov ng unfolding copy_d2d_def Let_def fst_conv snd_conv by (simp add: d2d_overlap_def del: resolve_all.simps)
    show ?thesis
    proof (cases x)
      case (Inr ps)
      with rc obtain qd q0 where ps: "ps = [qd, q0]" and pok: "ptr_ok (dm_mmu d1) True (dst c) (cmd_size c) qd"
        "ptr_ok (dm_mmu d1) False (src0 c) (cmd_size c) q0"
        by (auto simp: list_all2_Cons1)
      have "cmd_size c \<noteq> 0" using ov by (simp add: d2d_overlap_def)
      with pok obtain pd p0 where q: "qd = Some pd" "q0 = Some p0" by (auto simp: ptr_ok_def split: option.splits)
      define V where "V = blit pd p0 (cmd_size c) (dm_vram d1) (dm_vram d1)"
      have res: "rc = XOk" "d' = d1\<lparr>dm_vram := V\<rparr>" using run unf ra Inr ps q by (simp_all add: V_def)
      have okd: "run_ok (dm_mmu d1) True (dst c) pd (cmd_size c)" and oks: "run_ok (dm_mmu d1) False (src0 c) p0 (cmd_size c)"
        using pok q by (simp_all add: ptr_ok_def)
      have keep: "\<not> x - pd < cmd_size c \<Longrightarrow> V x = dm_vram d1 x" for x by (simp add: V_def blit_def)
      have "logical d' x = upd (dst c) 0 (cmd_size c) (\<lambda>i. Some (the (L (src0 c + i)))) L x" for x
        using store_run(2) [OF inv1 okd keep, of x] load_run [OF oks] L1 by (auto simp: res V_def blit_def upd_def)
      then show ?thesis using store_run(1) [OF inv1 okd keep] sh1 res by (auto simp: same_host_def)
    next
      case (Inl y)
      have run': "fall_back y ?slow (r, d1) = (rc, r', d')" using run unf ra Inl by simp
      show ?thesis
      proof (cases y)
        case (RPageFault f)
        with run' sh1 pr1 show ?thesis by (auto simp: fall_back_def)
      next
        case (RError er)
        with run' sh1 show ?thesis by (auto simp: fall_back_def)
      next
        case RSplit
        with run' have "?slow (?r, d1) = (rc, r', d')" by (simp add: fall_back_def)
        from d2d_slow [OF inv1 e ov pr1 _ this] sh1 show ?thesis by (auto intro: same_host_trans)
      next
        case (RPtr q)
        with run' have "?slow (?r, d1) = (rc, r', d')" by (simp add: fall_back_def)
        from d2d_slow [OF inv1 e ov pr1 _ this] sh1 show ?thesis by (auto intro: same_host_trans)
      qed
    qed
  qed
qed

section \<open>Specification of a command\<close>

definition fill_byte :: "sg_cmd \<Rightarrow> u8" where
  "fill_byte c = ucast (val c AND 0xff)"

definition vadd_val :: "(u32 \<Rightarrow> u32 \<Rightarrow> u32) \<Rightarrow> sg_cmd \<Rightarrow> (u64 \<Rightarrow> u8 option) \<Rightarrow> nat \<Rightarrow> u32" where
  "vadd_val fadd c L = (\<lambda>q. fadd (dword L (src0 c) q) (dword L (src1 c) q))"

definition gemm_val :: "(u32 \<Rightarrow> u32 \<Rightarrow> u32) \<Rightarrow> (u32 \<Rightarrow> u32 \<Rightarrow> u32) \<Rightarrow> sg_cmd \<Rightarrow> (u64 \<Rightarrow> u8 option) \<Rightarrow> nat \<Rightarrow> u32" where
  "gemm_val fadd fmul c L = gemm_elem fadd fmul (unat (arg1 c)) (unat (arg2 c)) (dword L (src0 c)) (dword L (src1 c))"

text \<open>Device memory contents and host memory after the command.\<close>

definition cmd_effect :: "(u32 \<Rightarrow> u32 \<Rightarrow> u32) \<Rightarrow> (u32 \<Rightarrow> u32 \<Rightarrow> u32) \<Rightarrow> sg_cmd \<Rightarrow> (u64 \<Rightarrow> u8 option) \<Rightarrow> (u64 \<Rightarrow> u8) \<Rightarrow>
    (u64 \<Rightarrow> u8 option) \<times> (u64 \<Rightarrow> u8)" where
  "cmd_effect fadd fmul c L H =
     (if opcode c = SG_OP_FILL then (upd (dst c) 0 (cmd_size c) (\<lambda>_. Some (fill_byte c)) L, H)
      else if opcode c = SG_OP_COPY_H2D then (upd (dst c) 0 (cmd_size c) (\<lambda>i. Some (H (src0 c + i))) L, H)
      else if opcode c = SG_OP_COPY_D2H then (L, upd (dst c) 0 (cmd_size c) (\<lambda>i. the (L (src0 c + i))) H)
      else if opcode c = SG_OP_COPY_D2D then (upd (dst c) 0 (cmd_size c) (\<lambda>i. Some (the (L (src0 c + i)))) L, H)
      else if opcode c = SG_OP_VADD_F32 then
        (upd (dst c) 0 (ucast (arg0 c) * 4) (\<lambda>i. Some (elem_byte (vadd_val fadd c L) (unat i))) L, H)
      else if opcode c = SG_OP_GEMM_F32 then
        (upd (dst c) 0 (ucast (arg0 c) * ucast (arg1 c) * 4) (\<lambda>i. Some (elem_byte (gemm_val fadd fmul c L) (unat i))) L, H)
      else (L, H))"

text \<open>What a submitter has to respect: host ranges of copies hold no backing of managed pages, copied
  ranges do not wrap, \<open>VADD\<close> does not overwrite a source element before it is read, and \<open>GEMM\<close>'s
  destination is apart from its sources and its operands' sizes fit in 64 bits.\<close>

definition cmd_wf :: "sg_cmd \<Rightarrow> (u64 \<Rightarrow> bool) \<Rightarrow> bool" where
  "cmd_wf c B \<longleftrightarrow>
     (opcode c = SG_OP_COPY_H2D \<longrightarrow> (\<forall>x. x - src0 c < cmd_size c \<longrightarrow> \<not> B x)) \<and>
     (opcode c = SG_OP_COPY_D2H \<longrightarrow> (\<forall>x. x - dst c < cmd_size c \<longrightarrow> \<not> B x)) \<and>
     (opcode c = SG_OP_COPY_D2D \<longrightarrow> unat (dst c) + unat (cmd_size c) < 2 ^ 64 \<and> unat (src0 c) + unat (cmd_size c) < 2 ^ 64) \<and>
     (opcode c = SG_OP_VADD_F32 \<longrightarrow> (\<forall>q < unat (arg0 c). va_apart (dst c) q (src0 c) q \<and> va_apart (dst c) q (src1 c) q)) \<and>
     (opcode c = SG_OP_GEMM_F32 \<longrightarrow>
        (let m = unat (arg0 c); n = unat (arg1 c); k = unat (arg2 c) in
         4 * (m * n) + 4 < 2 ^ 64 \<and> 4 * (m * k) < 2 ^ 64 \<and> 4 * (k * n) < 2 ^ 64 \<and>
         (\<forall>q < m * k. va_apart (dst c) (m * n) (src0 c) q) \<and> (\<forall>q < k * n. va_apart (dst c) (m * n) (src1 c) q)))"

text \<open>What the rest of the driver may do while a command is parked: migrate, evict and translate,
  which keep the contents and write host memory only where it backs managed pages.\<close>

definition env :: "dev_mem \<Rightarrow> dev_mem \<Rightarrow> bool" where
  "env d d' \<longleftrightarrow> mem_inv d' \<and> logical d' = logical d \<and> backs (dm_mmu d') = backs (dm_mmu d) \<and>
     (\<forall>x. \<not> backs (dm_mmu d) x \<longrightarrow> dm_host d' x = dm_host d x)"

text \<open>A command from its first execution to its end, retried after every fault.\<close>

inductive cmd_run :: "(u32 \<Rightarrow> u32 \<Rightarrow> u32) \<Rightarrow> (u32 \<Rightarrow> u32 \<Rightarrow> u32) \<Rightarrow> u32 \<Rightarrow> sg_cmd \<Rightarrow> replay \<Rightarrow> dev_mem \<Rightarrow> xrc \<Rightarrow> dev_mem \<Rightarrow> bool"
  for fadd fmul e c where
  finish: "execute fadd fmul e c (r, d) = (rc, r', d') \<Longrightarrow> (\<forall>f. rc \<noteq> XFault f) \<Longrightarrow> cmd_run fadd fmul e c r d rc d'"
| fault: "execute fadd fmul e c (r, d) = (XFault f, r', d1) \<Longrightarrow> env d1 d2 \<Longrightarrow> cmd_run fadd fmul e c r' d2 rc d' \<Longrightarrow>
    cmd_run fadd fmul e c r d rc d'"

definition op_prog :: "(u32 \<Rightarrow> u32 \<Rightarrow> u32) \<Rightarrow> (u32 \<Rightarrow> u32 \<Rightarrow> u32) \<Rightarrow> sg_cmd \<Rightarrow> (u64 \<Rightarrow> u8 option) \<Rightarrow> (u64 \<Rightarrow> u8) \<Rightarrow> replay \<Rightarrow> dev_mem \<Rightarrow> bool" where
  "op_prog fadd fmul c L H r d \<longleftrightarrow>
     (if opcode c = SG_OP_FILL then r_done r \<le> cmd_size c \<and> logical d = upd (dst c) 0 (r_done r) (\<lambda>_. Some (fill_byte c)) L
      else if opcode c = SG_OP_COPY_H2D then
        r_done r \<le> cmd_size c \<and> logical d = upd (dst c) 0 (r_done r) (\<lambda>i. Some (H (src0 c + i))) L
      else if opcode c = SG_OP_COPY_D2H then r_done r \<le> cmd_size c \<and> logical d = L
      else if opcode c = SG_OP_COPY_D2D then d2d_prog c L r d
      else if opcode c = SG_OP_VADD_F32 then
        let b = ucast (arg0 c) * 4 in cprog c b b b (vadd_val fadd c L) L r d
      else if opcode c = SG_OP_GEMM_F32 then
        let m = ucast (arg0 c); n = ucast (arg1 c); k = ucast (arg2 c)
        in cprog c (m * k * 4) (k * n * 4) (m * n * 4) (gemm_val fadd fmul c L) L r d
      else logical d = L)"

definition host_prog :: "sg_cmd \<Rightarrow> (u64 \<Rightarrow> bool) \<Rightarrow> (u64 \<Rightarrow> u8 option) \<Rightarrow> (u64 \<Rightarrow> u8) \<Rightarrow> replay \<Rightarrow> dev_mem \<Rightarrow> bool" where
  "host_prog c B L H r d \<longleftrightarrow> backs (dm_mmu d) = B \<and>
     (\<forall>x. \<not> B x \<longrightarrow> dm_host d x = (if opcode c = SG_OP_COPY_D2H
        then upd (dst c) 0 (r_done r) (\<lambda>i. the (L (src0 c + i))) H x else H x))"

definition cmd_prog :: "(u32 \<Rightarrow> u32 \<Rightarrow> u32) \<Rightarrow> (u32 \<Rightarrow> u32 \<Rightarrow> u32) \<Rightarrow> sg_cmd \<Rightarrow> (u64 \<Rightarrow> bool) \<Rightarrow> (u64 \<Rightarrow> u8 option) \<Rightarrow> (u64 \<Rightarrow> u8) \<Rightarrow>
    replay \<Rightarrow> dev_mem \<Rightarrow> bool" where
  "cmd_prog fadd fmul c B L H r d \<longleftrightarrow> mem_inv d \<and> host_prog c B L H r d \<and> op_prog fadd fmul c L H r d"

lemma op_distinct [simp]:
  "SG_OP_COPY_H2D \<noteq> SG_OP_FILL" "SG_OP_COPY_D2H \<noteq> SG_OP_FILL" "SG_OP_COPY_D2H \<noteq> SG_OP_COPY_H2D"
  "SG_OP_COPY_D2D \<noteq> SG_OP_FILL" "SG_OP_COPY_D2D \<noteq> SG_OP_COPY_H2D" "SG_OP_COPY_D2D \<noteq> SG_OP_COPY_D2H"
  "SG_OP_VADD_F32 \<noteq> SG_OP_FILL" "SG_OP_VADD_F32 \<noteq> SG_OP_COPY_H2D" "SG_OP_VADD_F32 \<noteq> SG_OP_COPY_D2H"
  "SG_OP_VADD_F32 \<noteq> SG_OP_COPY_D2D" "SG_OP_GEMM_F32 \<noteq> SG_OP_FILL" "SG_OP_GEMM_F32 \<noteq> SG_OP_COPY_H2D"
  "SG_OP_GEMM_F32 \<noteq> SG_OP_COPY_D2H" "SG_OP_GEMM_F32 \<noteq> SG_OP_COPY_D2D" "SG_OP_GEMM_F32 \<noteq> SG_OP_VADD_F32"
  "SG_OP_FILL \<noteq> SG_OP_NOP" "SG_OP_COPY_H2D \<noteq> SG_OP_NOP" "SG_OP_COPY_D2H \<noteq> SG_OP_NOP" "SG_OP_COPY_D2D \<noteq> SG_OP_NOP"
  "SG_OP_VADD_F32 \<noteq> SG_OP_NOP" "SG_OP_GEMM_F32 \<noteq> SG_OP_NOP"
  by (simp_all add: sg_ops)

lemmas op_distinct_sym [simp] = op_distinct [symmetric]

lemma cmd_prog_start:
  assumes "mem_inv d"
  shows "cmd_prog fadd fmul c (backs (dm_mmu d)) (logical d) (dm_host d) fresh_replay d"
proof -
  have "r_done fresh_replay = 0" by (simp add: fresh_replay_def)
  then show ?thesis
    using assms by (simp add: cmd_prog_def host_prog_def op_prog_def d2d_prog_def cprog_def Let_def)
qed

lemma op_prog_cong: "logical d' = logical d \<Longrightarrow> op_prog fadd fmul c L H r d' = op_prog fadd fmul c L H r d"
  by (simp only: op_prog_def d2d_prog_def cprog_def cstate_def)

lemma cmd_prog_env: "cmd_prog fadd fmul c B L H r d \<Longrightarrow> env d d' \<Longrightarrow> cmd_prog fadd fmul c B L H r d'"
  using op_prog_cong [of d' d fadd fmul c L H r] by (auto simp: cmd_prog_def host_prog_def env_def)

lemma backs_same_map: "same_map m m' \<Longrightarrow> backs m' = backs m"
  using same_map_views [of m m'] by (simp add: backs_def fun_eq_iff same_map_def)

text \<open>One execution of a command, from any progress.\<close>

definition step_ok :: "(u32 \<Rightarrow> u32 \<Rightarrow> u32) \<Rightarrow> (u32 \<Rightarrow> u32 \<Rightarrow> u32) \<Rightarrow> sg_cmd \<Rightarrow> (u64 \<Rightarrow> bool) \<Rightarrow> (u64 \<Rightarrow> u8 option) \<Rightarrow> (u64 \<Rightarrow> u8) \<Rightarrow>
    xrc \<Rightarrow> replay \<Rightarrow> dev_mem \<Rightarrow> bool" where
  "step_ok fadd fmul c B L H rc r' d' \<longleftrightarrow> mem_inv d' \<and> backs (dm_mmu d') = B \<and>
     (rc = XOk \<longrightarrow> logical d' = fst (cmd_effect fadd fmul c L H) \<and>
        (\<forall>x. \<not> B x \<longrightarrow> dm_host d' x = snd (cmd_effect fadd fmul c L H) x)) \<and>
     (\<forall>f. rc = XFault f \<longrightarrow> cmd_prog fadd fmul c B L H r' d')"

lemma step_ok_same_host:
  assumes "cmd_prog fadd fmul c B L H r d" "same_host d d'" "opcode c \<noteq> SG_OP_COPY_D2H"
    "rc = XOk \<Longrightarrow> logical d' = fst (cmd_effect fadd fmul c L H)"
    "\<And>f. rc = XFault f \<Longrightarrow> op_prog fadd fmul c L H r' d'"
  shows "step_ok fadd fmul c B L H rc r' d'"
proof -
  have bk: "backs (dm_mmu d') = B" and h: "dm_host d' = dm_host d" and inv: "mem_inv d'"
    using assms(1,2) backs_same_map [of "dm_mmu d" "dm_mmu d'"] by (auto simp: cmd_prog_def host_prog_def same_host_def)
  have H: "\<forall>x. \<not> B x \<longrightarrow> dm_host d' x = H x" using assms(1,3) h by (simp add: cmd_prog_def host_prog_def)
  have "snd (cmd_effect fadd fmul c L H) = H" using assms(3) by (simp add: cmd_effect_def)
  with bk inv H assms(3-5) show ?thesis by (simp add: step_ok_def cmd_prog_def host_prog_def)
qed

lemma exec_fill:
  assumes pr: "cmd_prog fadd fmul c B L H r d" and e: "e < SG_MAX_ENGINES" and op: "opcode c = SG_OP_FILL"
    and run: "for_runs e (dst c) (cmd_size c) True
       (\<lambda>p off n (r, d). (r, d\<lparr>dm_vram := memset_bytes p (ucast (val c AND 0xff)) n (dm_vram d)\<rparr>)) (r, d) = (rc, r', d')"
  shows "step_ok fadd fmul c B L H rc r' d'"
proof -
  have inv: "mem_inv d" and k: "r_done r \<le> cmd_size c"
    and L: "logical d = upd (dst c) 0 (r_done r) (\<lambda>_. Some (fill_byte c)) L"
    using pr op by (simp_all add: cmd_prog_def op_prog_def)
  have w: "mem_inv d' \<and> same_map (dm_mmu d) (dm_mmu d') \<and> dm_host d' = dm_host d \<and> r' = r\<lparr>r_done := r_done r'\<rparr> \<and>
      r_done r \<le> r_done r' \<and> r_done r' \<le> cmd_size c \<and>
      logical d' = upd (dst c) (r_done r) (r_done r') (\<lambda>_. Some (fill_byte c)) (logical d) \<and>
      stop_ok (dm_mmu d) (dst c) (cmd_size c) (r_done r') rc"
    by (rule for_runs_write [OF inv e k _ refl run]) (simp add: memset_bytes_def fill_byte_def cong: if_cong)
  then have L': "logical d' = upd (dst c) 0 (r_done r') (\<lambda>_. Some (fill_byte c)) L" using upd_join [OF L] by blast
  show ?thesis
    by (rule step_ok_same_host [OF pr])
      (use w L' op in \<open>auto simp: same_host_def cmd_effect_def op_prog_def stop_ok_def\<close>)
qed

lemma exec_h2d:
  assumes pr: "cmd_prog fadd fmul c B L H r d" and e: "e < SG_MAX_ENGINES" and wf: "cmd_wf c B" and op: "opcode c = SG_OP_COPY_H2D"
    and run: "for_runs e (dst c) (cmd_size c) True
       (\<lambda>p off n (r, d). (r, d\<lparr>dm_vram := blit p (src0 c + off) n (dm_host d) (dm_vram d)\<rparr>)) (r, d) = (rc, r', d')"
  shows "step_ok fadd fmul c B L H rc r' d'"
proof -
  let ?G = "\<lambda>i. Some (H (src0 c + i))"
  have inv: "mem_inv d" and k: "r_done r \<le> cmd_size c" and L: "logical d = upd (dst c) 0 (r_done r) ?G L"
    using pr op by (simp_all add: cmd_prog_def op_prog_def)
  have src: "dm_host d (src0 c + i) = H (src0 c + i)" if "i < cmd_size c" for i
    using pr wf op that by (simp add: cmd_prog_def host_prog_def cmd_wf_def)
  have w: "mem_inv d' \<and> same_map (dm_mmu d) (dm_mmu d') \<and> dm_host d' = dm_host d \<and> r' = r\<lparr>r_done := r_done r'\<rparr> \<and>
      r_done r \<le> r_done r' \<and> r_done r' \<le> cmd_size c \<and>
      logical d' = upd (dst c) (r_done r) (r_done r') (\<lambda>i. Some (dm_host d (src0 c + i))) (logical d) \<and>
      stop_ok (dm_mmu d) (dst c) (cmd_size c) (r_done r') rc"
    by (rule for_runs_write [OF inv e k _ refl run]) (simp add: blit_def add.assoc cong: if_cong)
  then have "logical d' = upd (dst c) (r_done r) (r_done r') ?G (logical d)"
    using src by (auto simp: upd_def fun_eq_iff dest: less_le_trans)
  then have L': "logical d' = upd (dst c) 0 (r_done r') ?G L" using upd_join [OF L] w by blast
  show ?thesis
    by (rule step_ok_same_host [OF pr])
      (use w L' op in \<open>auto simp: same_host_def cmd_effect_def op_prog_def stop_ok_def\<close>)
qed

lemma exec_d2h:
  assumes pr: "cmd_prog fadd fmul c B L H r d" and e: "e < SG_MAX_ENGINES" and wf: "cmd_wf c B" and op: "opcode c = SG_OP_COPY_D2H"
    and run: "for_runs e (src0 c) (cmd_size c) False
       (\<lambda>p off n (r, d). (r, d\<lparr>dm_host := blit (dst c + off) p n (dm_vram d) (dm_host d)\<rparr>)) (r, d) = (rc, r', d')"
  shows "step_ok fadd fmul c B L H rc r' d'"
proof -
  let ?G = "\<lambda>i. the (L (src0 c + i))"
  have inv: "mem_inv d" and k: "r_done r \<le> cmd_size c" and L: "logical d = L" and B: "backs (dm_mmu d) = B"
    and h: "\<And>x. \<not> B x \<Longrightarrow> dm_host d x = upd (dst c) 0 (r_done r) ?G H x"
    using pr op by (simp_all add: cmd_prog_def op_prog_def host_prog_def)
  have nb: "\<not> backs (dm_mmu d) x" if "x - dst c < cmd_size c" for x
    using wf op that by (simp add: cmd_wf_def B)
  note w = for_runs_read_host [OF inv e k nb run]
  have h': "dm_host d' x = upd (dst c) 0 (r_done r') ?G H x" if "\<not> B x" for x
    using w h [OF that] by (auto simp: upd_def L)
  have "backs (dm_mmu d') = B" using w backs_same_map B by blast
  with w h' L op show ?thesis
    by (auto simp: step_ok_def cmd_effect_def cmd_prog_def host_prog_def op_prog_def stop_ok_def)
qed

lemma unat_ucast_32: "unat (ucast (x :: u32) :: u64) = unat x"
  using unat_less_32 [of x] by (simp add: unsigned_ucast_eq take_bit_nat_eq_self)

lemma unat_words_bytes: "unat ((ucast (x :: u32) :: u64) * 4) = 4 * unat x"
  using unat_less_32 [of x] by (subst unat_mult_64) (simp_all add: unat_ucast_32)

lemma unat_matrix_bytes:
  assumes "4 * (unat x * unat y) < 2 ^ 64"
  shows "unat ((ucast (x :: u32) :: u64) * ucast (y :: u32) * 4) = 4 * (unat x * unat y)"
proof -
  have "unat ((ucast x :: u64) * ucast y) = unat x * unat y"
    using assms by (subst unat_mult_64) (simp_all add: unat_ucast_32)
  then show ?thesis using assms by (subst unat_mult_64) simp_all
qed

lemma exec_d2d:
  assumes pr: "cmd_prog fadd fmul c B L H r d" and e: "e < SG_MAX_ENGINES" and wf: "cmd_wf c B" and op: "opcode c = SG_OP_COPY_D2D"
    and run: "copy_d2d e c (r, d) = (rc, r', d')"
  shows "step_ok fadd fmul c B L H rc r' d'"
proof -
  have inv: "mem_inv d" and p: "d2d_prog c L r d" using pr op by (simp_all add: cmd_prog_def op_prog_def)
  have nw: "unat (dst c) + unat (cmd_size c) < 2 ^ 64" "unat (src0 c) + unat (cmd_size c) < 2 ^ 64"
    using wf op by (simp_all add: cmd_wf_def)
  note w = copy_d2d_correct [OF inv e p nw run]
  show ?thesis
    by (rule step_ok_same_host [OF pr]) (use w op in \<open>simp_all add: cmd_effect_def op_prog_def\<close>)
qed

lemma exec_vadd:
  assumes pr: "cmd_prog fadd fmul c B L H r d" and e: "e < SG_MAX_ENGINES" and wf: "cmd_wf c B" and op: "opcode c = SG_OP_VADD_F32"
    and b: "b = ucast (arg0 c) * 4" and run: "compute e c b b b (vadd_kernel fadd (arg0 c)) (r, d) = (rc, r', d')"
  shows "step_ok fadd fmul c B L H rc r' d'"
proof -
  have inv: "mem_inv d" and p: "cprog c b b b (vadd_val fadd c L) L r d"
    using pr op b by (simp_all add: cmd_prog_def op_prog_def Let_def)
  have sz: "4 * unat (arg0 c) + 4 < (2 :: nat) ^ 64" "unat b = 4 * unat (arg0 c)"
    using unat_less_32 [of "arg0 c"] by (simp_all add: b unat_words_bytes)
  have ap: "q < unat (arg0 c) \<Longrightarrow> va_apart (dst c) q (src0 c) q" "q < unat (arg0 c) \<Longrightarrow> va_apart (dst c) q (src1 c) q" for q
    using wf op by (simp_all add: cmd_wf_def)
  note w = vadd.compute_correct [OF inv e p sz(1) sz(2) sz(2) sz(2) ap vadd_val_def run]
  show ?thesis
    by (rule step_ok_same_host [OF pr]) (use w op in \<open>simp_all add: cmd_effect_def op_prog_def b Let_def\<close>)
qed

lemma exec_gemm:
  assumes pr: "cmd_prog fadd fmul c B L H r d" and e: "e < SG_MAX_ENGINES" and wf: "cmd_wf c B" and op: "opcode c = SG_OP_GEMM_F32"
    and b: "b0 = ucast (arg0 c) * ucast (arg2 c) * 4" "b1 = ucast (arg2 c) * ucast (arg1 c) * 4" "bd = ucast (arg0 c) * ucast (arg1 c) * 4"
    and run: "compute e c b0 b1 bd (gemm_kernel fadd fmul (arg0 c) (arg1 c) (arg2 c)) (r, d) = (rc, r', d')"
  shows "step_ok fadd fmul c B L H rc r' d'"
proof -
  let ?m = "unat (arg0 c)" and ?n = "unat (arg1 c)" and ?k = "unat (arg2 c)"
  have inv: "mem_inv d" and p: "cprog c b0 b1 bd (gemm_val fadd fmul c L) L r d"
    using pr op b by (simp_all add: cmd_prog_def op_prog_def Let_def)
  have g: "4 * (?m * ?n) + 4 < 2 ^ 64" "4 * (?m * ?k) < 2 ^ 64" "4 * (?k * ?n) < 2 ^ 64"
    "\<And>q. q < ?m * ?k \<Longrightarrow> va_apart (dst c) (?m * ?n) (src0 c) q" "\<And>q. q < ?k * ?n \<Longrightarrow> va_apart (dst c) (?m * ?n) (src1 c) q"
    using wf op unfolding cmd_wf_def Let_def by blast+
  have sz: "unat bd = 4 * (?m * ?n)" "unat b0 = 4 * (?m * ?k)" "unat b1 = 4 * (?k * ?n)"
    unfolding b by (rule unat_matrix_bytes; use g in simp)+
  note w = gemm.compute_correct [OF inv e p g(1) sz g(4,5) gemm_val_def run]
  show ?thesis
    by (rule step_ok_same_host [OF pr]) (use w op in \<open>simp_all add: cmd_effect_def op_prog_def b Let_def\<close>)
qed

lemma exec_nop:
  assumes pr: "cmd_prog fadd fmul c B L H r d" and op: "opcode c = SG_OP_NOP"
  shows "step_ok fadd fmul c B L H XOk r d"
  using pr op by (auto simp: step_ok_def cmd_prog_def host_prog_def op_prog_def cmd_effect_def)

lemma exec_err: "cmd_prog fadd fmul c B L H r d \<Longrightarrow> step_ok fadd fmul c B L H (XErr er) r d"
  by (simp add: step_ok_def cmd_prog_def host_prog_def)

lemma execute_correct:
  assumes pr: "cmd_prog fadd fmul c B L H r d" and e: "e < SG_MAX_ENGINES" and wf: "cmd_wf c B"
    and run: "execute fadd fmul e c (r, d) = (rc, r', d')"
  shows "step_ok fadd fmul c B L H rc r' d'"
proof (cases "if e = SG_ENGINE_COMPUTE then is_copy_op (opcode c) else is_compute_op (opcode c)")
  case True
  with run exec_err [OF pr] show ?thesis by (auto simp: execute_def split: if_splits)
next
  case False
  note run' = run [unfolded execute_def if_not_P [OF False] Let_def]
  consider "opcode c = SG_OP_NOP" | "opcode c = SG_OP_FILL" | "opcode c = SG_OP_COPY_H2D" | "opcode c = SG_OP_COPY_D2H"
    | "opcode c = SG_OP_COPY_D2D" | "opcode c = SG_OP_VADD_F32" | "opcode c = SG_OP_GEMM_F32"
    | "opcode c \<notin> {SG_OP_NOP, SG_OP_FILL, SG_OP_COPY_H2D, SG_OP_COPY_D2H, SG_OP_COPY_D2D, SG_OP_VADD_F32, SG_OP_GEMM_F32}"
    by blast
  then show ?thesis
  proof cases
    case 1
    with run' exec_nop [OF pr 1] show ?thesis by simp
  next
    case 2
    then show ?thesis using run' by (intro exec_fill [OF pr e 2]) simp
  next
    case 3
    then show ?thesis using run' by (intro exec_h2d [OF pr e wf 3]) simp
  next
    case 4
    then show ?thesis using run' by (intro exec_d2h [OF pr e wf 4]) simp
  next
    case 5
    then show ?thesis using run' by (intro exec_d2d [OF pr e wf 5]) simp
  next
    case 6
    then show ?thesis using run' by (intro exec_vadd [OF pr e wf 6 refl]) simp
  next
    case 7
    then show ?thesis using run' by (intro exec_gemm [OF pr e wf 7 refl refl refl]) simp
  next
    case 8
    with run' exec_err [OF pr] show ?thesis by auto
  qed
qed

lemma cmd_run_step_ok:
  assumes "cmd_run fadd fmul e c r d rc d'" "cmd_prog fadd fmul c B L H r d" "e < SG_MAX_ENGINES" "cmd_wf c B"
  shows "\<exists>r'. step_ok fadd fmul c B L H rc r' d'"
  using assms
proof (induction rule: cmd_run.induct)
  case (finish r d rc r' d')
  then show ?case using execute_correct by blast
next
  case (fault r d f r' d1 d2 rc d')
  from execute_correct [OF fault.prems(1,2,3) fault.hyps(1)] have "cmd_prog fadd fmul c B L H r' d1"
    by (simp add: step_ok_def)
  with fault show ?case using cmd_prog_env by blast
qed

section \<open>Properties\<close>


text \<open>The commands that work through one device range, and that range.\<close>

definition range_op :: "u32 \<Rightarrow> bool" where
  "range_op op \<longleftrightarrow> op = SG_OP_FILL \<or> op = SG_OP_COPY_H2D \<or> op = SG_OP_COPY_D2H"

definition range_va :: "sg_cmd \<Rightarrow> u64" where
  "range_va c = (if opcode c = SG_OP_COPY_D2H then src0 c else dst c)"

definition wrong_engine :: "u32 \<Rightarrow> u32 \<Rightarrow> bool" where
  "wrong_engine e op \<longleftrightarrow> (if e = SG_ENGINE_COMPUTE then is_copy_op op else is_compute_op op)"

lemma range_stop:
  assumes inv: "mem_inv d" and e: "e < SG_MAX_ENGINES" and wf: "cmd_wf c (backs (dm_mmu d))"
    and k: "r_done r \<le> cmd_size c" and op: "range_op (opcode c)"
    and run: "execute fadd fmul e c (r, d) = (rc, r', d')"
    and cls: "\<not> wrong_engine e (opcode c)"
  shows "mem_inv d' \<and> same_map (dm_mmu d) (dm_mmu d') \<and> r_done r \<le> r_done r' \<and>
    stop_ok (dm_mmu d) (range_va c) (cmd_size c) (r_done r') rc"
proof -
  note run' = run [unfolded execute_def if_not_P [OF cls [unfolded wrong_engine_def]] Let_def]
  show ?thesis
  proof (cases "opcode c = SG_OP_COPY_D2H")
    case True
    then have nb: "\<not> backs (dm_mmu d) x" if "x - dst c < cmd_size c" for x
      using wf that by (simp add: cmd_wf_def)
    have run1: "for_runs e (src0 c) (cmd_size c) False
        (\<lambda>p off n (r, d). (r, d\<lparr>dm_host := blit (dst c + off) p n (dm_vram d) (dm_host d)\<rparr>)) (r, d) = (rc, r', d')"
      using run' True by simp
    from for_runs_read_host [OF inv e k nb run1] True show ?thesis by (simp add: range_va_def)
  next
    case False
    have fill: ?thesis if "opcode c = SG_OP_FILL"
    proof -
      have run1: "for_runs e (dst c) (cmd_size c) True
          (\<lambda>p off n (r, d). (r, d\<lparr>dm_vram := memset_bytes p (ucast (val c AND 0xff)) n (dm_vram d)\<rparr>)) (r, d) = (rc, r', d')"
        using run' that by simp
      have "mem_inv d' \<and> same_map (dm_mmu d) (dm_mmu d') \<and> dm_host d' = dm_host d \<and> r' = r\<lparr>r_done := r_done r'\<rparr> \<and>
          r_done r \<le> r_done r' \<and> r_done r' \<le> cmd_size c \<and>
          logical d' = upd (dst c) (r_done r) (r_done r') (\<lambda>_. Some (fill_byte c)) (logical d) \<and>
          stop_ok (dm_mmu d) (dst c) (cmd_size c) (r_done r') rc"
        by (rule for_runs_write [OF inv e k _ refl run1]) (simp add: memset_bytes_def fill_byte_def cong: if_cong)
      then show ?thesis using that by (simp add: range_va_def)
    qed
    have h2d: ?thesis if "opcode c = SG_OP_COPY_H2D"
    proof -
      have run1: "for_runs e (dst c) (cmd_size c) True
          (\<lambda>p off n (r, d). (r, d\<lparr>dm_vram := blit p (src0 c + off) n (dm_host d) (dm_vram d)\<rparr>)) (r, d) = (rc, r', d')"
        using run' that by simp
      have "mem_inv d' \<and> same_map (dm_mmu d) (dm_mmu d') \<and> dm_host d' = dm_host d \<and> r' = r\<lparr>r_done := r_done r'\<rparr> \<and>
          r_done r \<le> r_done r' \<and> r_done r' \<le> cmd_size c \<and>
          logical d' = upd (dst c) (r_done r) (r_done r') (\<lambda>i. Some (dm_host d (src0 c + i))) (logical d) \<and>
          stop_ok (dm_mmu d) (dst c) (cmd_size c) (r_done r') rc"
        by (rule for_runs_write [OF inv e k _ refl run1]) (simp add: blit_def add.assoc cong: if_cong)
      then show ?thesis using that by (simp add: range_va_def)
    qed
    show ?thesis using op False fill h2d by (auto simp: range_op_def)
  qed
qed

lemma range_fault:
  assumes inv: "mem_inv d" and e: "e < SG_MAX_ENGINES" and wf: "cmd_wf c (backs (dm_mmu d))"
    and k: "r_done r \<le> cmd_size c" and op: "range_op (opcode c)"
    and run: "execute fadd fmul e c (r, d) = (XFault f, r', d')"
  shows "mem_inv d' \<and> backs (dm_mmu d') = backs (dm_mmu d) \<and> r_done r \<le> r_done r' \<and> r_done r' < cmd_size c \<and>
    fst (pt_lookup (dm_mmu d) (range_va c + r_done r')) = HostResident \<and> f = page_floor (range_va c + r_done r')"
proof -
  have "\<not> wrong_engine e (opcode c)" using run by (auto simp: execute_def wrong_engine_def)
  from range_stop [OF inv e wf k op run this] show ?thesis
    using backs_same_map [of "dm_mmu d" "dm_mmu d'"] by (auto simp: stop_ok_def)
qed

lemma range_cover:
  assumes "mem_inv d" "e < SG_MAX_ENGINES" "range_op (opcode c)" "execute fadd fmul e c (r, d) = (rc, r', d')"
    and cls: "\<not> wrong_engine e (opcode c)" and "r_done r \<le> i" "i < r_done r'"
  shows "phys (dm_mmu d) (range_va c + i) \<noteq> None"
proof -
  note run = assms(4) [unfolded execute_def if_not_P [OF cls [unfolded wrong_engine_def]] Let_def]
  have m: "mmu_inv (dm_mmu d)" using assms(1) by (simp add: mem_inv_def)
  consider "opcode c = SG_OP_FILL" | "opcode c = SG_OP_COPY_H2D" | "opcode c = SG_OP_COPY_D2H"
    using assms(3) by (auto simp: range_op_def)
  then show ?thesis
  proof cases
    case 1
    with run show ?thesis unfolding range_va_def
      by (intro for_runs_cover [OF m assms(2) _ _ assms(6,7)]) (auto split: prod.splits)
  next
    case 2
    with run show ?thesis unfolding range_va_def
      by (intro for_runs_cover [OF m assms(2) _ _ assms(6,7)]) (auto split: prod.splits)
  next
    case 3
    with run show ?thesis unfolding range_va_def
      by (intro for_runs_cover [OF m assms(2) _ _ assms(6,7)]) (auto split: prod.splits)
  qed
qed

lemma vpn_of_page_floor: "vpn_of (page_floor a) = vpn_of a"
  by (auto simp: bit_eq_iff bit_simps vpn_of_def page_floor_def page_size_mask SG_PAGE_SHIFT_def dest: bit_imp_le_length)

lemma range_result:
  assumes "mem_inv d" "e < SG_MAX_ENGINES" "cmd_wf c (backs (dm_mmu d))" "r_done r \<le> cmd_size c" "range_op (opcode c)"
    and "\<not> wrong_engine e (opcode c)" "execute fadd fmul e c (r, d) = (rc, r', d')"
  shows "(rc = XOk \<longleftrightarrow> (\<forall>i. r_done r \<le> i \<longrightarrow> i < cmd_size c \<longrightarrow> phys (dm_mmu d) (range_va c + i) \<noteq> None)) \<and>
    (\<forall>i. r_done r \<le> i \<longrightarrow> i < r_done r' \<longrightarrow> phys (dm_mmu d) (range_va c + i) \<noteq> None) \<and>
    (rc \<noteq> XOk \<longrightarrow> r_done r' < cmd_size c \<and>
       (rc = XFault (page_floor (range_va c + r_done r')) \<and> fst (pt_lookup (dm_mmu d) (range_va c + r_done r')) = HostResident \<or>
        rc = XErr EFAULT \<and> fst (pt_lookup (dm_mmu d) (range_va c + r_done r')) = NotPresent))"
proof -
  note st = range_stop [OF assms(1-5,7,6)] and cov = range_cover [OF assms(1,2,5,7,6)]
  have bad: "r_done r' < cmd_size c \<and> phys (dm_mmu d) (range_va c + r_done r') = None" if "rc \<noteq> XOk"
    using st that by (cases rc) (auto simp: stop_ok_def phys_def)
  have "rc = XOk" if "\<forall>i. r_done r \<le> i \<longrightarrow> i < cmd_size c \<longrightarrow> phys (dm_mmu d) (range_va c + i) \<noteq> None"
    using that bad st by blast
  moreover have "phys (dm_mmu d) (range_va c + i) \<noteq> None" if "rc = XOk" "r_done r \<le> i" "i < cmd_size c" for i
    using that st by (intro cov) (simp_all add: stop_ok_def)
  ultimately have "rc = XOk \<longleftrightarrow> (\<forall>i. r_done r \<le> i \<longrightarrow> i < cmd_size c \<longrightarrow> phys (dm_mmu d) (range_va c + i) \<noteq> None)"
    by blast
  moreover have "rc \<noteq> XOk \<longrightarrow> r_done r' < cmd_size c \<and>
       (rc = XFault (page_floor (range_va c + r_done r')) \<and> fst (pt_lookup (dm_mmu d) (range_va c + r_done r')) = HostResident \<or>
        rc = XErr EFAULT \<and> fst (pt_lookup (dm_mmu d) (range_va c + r_done r')) = NotPresent)"
    using st by (cases rc) (auto simp: stop_ok_def)
  ultimately show ?thesis using cov by blast
qed

text \<open>C22: A fill or host copy on an engine of its class completes exactly when the rest of its range is
  resident, whatever the TLBs hold; otherwise it stops at the first byte whose page is not in VRAM, with a
  page fault when that page is host-resident and with \<^verbatim>\<open>EFAULT\<close> when it is not mapped.\<close>

theorem range_outcome:
  assumes "mem_inv d" "e < SG_MAX_ENGINES" "cmd_wf c (backs (dm_mmu d))" "r_done r \<le> cmd_size c" "range_op (opcode c)"
    and "\<not> wrong_engine e (opcode c)" "execute fadd fmul e c (r, d) = (rc, r', d')"
  shows "(rc = XOk \<longleftrightarrow> (\<forall>i. r_done r \<le> i \<longrightarrow> i < cmd_size c \<longrightarrow> phys (dm_mmu d) (range_va c + i) \<noteq> None)) \<and>
    (\<forall>i. r_done r \<le> i \<longrightarrow> i < r_done r' \<longrightarrow> phys (dm_mmu d) (range_va c + i) \<noteq> None) \<and>
    (rc \<noteq> XOk \<longrightarrow> r_done r' < cmd_size c \<and>
       (rc = XFault (page_floor (range_va c + r_done r')) \<and> fst (pt_lookup (dm_mmu d) (range_va c + r_done r')) = HostResident \<or>
        rc = XErr EFAULT \<and> fst (pt_lookup (dm_mmu d) (range_va c + r_done r')) = NotPresent))"
  by (rule range_result [OF assms])

text \<open>C23: Retries make progress: when a fill or a host copy faults, the faulting page is the host-resident page of
  the first byte not yet processed, and once that page is resident the retry either ends or
  faults strictly further on. A command of \<open>n\<close> bytes therefore faults at most \<open>n\<close> times if every
  faulting page is resident when its channel resumes.\<close>

theorem retry_progress:
  assumes "mem_inv d" "e < SG_MAX_ENGINES" "cmd_wf c (backs (dm_mmu d))" "r_done r \<le> cmd_size c" "range_op (opcode c)"
    and "execute fadd fmul e c (r, d) = (XFault f, r1, d1)"
    and "env d1 d2" "resident (dm_mmu d2) (vpn_of f)"
    and "execute fadd fmul e c (r1, d2) = (XFault f2, r2, d3)"
  shows "r_done r1 < r_done r2 \<and> r_done r2 < cmd_size c \<and>
    fst (pt_lookup (dm_mmu d) f) = HostResident \<and> f = page_floor (range_va c + r_done r1)"
proof -
  let ?va = "range_va c"
  note f1 = range_fault [OF assms(1-6)]
  have inv2: "mem_inv d2" and B2: "backs (dm_mmu d2) = backs (dm_mmu d)" using assms(7) f1 by (auto simp: env_def)
  have wf2: "cmd_wf c (backs (dm_mmu d2))" using assms(3) B2 by simp
  have k1: "r_done r1 \<le> cmd_size c" using f1 by (auto intro: less_imp_le)
  note f2 = range_fault [OF inv2 assms(2) wf2 k1 assms(5,9)]
  have vf: "vpn_of f = vpn_of (?va + r_done r1)" using f1 by (simp add: vpn_of_page_floor)
  have "r_done r1 \<noteq> r_done r2"
  proof
    assume "r_done r1 = r_done r2"
    then have "fst (pt_lookup (dm_mmu d2) (?va + r_done r1)) = HostResident" using f1 f2 by simp
    with assms(8) vf show False by (auto simp: pt_lookup_def Let_def resident_def split: if_splits)
  qed
  moreover have "pt_lookup (dm_mmu d) f = pt_lookup (dm_mmu d) (?va + r_done r1)" using vf by (simp add: pt_lookup_def)
  ultimately show ?thesis using f1 f2 by auto
qed

section \<open>Witnesses\<close>

text \<open>Two managed pages at device addresses 0 and 4096, backed by host memory full of 7s, and a fill of four
  bytes with 9; then the same memory after the first page migrated into frame 1.\<close>

definition fill_demo :: "u64 \<Rightarrow> sg_cmd" where
  "fill_demo a = zero_cmd\<lparr>opcode := SG_OP_FILL, dst := a, cmd_size := 4, val := 9\<rparr>"

definition demo_mmu :: mmu where
  "demo_mmu = snd (map_host 0 0x10000 2 (mmu_new 0x3000 0x2000))"

definition demo_mem :: dev_mem where
  "demo_mem = (mem_new 0x2000 0x3000 (\<lambda>_. 7))\<lparr>dm_mmu := demo_mmu\<rparr>"

definition demo_mem1 :: dev_mem where
  "demo_mem1 = (snd (copy_in 0x1000 0x10000 demo_mem))\<lparr>dm_mmu := snd (make_resident 0 0x1000 demo_mmu)\<rparr>"

lemma demo_mem_inv: "mem_inv demo_mem"
proof -
  let ?d = "mem_new 0x2000 0x3000 (\<lambda>_. 7)"
  have "fst (map_host 0 0x10000 2 (dm_mmu ?d)) = None" by code_simp
  then have map: "map_host 0 0x10000 2 (dm_mmu ?d) = (None, demo_mmu)"
    by (cases "map_host 0 0x10000 2 (dm_mmu ?d)") (simp add: demo_mmu_def mem_new_def)
  have no: "\<not> hosted (dm_mmu ?d) u" for u by (simp add: mem_new_def mmu_new_def hosted_def pte_simps)
  show ?thesis unfolding demo_mem_def
    by (rule mem_inv_map_host(1) [OF mem_inv_new map]) (use no in auto)
qed

lemma demo_tables:
  "mmu_pte demo_mmu 0 = PTE_PRESENT" "mmu_pte demo_mmu 1 = PTE_PRESENT" "mmu_host demo_mmu 0 = 0x10000" "mmu_npages demo_mmu = 3"
  "fst (make_resident 0 0x1000 demo_mmu) = None"
  by code_simp+

lemma fill_demo_run:
  "execute fadd fmul 0 (fill_demo a) s =
     for_runs 0 a 4 True (\<lambda>p off n (r, d). (r, d\<lparr>dm_vram := memset_bytes p 9 n (dm_vram d)\<rparr>)) s"
proof -
  have "ucast (9 AND 0xff :: u32) = (9 :: u8)" by code_simp
  then show ?thesis by (simp add: execute_def fill_demo_def SG_ENGINE_COMPUTE_def is_copy_op_def)
qed

lemma demo_fault:
  assumes "a = 0x10 \<or> a = 0xffe"
  shows "\<exists>d1. execute fadd fmul 0 (fill_demo a) (fresh_replay, demo_mem) = (XFault 0, fresh_replay, d1)"
proof -
  have "fst (run_at 0 0x10 4 True demo_mem) = RFault 0" "fst (run_at 0 0xffe 4 True demo_mem) = RFault 0" by code_simp+
  with assms obtain d1 where "run_at 0 a 4 True demo_mem = (RFault 0, d1)" by (metis prod.collapse)
  then show ?thesis unfolding fill_demo_run by (simp add: for_runs.simps fresh_replay_def)
qed

lemma demo_wf: "cmd_wf (fill_demo a) B"
  by (simp add: cmd_wf_def fill_demo_def)

lemma demo_migrated:
  "env demo_mem demo_mem1" "resident (dm_mmu demo_mem1) 0" "\<not> resident (dm_mmu demo_mem1) 1"
  "presentp (mmu_pte (dm_mmu demo_mem1) 1)" "mmu_npages (dm_mmu demo_mem1) = 3" "pte_pa (mmu_pte (dm_mmu demo_mem1) 0) = 0x1000"
proof -
  let ?m = "dm_mmu demo_mem"
  have m: "?m = demo_mmu" by (simp add: demo_mem_def)
  have v: "0 = vpn_of 0" "hosted ?m 0" "\<not> resident ?m 0"
    unfolding m by (simp_all add: vpn_of_def hosted_def resident_def demo_tables pte_simps)
  have res: "\<not> resident ?m u" for u
  proof -
    have "fst (map_host 0 0x10000 2 (mmu_new 0x3000 0x2000)) = None" by code_simp
    from map_host_success(1) [OF this, of u] show ?thesis
      unfolding m demo_mmu_def by (simp add: resident_def mmu_new_def pte_simps)
  qed
  have cp: "copy_in 0x1000 (mmu_host ?m 0) demo_mem = (None, snd (copy_in 0x1000 (mmu_host ?m 0) demo_mem))"
  proof -
    have "page_offset 0x1000 = 0" "\<not> (0x2000 :: u64) \<le> 0x1000" by code_simp+
    then show ?thesis unfolding m demo_tables by (simp add: copy_in_def demo_mem_def mem_new_def)
  qed
  let ?d1 = "snd (copy_in 0x1000 (mmu_host ?m 0) demo_mem)"
  have md: "dm_mmu ?d1 = demo_mmu" "dm_host ?d1 = dm_host demo_mem" by (simp_all add: copy_in_def m)
  have mr: "make_resident 0 0x1000 (dm_mmu ?d1) = (None, dm_mmu demo_mem1)"
    unfolding md using demo_tables(5) by (cases "make_resident 0 0x1000 demo_mmu") (simp add: demo_mem1_def)
  have free: "resident ?m u \<Longrightarrow> pte_pa (mmu_pte ?m u) \<noteq> 0x1000" for u using res by simp
  note M = migrate_page [OF demo_mem_inv v free cp mr]
  have d: "demo_mem1 = ?d1\<lparr>dm_mmu := dm_mmu demo_mem1\<rparr>"
    unfolding m demo_tables by (simp add: demo_mem1_def)
  have hostd: "hosted (dm_mmu demo_mem1) u = hosted ?m u" for u
    using M(5) [of u] M(6,7) M(3) v(2) by (cases "u = 0") (auto simp: hosted_def resident_def)
  have bk: "backs (dm_mmu demo_mem1) = backs ?m"
    using M(6) hostd by (simp add: backs_def fun_eq_iff)
  have "mem_inv demo_mem1" "logical demo_mem1 = logical demo_mem"
    using M(1,2) d by simp_all
  moreover have "dm_host demo_mem1 = dm_host demo_mem" by (subst d) (simp add: md)
  ultimately show "env demo_mem demo_mem1" using bk by (simp add: env_def)
  show "resident (dm_mmu demo_mem1) 0" "pte_pa (mmu_pte (dm_mmu demo_mem1) 0) = 0x1000" using M(3,4) by simp_all
  show np: "mmu_npages (dm_mmu demo_mem1) = 3" using M(7) m demo_tables by simp
  have "mmu_pte (dm_mmu demo_mem1) 1 = PTE_PRESENT" using M(5) [of 1] m demo_tables by simp
  then show "\<not> resident (dm_mmu demo_mem1) 1" "presentp (mmu_pte (dm_mmu demo_mem1) 1)"
    by (simp_all add: resident_def pte_simps)
qed

lemma demo_resume:
  assumes "execute fadd fmul 0 (fill_demo a) (fresh_replay, demo_mem) = (XFault f, fresh_replay, d1)"
  shows "env d1 demo_mem1"
proof -
  have op: "opcode (fill_demo a) = SG_OP_FILL" by (simp add: fill_demo_def)
  have "step_ok fadd fmul (fill_demo a) (backs (dm_mmu demo_mem)) (logical demo_mem) (dm_host demo_mem) (XFault f) fresh_replay d1"
    by (rule execute_correct [OF cmd_prog_start [OF demo_mem_inv] _ demo_wf assms]) (simp add: SG_MAX_ENGINES_def)
  then have "logical d1 = logical demo_mem" "backs (dm_mmu d1) = backs (dm_mmu demo_mem)"
    "\<And>x. \<not> backs (dm_mmu demo_mem) x \<Longrightarrow> dm_host d1 x = dm_host demo_mem x"
    using op by (simp_all add: step_ok_def cmd_prog_def op_prog_def host_prog_def fresh_replay_def)
  with demo_migrated(1) show ?thesis by (simp add: env_def)
qed

lemma demo_lookup:
  "x < 0x1000 \<Longrightarrow> phys (dm_mmu demo_mem1) x \<noteq> None"
  "vpn_of x = 1 \<Longrightarrow> fst (pt_lookup (dm_mmu demo_mem1) x) = HostResident"
proof -
  show "phys (dm_mmu demo_mem1) x \<noteq> None" if "x < 0x1000"
  proof -
    have "unat x div 4096 = 0" using that by (simp add: word_less_unat)
    then have "vpn_of x = 0" by (simp only: word_eq_unat unat_vpn_of unat_0)
    with demo_migrated(2) show ?thesis by (simp add: phys_iff)
  qed
  show "fst (pt_lookup (dm_mmu demo_mem1) x) = HostResident" if "vpn_of x = 1"
  proof -
    have "\<not> mmu_npages (dm_mmu demo_mem1) \<le> vpn_of x" using that demo_migrated(5) by (simp add: word_le_unat)
    then show ?thesis using that demo_migrated(3,4) by (auto simp: pt_lookup_def Let_def resident_def not_le)
  qed
qed

lemma demo_sel: "range_va (fill_demo a) = a" "cmd_size (fill_demo a) = 4" "r_done fresh_replay = 0"
  by (simp_all add: range_va_def fill_demo_def fresh_replay_def)

lemma demo_op: "range_op (opcode (fill_demo a))" "\<not> wrong_engine 0 (opcode (fill_demo a))"
  by (simp_all add: range_op_def wrong_engine_def fill_demo_def is_copy_op_def SG_ENGINE_COMPUTE_def)

lemma demo_near:
  assumes "i < 4"
  shows "0x10 + i < (0x1000 :: u64)"
proof -
  have "unat (0x10 + i) = 0x10 + unat i" using assms by (subst unat_add_64) (simp_all add: word_less_unat)
  with assms show ?thesis by (simp add: word_less_unat)
qed

lemma demo_step:
  assumes "execute fadd fmul 0 (fill_demo a) (fresh_replay, demo_mem1) = (rc, r', d')"
  shows "a = 0x10 \<Longrightarrow> rc = XOk" "a = 0xffe \<Longrightarrow> \<exists>f. rc = XFault f"
proof -
  have inv: "mem_inv demo_mem1" using demo_migrated(1) by (simp add: env_def)
  note R = range_result [OF inv _ demo_wf _ demo_op assms, unfolded demo_sel, simplified SG_MAX_ENGINES_def, simplified]
  show "rc = XOk" if "a = 0x10"
    using R demo_near demo_lookup(1) by (simp add: that)
  have at: "vpn_of (0xffe + k) = (if k < 2 then 0 else 1)" if "k < 4" for k
  proof -
    have u: "unat k < 4" "k < 2 \<longleftrightarrow> unat k < 2" using that by (simp_all add: word_less_unat)
    have "unat (0xffe + k) = 0xffe + unat k" using u by (subst unat_add_64) simp_all
    then have "unat (vpn_of (0xffe + k)) = (0xffe + unat k) div 4096" by (simp add: unat_vpn_of)
    also have "\<dots> = (if unat k < 2 then 0 else 1)" using u(1) by (auto simp: div_nat_eqI)
    finally show ?thesis using u(2) by (simp add: word_eq_unat)
  qed
  show "\<exists>f. rc = XFault f" if a: "a = 0xffe"
  proof -
    have "phys (dm_mmu demo_mem1) (0xffe + 2) = None" using demo_lookup(2) [of "0xffe + 2"] at [of 2] by (simp add: phys_def)
    then have "rc \<noteq> XOk" using R a by (auto dest: spec [of _ 2])
    then have lt: "r_done r' < 4" and alt: "rc = XErr EFAULT \<Longrightarrow> fst (pt_lookup (dm_mmu demo_mem1) (0xffe + r_done r')) = NotPresent"
      "rc = XErr EFAULT \<or> (\<exists>f. rc = XFault f)"
      using R a by auto
    have "fst (pt_lookup (dm_mmu demo_mem1) (0xffe + r_done r')) \<noteq> NotPresent"
      using demo_lookup(2) [of "0xffe + r_done r'"] at [OF lt] demo_migrated(2)
      by (cases "r_done r' < 2") (auto simp: pt_lookup_def Let_def resident_def)
    with alt show ?thesis by blast
  qed
qed


theorem range_outcome_witness:
  "fst (execute (\<lambda>_ _. 0) (\<lambda>_ _. 0) 0 (fill_demo 0x10) (fresh_replay, demo_mem1)) = XOk"
proof -
  let ?c = "fill_demo 0x10" and ?f = "\<lambda>_ _. 0 :: u32"
  obtain rc r' d' where g: "execute ?f ?f 0 ?c (fresh_replay, demo_mem1) = (rc, r', d')" by (metis prod_cases3)
  have inv: "mem_inv demo_mem1" using demo_migrated(1) by (simp add: env_def)
  have "rc = XOk"
    using range_outcome [OF inv _ demo_wf _ demo_op g, unfolded demo_sel] demo_lookup(1) [OF demo_near]
    by (simp add: SG_MAX_ENGINES_def)
  with g show ?thesis by simp
qed

theorem retry_progress_witness:
  "\<exists>d1 f r2 d3. execute (\<lambda>_ _. 0) (\<lambda>_ _. 0) 0 (fill_demo 0xffe) (fresh_replay, demo_mem) = (XFault 0, fresh_replay, d1) \<and>
     env d1 demo_mem1 \<and>
     execute (\<lambda>_ _. 0) (\<lambda>_ _. 0) 0 (fill_demo 0xffe) (fresh_replay, demo_mem1) = (XFault f, r2, d3) \<and> 0 < r_done r2 \<and> r_done r2 < 4"
proof -
  let ?c = "fill_demo 0xffe" and ?f = "\<lambda>_ _. 0 :: u32"
  obtain d1 where f: "execute ?f ?f 0 ?c (fresh_replay, demo_mem) = (XFault 0, fresh_replay, d1)" using demo_fault by blast
  obtain rc r2 d3 where g: "execute ?f ?f 0 ?c (fresh_replay, demo_mem1) = (rc, r2, d3)" by (metis prod_cases3)
  with demo_step(2) [OF g refl] obtain f2 where g2: "execute ?f ?f 0 ?c (fresh_replay, demo_mem1) = (XFault f2, r2, d3)" by blast
  have "vpn_of 0 = 0" by code_simp
  then have "0 < r_done r2 \<and> r_done r2 < 4"
    using retry_progress [OF demo_mem_inv _ demo_wf _ demo_op(1) f demo_resume [OF f] _ g2] demo_migrated(2)
    by (simp add: SG_MAX_ENGINES_def demo_sel)
  with f g2 demo_resume [OF f] show ?thesis by blast
qed

end
