(* ===== verification/Device.thy ===== *)
theory Device
  imports Commands
begin

text \<open>
  The register file of the device (\<^verbatim>\<open>src/src/device/device.h\<close>, \<^verbatim>\<open>device.cpp\<close>): channels with their PUT, GET,
  interrupt and fault registers, the per-engine counters, the doorbells, the fault queue and the interrupt
  line. \<^verbatim>\<open>Event\<close> is its sequence word, counted without wrap-around (a waiter compares it with the value it read before
  one sleep of at most a millisecond); \<^verbatim>\<open>now_cycles()\<close> and \<^verbatim>\<open>thread_cpu_ns()\<close> read the fields \<open>dv_now\<close> and
  \<open>dv_cpu\<close>, which the environment sets. The address \<^verbatim>\<open>ring_base\<close> is the ring it points to.
\<close>

section \<open>State\<close>

record channel =
  ch_ring :: "u64 \<Rightarrow> sg_cmd"
  ring_mask :: u32
  ch_put :: u64
  ch_get :: u64
  sticky_error :: "errno option"
  irq_target :: u64
  last_irq_cycles :: u64
  parked :: bool
  fault_fail :: "errno option"
  priority :: int

record engine_stats =
  busy_cycles :: u64
  wait_cycles :: u64
  idle_cycles :: u64
  cmds_executed :: u64
  batches :: u64
  irqs :: u64
  sleep_cycles :: u64
  wakeups :: u64
  missed_doorbells :: u64
  cpu_ns :: u64
  st_faults :: u64
  preempts :: u64
  stats_gen :: u32

record fault =
  f_va :: u64
  f_engine :: u32
  f_channel :: u32

record device =
  dv_ch :: "u32 \<Rightarrow> u32 \<Rightarrow> channel"
  dv_replay :: "u32 \<Rightarrow> u32 \<Rightarrow> replay"
  dv_stats :: "u32 \<Rightarrow> engine_stats"
  dv_access :: "u32 \<Rightarrow> u64"
  dv_irq :: nat
  dv_last_irq :: u64
  dv_fault_irq :: nat
  dv_faults :: "fault list"
  dv_bell :: "u32 \<Rightarrow> nat"
  dv_inflight :: "u32 \<Rightarrow> u32"
  dv_words :: "(u32 \<Rightarrow> u32) option"
  dv_host_irq :: bool
  dv_kmod_irqs :: nat
  dv_asleep :: "u32 \<Rightarrow> bool"
  dv_asleep_blocked :: "u32 \<Rightarrow> bool"
  dv_wake_stamp :: "u32 \<Rightarrow> u64"
  dv_num_asleep_blocked :: u32
  dv_idle_policy :: sg_idle_policy
  dv_idle_ns :: u64
  dv_timeslice_ns :: u64
  dv_mixed_priority :: bool
  num_engines :: u32
  num_channels :: u32
  dv_mem :: dev_mem
  dv_running :: bool
  dv_now :: u64
  dv_cpu :: "u32 \<Rightarrow> u64"

definition upd_ch :: "u32 \<Rightarrow> u32 \<Rightarrow> (channel \<Rightarrow> channel) \<Rightarrow> device \<Rightarrow> device" where
  "upd_ch e c f d = d\<lparr>dv_ch := (dv_ch d)(e := (dv_ch d e)(c := f (dv_ch d e c)))\<rparr>"

definition upd_stats :: "u32 \<Rightarrow> (engine_stats \<Rightarrow> engine_stats) \<Rightarrow> device \<Rightarrow> device" where
  "upd_stats e f d = d\<lparr>dv_stats := (dv_stats d)(e := f (dv_stats d e))\<rparr>"

definition set_replay :: "u32 \<Rightarrow> u32 \<Rightarrow> replay \<Rightarrow> device \<Rightarrow> device" where
  "set_replay e c r d = d\<lparr>dv_replay := (dv_replay d)(e := (dv_replay d e)(c := r))\<rparr>"

definition engine_list :: "device \<Rightarrow> u32 list" where
  "engine_list d = map of_nat [0 ..< unat (num_engines d)]"

definition channel_list :: "device \<Rightarrow> u32 list" where
  "channel_list d = map of_nat [0 ..< unat (num_channels d)]"

section \<open>Operations\<close>

definition fresh_channel :: channel where
  "fresh_channel = \<lparr>ch_ring = (\<lambda>_. zero_cmd), ring_mask = 0, ch_put = 0, ch_get = 0, sticky_error = None, irq_target = 0,
     last_irq_cycles = 0, parked = False, fault_fail = None, priority = 0\<rparr>"

definition fresh_stats :: engine_stats where
  "fresh_stats = \<lparr>busy_cycles = 0, wait_cycles = 0, idle_cycles = 0, cmds_executed = 0, batches = 0, irqs = 0, sleep_cycles = 0,
     wakeups = 0, missed_doorbells = 0, cpu_ns = 0, st_faults = 0, preempts = 0, stats_gen = 0\<rparr>"

definition device_new :: "u64 \<Rightarrow> u64 \<Rightarrow> u32 \<Rightarrow> u32 \<Rightarrow> (u64 \<Rightarrow> u8) \<Rightarrow> device" where
  "device_new vram_sz va_sz copy_engines channels host =
     \<lparr>dv_ch = (\<lambda>_ _. fresh_channel), dv_replay = (\<lambda>_ _. fresh_replay), dv_stats = (\<lambda>_. fresh_stats), dv_access = (\<lambda>_. 0),
      dv_irq = 0, dv_last_irq = 0, dv_fault_irq = 0, dv_faults = [], dv_bell = (\<lambda>_. 0), dv_inflight = (\<lambda>_. 0), dv_words = None,
      dv_host_irq = False, dv_kmod_irqs = 0, dv_asleep = (\<lambda>_. False), dv_asleep_blocked = (\<lambda>_. False), dv_wake_stamp = (\<lambda>_. 0),
      dv_num_asleep_blocked = 0, dv_idle_policy = SG_IDLE_HYBRID, dv_idle_ns = 50000, dv_timeslice_ns = 0,
      dv_mixed_priority = False, num_engines = 1 + copy_engines, num_channels = channels,
      dv_mem = mem_new vram_sz va_sz host, dv_running = False, dv_now = 0, dv_cpu = (\<lambda>_. 0)\<rparr>"

definition signal_bell :: "u32 \<Rightarrow> device \<Rightarrow> device" where
  "signal_bell e d = d\<lparr>dv_bell := (dv_bell d)(e := dv_bell d e + 1)\<rparr>"

definition stamp_and_signal :: "u32 \<Rightarrow> device \<Rightarrow> device" where
  "stamp_and_signal e d = signal_bell e (d\<lparr>dv_wake_stamp := (dv_wake_stamp d)(e := dv_now d)\<rparr>)"

definition power_off :: "device \<Rightarrow> device" where
  "power_off d = (if \<not> dv_running d then d
     else fold signal_bell (engine_list d) (d\<lparr>dv_running := False\<rparr>))"

definition wake_blocked_sleepers :: "u32 \<Rightarrow> device \<Rightarrow> device" where
  "wake_blocked_sleepers self d =
     (if dv_num_asleep_blocked d = 0 then d
      else fold (\<lambda>e d. if e \<noteq> self \<and> dv_asleep_blocked d e then stamp_and_signal e d else d) (engine_list d) d)"

definition reset_stats :: "device \<Rightarrow> device" where
  "reset_stats d =
     (let d1 = fold (\<lambda>e. upd_stats e (\<lambda>st. fresh_stats\<lparr>cpu_ns := cpu_ns st, stats_gen := stats_gen st + 1\<rparr>)) (engine_list d) d
      in d1\<lparr>dv_mem := (dv_mem d1)\<lparr>dm_mmu := mmu_reset_stats (dm_mmu (dv_mem d1))\<rparr>\<rparr>)"

definition set_channel_priority :: "u32 \<Rightarrow> u32 \<Rightarrow> int \<Rightarrow> device \<Rightarrow> errno option \<times> device" where
  "set_channel_priority e c prio d =
     (if e \<ge> num_engines d \<or> c \<ge> num_channels d then (Some EINVAL, d)
      else if prio > SG_PRIORITY_LEAST \<or> prio < SG_PRIORITY_GREATEST then (Some EINVAL, d)
      else let d1 = upd_ch e c (priority_update (\<lambda>_. prio)) d in
        (None, d1\<lparr>dv_mixed_priority :=
           list_ex (\<lambda>e. list_ex (\<lambda>c. priority (dv_ch d1 e c) \<noteq> SG_PRIORITY_LEAST) (channel_list d1)) (engine_list d1)\<rparr>))"

definition push_fault :: "fault \<Rightarrow> device \<Rightarrow> device" where
  "push_fault f d = d\<lparr>dv_faults := dv_faults d @ [f], dv_fault_irq := dv_fault_irq d + 1\<rparr>"

definition pop_fault :: "device \<Rightarrow> fault option \<times> device" where
  "pop_fault d = (case dv_faults d of [] \<Rightarrow> (None, d) | f # fs \<Rightarrow> (Some f, d\<lparr>dv_faults := fs\<rparr>))"

definition begin_doorbell :: "u32 \<Rightarrow> device \<Rightarrow> device" where
  "begin_doorbell e d = d\<lparr>dv_inflight := (dv_inflight d)(e := dv_inflight d e + 1)\<rparr>"

definition end_doorbell :: "u32 \<Rightarrow> device \<Rightarrow> device" where
  "end_doorbell e d = d\<lparr>dv_inflight := (dv_inflight d)(e := dv_inflight d e - 1)\<rparr>"

definition doorbell :: "u32 \<Rightarrow> device \<Rightarrow> device" where
  "doorbell e d =
     (let d1 = (case dv_words d of None \<Rightarrow> d | Some w \<Rightarrow> d\<lparr>dv_words := Some (w(e := w e + 1))\<rparr>)
      in if dv_asleep d1 e then stamp_and_signal e d1 else d1)"

definition unpark :: "u32 \<Rightarrow> u32 \<Rightarrow> device \<Rightarrow> device" where
  "unpark e c d = doorbell e (upd_ch e c (parked_update (\<lambda>_. False)) d)"

definition raise_host_irq :: "device \<Rightarrow> device" where
  "raise_host_irq d = (if dv_host_irq d then d\<lparr>dv_kmod_irqs := dv_kmod_irqs d + 1\<rparr> else d\<lparr>dv_irq := dv_irq d + 1\<rparr>)"

text \<open>The first error sticks.\<close>

definition note_error :: "u32 \<Rightarrow> u32 \<Rightarrow> errno \<Rightarrow> device \<Rightarrow> device" where
  "note_error e c er = upd_ch e c (sticky_error_update (\<lambda>s. case s of None \<Rightarrow> Some er | Some x \<Rightarrow> Some x))"

end
