(* ===== verification/Runlist.thy ===== *)
theory Runlist
  imports Device
begin

text \<open>
  The engine thread (\<^verbatim>\<open>Device::run\<close>): the scan over the channels, the visit of the chosen one, retirement and
  interrupts, preemption at command boundaries, time accounting and idle gating. The thread is a program
  counter with the locals of the loop; \<open>engine_step\<close> runs it from one group of accesses to shared state to the next
  (a scan step reads the registers of one channel at once), so that the steps of other threads can fall in between.
\<close>

section \<open>The thread\<close>

datatype pc =
    Top
  | Scan u32
  | ScanHead u32 u32 u64
  | Pick
  | Visit u32
  | RunCmd u32
  | Park u32 u64
  | Push u32 u64
  | Retire u32 "errno option"
  | Wake u32
  | IrqLoad u32 pc
  | IrqClear u32 pc
  | IrqSignal u32 pc
  | Boundary u32
  | EndVisit
  | Account
  | Arm
  | SetAsleep
  | SetBlocked
  | CountBlocked
  | Recheck u32
  | GoSleep
  | Asleep
  | Missed u32
  | MissedCheck
  | AfterSleep
  | Disarm bool
  | Unblock bool
  | Stop

record engine_thr =
  th_pc :: pc
  th_get :: "u32 \<Rightarrow> u64"
  th_mark :: u64
  th_gen :: u32
  th_was_active :: bool
  th_gap_start :: u64
  th_gap_ewma :: u64
  th_seen_put :: "u32 \<Rightarrow> u64"
  th_last_cpu_pub :: u64
  th_woke :: bool
  th_aseq :: u64
  th_rr :: u32
  th_progress :: bool
  th_pending :: bool
  th_chosen :: "u32 option"
  th_chosen_prio :: int
  th_retired :: bool
  th_put :: u64
  th_slice_start :: u64
  th_t0 :: u64
  th_now :: u64
  th_seen :: nat
  th_t_sleep :: u64
  th_t_wake :: u64

type_synonym est = "engine_thr \<times> device"

definition go :: "pc \<Rightarrow> engine_thr \<Rightarrow> engine_thr" where
  "go p t = t\<lparr>th_pc := p\<rparr>"

text \<open>The locals of \<^verbatim>\<open>run\<close> before its loop.\<close>

definition thread_new :: "u32 \<Rightarrow> device \<Rightarrow> engine_thr" where
  "thread_new e d =
     \<lparr>th_pc = Top, th_get = (\<lambda>c. ch_get (dv_ch d e c)), th_mark = dv_now d, th_gen = stats_gen (dv_stats d e),
      th_was_active = False, th_gap_start = dv_now d, th_gap_ewma = 0, th_seen_put = (\<lambda>_. 0), th_last_cpu_pub = dv_now d,
      th_woke = False, th_aseq = dv_access d e, th_rr = 0, th_progress = False, th_pending = False, th_chosen = None,
      th_chosen_prio = 0, th_retired = False, th_put = 0, th_slice_start = 0, th_t0 = 0, th_now = 0, th_seen = 0,
      th_t_sleep = 0, th_t_wake = 0\<rparr>"

definition head_cmd :: "u32 \<Rightarrow> u32 \<Rightarrow> engine_thr \<Rightarrow> device \<Rightarrow> sg_cmd" where
  "head_cmd e c t d = ch_ring (dv_ch d e c) (th_get t c AND ucast (ring_mask (dv_ch d e c)))"

definition wait_blocked :: "device \<Rightarrow> sg_cmd \<Rightarrow> bool" where
  "wait_blocked d cmd \<longleftrightarrow> opcode cmd = SG_OP_WAIT_FENCE \<and> arg0 cmd < num_engines d \<and> arg1 cmd < num_channels d \<and>
     ch_get (dv_ch d (arg0 cmd) (arg1 cmd)) < src1 cmd"

definition other_runnable :: "u32 \<Rightarrow> u32 \<Rightarrow> int \<Rightarrow> bool \<Rightarrow> engine_thr \<Rightarrow> device \<Rightarrow> bool" where
  "other_runnable e self self_prio better t d \<longleftrightarrow>
     list_ex (\<lambda>c. c \<noteq> self \<and>
       (let k = dv_ch d e c in
        \<not> (if better then priority k \<ge> self_prio else priority k \<noteq> self_prio) \<and>
        \<not> parked k \<and> \<not> ch_put k \<le> th_get t c \<and> \<not> wait_blocked d (head_cmd e c t d))) (channel_list d)"

section \<open>The scan\<close>

definition loop_top :: "engine_thr \<Rightarrow> device \<Rightarrow> est" where
  "loop_top t d =
     (if dv_running d
      then (t\<lparr>th_progress := False, th_pending := False, th_chosen := None, th_chosen_prio := 0, th_retired := False, th_pc := Scan 0\<rparr>, d)
      else (go Stop t, d))"

text \<open>One iteration: the PUT and a failed migration first, then the state of the head command.\<close>

definition scan_channel :: "u32 \<Rightarrow> u32 \<Rightarrow> engine_thr \<Rightarrow> device \<Rightarrow> est" where
  "scan_channel e i t d =
     (let c = (th_rr t + i) mod num_channels d; ch = dv_ch d e c; p = ch_put ch; g = th_get t c;
          t1 = t\<lparr>th_seen_put := (th_seen_put t)(c := p)\<rparr>
      in case fault_fail ch of
           Some er \<Rightarrow>
             (let d1 = note_error e c er (upd_ch e c (fault_fail_update (\<lambda>_. None)) d)
              in if p \<noteq> g
                 then (t1\<lparr>th_get := (th_get t)(c := g + 1), th_progress := True, th_pc := IrqLoad c (Scan (i + 1))\<rparr>,
                       upd_ch e c (ch_get_update (\<lambda>_. g + 1)) (set_replay e c fresh_replay d1))
                 else (go (Scan (i + 1)) t1, d1))
         | None \<Rightarrow> (go (ScanHead i c p) t1, d))"

definition scan_head :: "u32 \<Rightarrow> u32 \<Rightarrow> u32 \<Rightarrow> u64 \<Rightarrow> engine_thr \<Rightarrow> device \<Rightarrow> est" where
  "scan_head e i c p t d =
     (let ch = dv_ch d e c; g = th_get t c; t1 = go (Scan (i + 1)) t
      in if parked ch then (if p \<noteq> g then t1\<lparr>th_pending := True\<rparr> else t1, d)
         else if p = g then (t1, d)
         else if p < g then (t1, note_error e c EIO d)
         else if wait_blocked d (head_cmd e c t d) then (t1\<lparr>th_pending := True\<rparr>, d)
         else if th_chosen t = None \<or> priority ch < th_chosen_prio t
              then (t1\<lparr>th_pending := True, th_chosen := Some c, th_chosen_prio := priority ch\<rparr>, d)
              else (t1\<lparr>th_pending := True\<rparr>, d))"

definition scan :: "u32 \<Rightarrow> u32 \<Rightarrow> engine_thr \<Rightarrow> device \<Rightarrow> est" where
  "scan e i t d = (if i < num_channels d then scan_channel e i t d else (go Pick t, d))"

definition pick :: "engine_thr \<Rightarrow> device \<Rightarrow> est" where
  "pick t d =
     (case th_chosen t of
        None \<Rightarrow> (go EndVisit t, d)
      | Some c \<Rightarrow> (t\<lparr>th_rr := (c + 1) mod num_channels d, th_put := th_seen_put t c, th_slice_start := dv_now d, th_pc := Visit c\<rparr>, d))"

section \<open>The visit\<close>

definition visit :: "u32 \<Rightarrow> u32 \<Rightarrow> engine_thr \<Rightarrow> device \<Rightarrow> est" where
  "visit e c t d =
     (if th_get t c = th_put t then (go EndVisit t, d)
      else let cmd = head_cmd e c t d in
        if opcode cmd = SG_OP_WAIT_FENCE then
          if arg0 cmd \<ge> num_engines d \<or> arg1 cmd \<ge> num_channels d then (go (Retire c (Some EINVAL)) t, d)
          else if wait_blocked d cmd then (go EndVisit t, d)
          else (go (Retire c None) t, d)
        else (t\<lparr>th_t0 := dv_now d, th_aseq := th_aseq t + 1, th_pc := RunCmd c\<rparr>,
              d\<lparr>dv_access := (dv_access d)(e := th_aseq t + 1)\<rparr>))"

definition run_cmd :: "(u32 \<Rightarrow> u32 \<Rightarrow> u32) \<Rightarrow> (u32 \<Rightarrow> u32 \<Rightarrow> u32) \<Rightarrow> u32 \<Rightarrow> u32 \<Rightarrow> engine_thr \<Rightarrow> device \<Rightarrow> est" where
  "run_cmd fadd fmul e c t d =
     (case execute fadd fmul e (head_cmd e c t d) (dv_replay d e c, dv_mem d) of
        (rc, r, m) \<Rightarrow>
          (let t1 = t\<lparr>th_aseq := th_aseq t + 1\<rparr>;
               d1 = upd_stats e (\<lambda>st. st\<lparr>busy_cycles := busy_cycles st + (dv_now d - th_t0 t)\<rparr>)
                      (set_replay e c r (d\<lparr>dv_mem := m, dv_access := (dv_access d)(e := th_aseq t + 1)\<rparr>));
               d2 = set_replay e c (if r_gather r then fresh_replay else r\<lparr>r_done := 0\<rparr>) d1
           in case rc of
                XFault va \<Rightarrow> (go (Park c va) t1, d1)
              | XOk \<Rightarrow> (go (Retire c None) t1, d2)
              | XErr er \<Rightarrow> (go (Retire c (Some er)) t1, d2)))"

definition park :: "u32 \<Rightarrow> u32 \<Rightarrow> u64 \<Rightarrow> engine_thr \<Rightarrow> device \<Rightarrow> est" where
  "park e c va t d = (go (Push c va) t, upd_stats e (\<lambda>st. st\<lparr>st_faults := st_faults st + 1\<rparr>) (upd_ch e c (parked_update (\<lambda>_. True)) d))"

definition push :: "u32 \<Rightarrow> u32 \<Rightarrow> u64 \<Rightarrow> engine_thr \<Rightarrow> device \<Rightarrow> est" where
  "push e c va t d = (go EndVisit t, push_fault \<lparr>f_va = va, f_engine = e, f_channel = c\<rparr> d)"

definition retire :: "u32 \<Rightarrow> u32 \<Rightarrow> errno option \<Rightarrow> engine_thr \<Rightarrow> device \<Rightarrow> est" where
  "retire e c rc t d =
     (let d1 = (case rc of None \<Rightarrow> d | Some er \<Rightarrow> note_error e c er d); g = th_get t c + 1
      in (t\<lparr>th_get := (th_get t)(c := g), th_retired := True, th_pc := Wake c\<rparr>,
          upd_ch e c (ch_get_update (\<lambda>_. g)) (upd_stats e (\<lambda>st. st\<lparr>cmds_executed := cmds_executed st + 1\<rparr>) d1)))"

definition wake :: "u32 \<Rightarrow> u32 \<Rightarrow> engine_thr \<Rightarrow> device \<Rightarrow> est" where
  "wake e c t d = (go (IrqLoad c (Boundary c)) t, wake_blocked_sleepers e d)"

text \<open>The interrupt, in the three steps of the code: test, clear, signal.\<close>

definition irq_load :: "u32 \<Rightarrow> u32 \<Rightarrow> pc \<Rightarrow> engine_thr \<Rightarrow> device \<Rightarrow> est" where
  "irq_load e c k t d =
     (let tgt = irq_target (dv_ch d e c) in (go (if tgt \<noteq> 0 \<and> th_get t c \<ge> tgt then IrqClear c k else k) t, d))"

definition irq_clear :: "u32 \<Rightarrow> u32 \<Rightarrow> pc \<Rightarrow> engine_thr \<Rightarrow> device \<Rightarrow> est" where
  "irq_clear e c k t d =
     (go (IrqSignal c k) t,
      upd_stats e (\<lambda>st. st\<lparr>irqs := irqs st + 1\<rparr>)
        ((upd_ch e c (\<lambda>k. k\<lparr>irq_target := 0, last_irq_cycles := dv_now d\<rparr>) d)\<lparr>dv_last_irq := dv_now d\<rparr>))"

definition irq_signal :: "pc \<Rightarrow> engine_thr \<Rightarrow> device \<Rightarrow> est" where
  "irq_signal k t d = (go k t, raise_host_irq d)"

definition boundary :: "u32 \<Rightarrow> u32 \<Rightarrow> engine_thr \<Rightarrow> device \<Rightarrow> est" where
  "boundary e c t d =
     (let p = (if th_get t c = th_put t then ch_put (dv_ch d e c) else th_put t); t1 = t\<lparr>th_put := p\<rparr>;
          mixed = dv_mixed_priority d;
          slice_due = (dv_timeslice_ns d \<noteq> 0 \<and> dv_now d - th_slice_start t \<ge> dv_timeslice_ns d);
          self = priority (dv_ch d e c);
          preempt = upd_stats e (\<lambda>st. st\<lparr>preempts := preempts st + 1\<rparr>) d
      in if th_get t c = p then (go EndVisit t1, d)
         else if mixed \<and> other_runnable e c self True t d then (go EndVisit t1, preempt)
         else if slice_due then
           if other_runnable e c self False t d then (go EndVisit t1, preempt)
           else (go (Visit c) (t1\<lparr>th_slice_start := dv_now d\<rparr>), d)
         else (go (Visit c) t1, d))"

definition end_visit :: "engine_thr \<Rightarrow> device \<Rightarrow> est" where
  "end_visit t d =
     (let progress = th_progress t \<or> th_retired t
      in (t\<lparr>th_progress := progress, th_pc := (if th_chosen t \<noteq> None \<and> \<not> th_retired t \<and> \<not> progress then Top else Account)\<rparr>, d))"

section \<open>Accounting and idle gating\<close>

definition publish_cpu :: "u32 \<Rightarrow> device \<Rightarrow> device" where
  "publish_cpu e d = upd_stats e (\<lambda>st. st\<lparr>cpu_ns := dv_cpu d e\<rparr>) d"

definition add_idle :: "bool \<Rightarrow> u64 \<Rightarrow> engine_stats \<Rightarrow> engine_stats" where
  "add_idle pending dt st =
     (if pending then st\<lparr>wait_cycles := wait_cycles st + dt\<rparr> else st\<lparr>idle_cycles := idle_cycles st + dt\<rparr>)"

definition idle_budget :: "u64 \<Rightarrow> device \<Rightarrow> u64" where
  "idle_budget ewma d =
     (case dv_idle_policy d of
        SG_IDLE_SPIN \<Rightarrow> NOT 0
      | SG_IDLE_SLEEP \<Rightarrow> 0
      | SG_IDLE_ADAPTIVE \<Rightarrow>
          (if ewma = 0 then dv_idle_ns d else if ewma > dv_idle_ns d then 2000
           else max 2000 (min (2 * ewma) (dv_idle_ns d)))
      | SG_IDLE_HYBRID \<Rightarrow> dv_idle_ns d)"

definition active_round :: "u32 \<Rightarrow> u64 \<Rightarrow> engine_thr \<Rightarrow> device \<Rightarrow> est" where
  "active_round e now t d =
     (let stamp = dv_wake_stamp d e;
          stop = (if th_woke t \<and> stamp > th_gap_start t \<and> stamp < now then stamp else now);
          gap = stop - th_gap_start t;
          t1 = (if th_was_active t then t
                else t\<lparr>th_gap_ewma := (if th_gap_ewma t = 0 then gap else (3 * th_gap_ewma t + gap) div 4)\<rparr>)
      in (t1\<lparr>th_was_active := True, th_woke := False, th_mark := now, th_pc := Top\<rparr>,
          if th_was_active t then d else upd_stats e (\<lambda>st. st\<lparr>batches := batches st + 1\<rparr>) d))"

definition idle_round :: "u32 \<Rightarrow> u64 \<Rightarrow> engine_thr \<Rightarrow> device \<Rightarrow> est" where
  "idle_round e now t d =
     (let g = stats_gen (dv_stats d e);
          mark = (if g \<noteq> th_gen t then now else th_mark t);
          t1 = t\<lparr>th_gen := g, th_gap_start := (if th_was_active t then now else th_gap_start t), th_was_active := False, th_now := now\<rparr>;
          budget = idle_budget (th_gap_ewma t) d; sleep = (budget \<noteq> NOT 0 \<and> now - th_gap_start t1 \<ge> budget)
      in (if sleep then t1\<lparr>th_mark := mark, th_pc := Arm\<rparr> else t1\<lparr>th_mark := now, th_pc := Top\<rparr>,
          upd_stats e (add_idle (th_pending t) (now - mark)) d))"

definition account :: "u32 \<Rightarrow> engine_thr \<Rightarrow> device \<Rightarrow> est" where
  "account e t d =
     (let now = dv_now d; due = now - th_last_cpu_pub t > 1000000;
          t1 = (if due then t\<lparr>th_last_cpu_pub := now\<rparr> else t);
          d1 = (if due then publish_cpu e d else d)
      in if th_progress t then active_round e now t1 d1 else idle_round e now t1 d1)"

text \<open>Arm, then look at every channel again, then sleep.\<close>

definition arm :: "u32 \<Rightarrow> engine_thr \<Rightarrow> device \<Rightarrow> est" where
  "arm e t d = (t\<lparr>th_seen := dv_bell d e, th_pc := SetAsleep\<rparr>, d)"

definition set_asleep :: "u32 \<Rightarrow> engine_thr \<Rightarrow> device \<Rightarrow> est" where
  "set_asleep e t d = (go (if th_pending t then SetBlocked else Recheck 0) t, d\<lparr>dv_asleep := (dv_asleep d)(e := True)\<rparr>)"

definition set_blocked :: "u32 \<Rightarrow> engine_thr \<Rightarrow> device \<Rightarrow> est" where
  "set_blocked e t d = (go CountBlocked t, d\<lparr>dv_asleep_blocked := (dv_asleep_blocked d)(e := True)\<rparr>)"

definition count_blocked :: "engine_thr \<Rightarrow> device \<Rightarrow> est" where
  "count_blocked t d = (go (Recheck 0) t, d\<lparr>dv_num_asleep_blocked := dv_num_asleep_blocked d + 1\<rparr>)"

definition recheck :: "u32 \<Rightarrow> u32 \<Rightarrow> engine_thr \<Rightarrow> device \<Rightarrow> est" where
  "recheck e c t d =
     (if c \<ge> num_channels d then (go GoSleep t, d)
      else let ch = dv_ch d e c; p = ch_put ch; head = head_cmd e c t d in
        if parked ch then (go (Recheck (c + 1)) t, d)
        else if p \<noteq> th_seen_put t c then (go (Disarm True) t, d)
        else if p \<noteq> th_get t c \<and>
            (opcode head \<noteq> SG_OP_WAIT_FENCE \<or> arg0 head \<ge> num_engines d \<or> arg1 head \<ge> num_channels d \<or>
             ch_get (dv_ch d (arg0 head) (arg1 head)) \<ge> src1 head)
          then (go (Disarm True) t, d)
        else (go (Recheck (c + 1)) t, d))"

definition go_sleep :: "u32 \<Rightarrow> engine_thr \<Rightarrow> device \<Rightarrow> est" where
  "go_sleep e t d = (t\<lparr>th_t_sleep := dv_now d, th_pc := Asleep\<rparr>, publish_cpu e d)"

text \<open>The return from \<^verbatim>\<open>wait\<close>, by a signal, the timeout, or for no reason.\<close>

definition wake_up :: "u32 \<Rightarrow> engine_thr \<Rightarrow> device \<Rightarrow> est" where
  "wake_up e t d =
     (let woke = (dv_bell d e \<noteq> th_seen t)
      in (t\<lparr>th_t_wake := dv_now d, th_woke := woke, th_pc := (if woke then AfterSleep else Missed 0)\<rparr>,
          upd_stats e (\<lambda>st. st\<lparr>sleep_cycles := sleep_cycles st + (dv_now d - th_t_sleep t), wakeups := wakeups st + 1\<rparr>) d))"

definition missed :: "u32 \<Rightarrow> u32 \<Rightarrow> engine_thr \<Rightarrow> device \<Rightarrow> est" where
  "missed e c t d =
     (if c \<ge> num_channels d then (go AfterSleep t, d)
      else if ch_put (dv_ch d e c) \<noteq> th_seen_put t c then (go MissedCheck t, d)
      else (go (Missed (c + 1)) t, d))"

definition missed_check :: "u32 \<Rightarrow> engine_thr \<Rightarrow> device \<Rightarrow> est" where
  "missed_check e t d =
     (go AfterSleep t,
      if dv_inflight d e = 0 then upd_stats e (\<lambda>st. st\<lparr>missed_doorbells := missed_doorbells st + 1\<rparr>) d else d)"

definition after_sleep :: "u32 \<Rightarrow> engine_thr \<Rightarrow> device \<Rightarrow> est" where
  "after_sleep e t d =
     (t\<lparr>th_mark := th_t_wake t, th_pc := Disarm False\<rparr>, upd_stats e (add_idle (th_pending t) (th_t_wake t - th_t_sleep t)) d)"

definition disarm :: "u32 \<Rightarrow> bool \<Rightarrow> engine_thr \<Rightarrow> device \<Rightarrow> est" where
  "disarm e work t d = (go (Unblock work) t, d\<lparr>dv_asleep := (dv_asleep d)(e := False)\<rparr>)"

definition unblock :: "u32 \<Rightarrow> bool \<Rightarrow> engine_thr \<Rightarrow> device \<Rightarrow> est" where
  "unblock e work t d =
     (t\<lparr>th_mark := (if work then th_now t else th_mark t), th_pc := Top\<rparr>,
      if th_pending t
      then d\<lparr>dv_asleep_blocked := (dv_asleep_blocked d)(e := False), dv_num_asleep_blocked := dv_num_asleep_blocked d - 1\<rparr>
      else d)"

section \<open>One step\<close>

fun engine_step :: "(u32 \<Rightarrow> u32 \<Rightarrow> u32) \<Rightarrow> (u32 \<Rightarrow> u32 \<Rightarrow> u32) \<Rightarrow> u32 \<Rightarrow> est \<Rightarrow> est" where
  "engine_step fadd fmul e (t, d) =
     (case th_pc t of
        Top \<Rightarrow> loop_top t d
      | Scan i \<Rightarrow> scan e i t d
      | ScanHead i c p \<Rightarrow> scan_head e i c p t d
      | Pick \<Rightarrow> pick t d
      | Visit c \<Rightarrow> visit e c t d
      | RunCmd c \<Rightarrow> run_cmd fadd fmul e c t d
      | Park c va \<Rightarrow> park e c va t d
      | Push c va \<Rightarrow> push e c va t d
      | Retire c rc \<Rightarrow> retire e c rc t d
      | Wake c \<Rightarrow> wake e c t d
      | IrqLoad c k \<Rightarrow> irq_load e c k t d
      | IrqClear c k \<Rightarrow> irq_clear e c k t d
      | IrqSignal c k \<Rightarrow> irq_signal k t d
      | Boundary c \<Rightarrow> boundary e c t d
      | EndVisit \<Rightarrow> end_visit t d
      | Account \<Rightarrow> account e t d
      | Arm \<Rightarrow> arm e t d
      | SetAsleep \<Rightarrow> set_asleep e t d
      | SetBlocked \<Rightarrow> set_blocked e t d
      | CountBlocked \<Rightarrow> count_blocked t d
      | Recheck c \<Rightarrow> recheck e c t d
      | GoSleep \<Rightarrow> go_sleep e t d
      | Asleep \<Rightarrow> wake_up e t d
      | Missed c \<Rightarrow> missed e c t d
      | MissedCheck \<Rightarrow> missed_check e t d
      | AfterSleep \<Rightarrow> after_sleep e t d
      | Disarm w \<Rightarrow> disarm e w t d
      | Unblock w \<Rightarrow> unblock e w t d
      | Stop \<Rightarrow> (t, d))"

section \<open>What a step may change\<close>

lemma upd_ch_sel [simp]:
  "dv_ch (upd_ch e c f d) e' c' = (if e' = e \<and> c' = c then f (dv_ch d e c) else dv_ch d e' c')"
  "num_engines (upd_ch e c f d) = num_engines d" "num_channels (upd_ch e c f d) = num_channels d"
  "dv_inflight (upd_ch e c f d) = dv_inflight d" "dv_asleep (upd_ch e c f d) = dv_asleep d" "dv_bell (upd_ch e c f d) = dv_bell d"
  "dv_faults (upd_ch e c f d) = dv_faults d" "dv_irq (upd_ch e c f d) = dv_irq d" "dv_host_irq (upd_ch e c f d) = dv_host_irq d"
  "dv_stats (upd_ch e c f d) = dv_stats d" "dv_words (upd_ch e c f d) = dv_words d" "dv_running (upd_ch e c f d) = dv_running d"
  "dv_asleep_blocked (upd_ch e c f d) = dv_asleep_blocked d" "dv_num_asleep_blocked (upd_ch e c f d) = dv_num_asleep_blocked d"
  by (simp_all add: upd_ch_def)

lemma upd_stats_sel [simp]:
  "dv_ch (upd_stats e f d) = dv_ch d"
  "num_engines (upd_stats e f d) = num_engines d" "num_channels (upd_stats e f d) = num_channels d"
  "dv_inflight (upd_stats e f d) = dv_inflight d" "dv_asleep (upd_stats e f d) = dv_asleep d" "dv_bell (upd_stats e f d) = dv_bell d"
  "dv_faults (upd_stats e f d) = dv_faults d" "dv_irq (upd_stats e f d) = dv_irq d" "dv_host_irq (upd_stats e f d) = dv_host_irq d"
  "dv_stats (upd_stats e f d) = (dv_stats d)(e := f (dv_stats d e))" "dv_words (upd_stats e f d) = dv_words d"
  "dv_running (upd_stats e f d) = dv_running d"
  "dv_asleep_blocked (upd_stats e f d) = dv_asleep_blocked d" "dv_num_asleep_blocked (upd_stats e f d) = dv_num_asleep_blocked d"
  by (simp_all add: upd_stats_def)

lemma set_replay_sel [simp]:
  "dv_ch (set_replay e c r d) = dv_ch d"
  "num_engines (set_replay e c r d) = num_engines d" "num_channels (set_replay e c r d) = num_channels d"
  "dv_inflight (set_replay e c r d) = dv_inflight d" "dv_asleep (set_replay e c r d) = dv_asleep d" "dv_bell (set_replay e c r d) = dv_bell d"
  "dv_faults (set_replay e c r d) = dv_faults d" "dv_irq (set_replay e c r d) = dv_irq d" "dv_host_irq (set_replay e c r d) = dv_host_irq d"
  "dv_stats (set_replay e c r d) = dv_stats d" "dv_words (set_replay e c r d) = dv_words d" "dv_running (set_replay e c r d) = dv_running d"
  "dv_asleep_blocked (set_replay e c r d) = dv_asleep_blocked d" "dv_num_asleep_blocked (set_replay e c r d) = dv_num_asleep_blocked d"
  by (simp_all add: set_replay_def)

lemma fold_wake_ch:
  "dv_ch (fold (\<lambda>e d. if e \<noteq> self \<and> dv_asleep_blocked d e then stamp_and_signal e d else d) es d) = dv_ch d"
  "num_engines (fold (\<lambda>e d. if e \<noteq> self \<and> dv_asleep_blocked d e then stamp_and_signal e d else d) es d) = num_engines d"
  "num_channels (fold (\<lambda>e d. if e \<noteq> self \<and> dv_asleep_blocked d e then stamp_and_signal e d else d) es d) = num_channels d"
  "dv_inflight (fold (\<lambda>e d. if e \<noteq> self \<and> dv_asleep_blocked d e then stamp_and_signal e d else d) es d) = dv_inflight d"
  "dv_asleep (fold (\<lambda>e d. if e \<noteq> self \<and> dv_asleep_blocked d e then stamp_and_signal e d else d) es d) = dv_asleep d"
  "dv_faults (fold (\<lambda>e d. if e \<noteq> self \<and> dv_asleep_blocked d e then stamp_and_signal e d else d) es d) = dv_faults d"
  "dv_irq (fold (\<lambda>e d. if e \<noteq> self \<and> dv_asleep_blocked d e then stamp_and_signal e d else d) es d) = dv_irq d"
  "dv_host_irq (fold (\<lambda>e d. if e \<noteq> self \<and> dv_asleep_blocked d e then stamp_and_signal e d else d) es d) = dv_host_irq d"
  "dv_running (fold (\<lambda>e d. if e \<noteq> self \<and> dv_asleep_blocked d e then stamp_and_signal e d else d) es d) = dv_running d"
  by (induction es arbitrary: d) (simp_all add: stamp_and_signal_def signal_bell_def)

lemma wake_blocked_sel [simp]:
  "dv_ch (wake_blocked_sleepers e d) = dv_ch d" "num_engines (wake_blocked_sleepers e d) = num_engines d"
  "num_channels (wake_blocked_sleepers e d) = num_channels d" "dv_inflight (wake_blocked_sleepers e d) = dv_inflight d"
  "dv_asleep (wake_blocked_sleepers e d) = dv_asleep d" "dv_faults (wake_blocked_sleepers e d) = dv_faults d"
  "dv_irq (wake_blocked_sleepers e d) = dv_irq d" "dv_host_irq (wake_blocked_sleepers e d) = dv_host_irq d"
  "dv_running (wake_blocked_sleepers e d) = dv_running d"
  by (simp_all add: wake_blocked_sleepers_def fold_wake_ch)

text \<open>What an engine leaves alone: the rings, the PUT registers, the priorities and the configuration, and every
  register of another engine's channels.\<close>

definition engine_guar :: "u32 \<Rightarrow> device \<Rightarrow> device \<Rightarrow> bool" where
  "engine_guar e d d' \<longleftrightarrow> num_engines d' = num_engines d \<and> num_channels d' = num_channels d \<and> dv_inflight d' = dv_inflight d \<and>
     (\<forall>e' c. ch_ring (dv_ch d' e' c) = ch_ring (dv_ch d e' c) \<and> ring_mask (dv_ch d' e' c) = ring_mask (dv_ch d e' c) \<and>
       ch_put (dv_ch d' e' c) = ch_put (dv_ch d e' c) \<and> priority (dv_ch d' e' c) = priority (dv_ch d e' c) \<and>
       (e' \<noteq> e \<longrightarrow> dv_ch d' e' c = dv_ch d e' c)) \<and>
     (\<forall>e'. e' \<noteq> e \<longrightarrow> dv_asleep d' e' = dv_asleep d e')"

lemmas step_defs = loop_top_def scan_def scan_channel_def scan_head_def pick_def visit_def run_cmd_def park_def push_def retire_def wake_def
  irq_load_def irq_clear_def irq_signal_def boundary_def end_visit_def account_def active_round_def idle_round_def arm_def
  set_asleep_def set_blocked_def count_blocked_def recheck_def go_sleep_def wake_up_def missed_def missed_check_def
  after_sleep_def disarm_def unblock_def

lemma engine_step_guar: "engine_guar e d (snd (engine_step fadd fmul e (t, d)))"
  unfolding engine_guar_def
  by (cases "th_pc t") (simp_all add: step_defs Let_def note_error_def push_fault_def raise_host_irq_def publish_cpu_def
      split: option.split prod.split xrc.split)

section \<open>Invariant of a thread\<close>

definition wait_passed :: "device \<Rightarrow> sg_cmd \<Rightarrow> bool" where
  "wait_passed d cmd \<longleftrightarrow> arg0 cmd < num_engines d \<and> arg1 cmd < num_channels d \<and>
     src1 cmd \<le> ch_get (dv_ch d (arg0 cmd) (arg1 cmd))"

primrec pc_ok :: "u32 \<Rightarrow> engine_thr \<Rightarrow> device \<Rightarrow> pc \<Rightarrow> bool" where
  "pc_ok e t d Top = True"
| "pc_ok e t d (Scan i) = (\<forall>c. th_chosen t = Some c \<longrightarrow> th_get t c \<le> th_seen_put t c)"
| "pc_ok e t d (ScanHead i c p) = ((\<forall>c. th_chosen t = Some c \<longrightarrow> th_get t c \<le> th_seen_put t c) \<and> p = th_seen_put t c)"
| "pc_ok e t d Pick = (\<forall>c. th_chosen t = Some c \<longrightarrow> th_get t c \<le> th_seen_put t c)"
| "pc_ok e t d (Visit c) = (th_get t c \<le> th_put t \<and> th_put t \<le> ch_put (dv_ch d e c))"
| "pc_ok e t d (RunCmd c) = (th_get t c < th_put t \<and> th_put t \<le> ch_put (dv_ch d e c) \<and> opcode (head_cmd e c t d) \<noteq> SG_OP_WAIT_FENCE)"
| "pc_ok e t d (Park c va) = True"
| "pc_ok e t d (Push c va) = True"
| "pc_ok e t d (Retire c rc) = (th_get t c < th_put t \<and> th_put t \<le> ch_put (dv_ch d e c) \<and>
     (rc = None \<longrightarrow> opcode (head_cmd e c t d) = SG_OP_WAIT_FENCE \<longrightarrow> wait_passed d (head_cmd e c t d)))"
| "pc_ok e t d (Wake c) = (th_get t c \<le> th_put t \<and> th_put t \<le> ch_put (dv_ch d e c))"
| "pc_ok e t d (IrqLoad c k) = pc_ok e t d k"
| "pc_ok e t d (IrqClear c k) = pc_ok e t d k"
| "pc_ok e t d (IrqSignal c k) = pc_ok e t d k"
| "pc_ok e t d (Boundary c) = (th_get t c \<le> th_put t \<and> th_put t \<le> ch_put (dv_ch d e c))"
| "pc_ok e t d EndVisit = True"
| "pc_ok e t d Account = True"
| "pc_ok e t d Arm = True"
| "pc_ok e t d SetAsleep = True"
| "pc_ok e t d SetBlocked = True"
| "pc_ok e t d CountBlocked = True"
| "pc_ok e t d (Recheck c) = True"
| "pc_ok e t d GoSleep = True"
| "pc_ok e t d Asleep = True"
| "pc_ok e t d (Missed c) = True"
| "pc_ok e t d MissedCheck = True"
| "pc_ok e t d AfterSleep = True"
| "pc_ok e t d (Disarm w) = True"
| "pc_ok e t d (Unblock w) = True"
| "pc_ok e t d Stop = True"

definition thr_inv :: "u32 \<Rightarrow> engine_thr \<Rightarrow> device \<Rightarrow> bool" where
  "thr_inv e t d \<longleftrightarrow> (\<forall>c. th_get t c = ch_get (dv_ch d e c) \<and> ch_get (dv_ch d e c) \<le> ch_put (dv_ch d e c) \<and>
     th_seen_put t c \<le> ch_put (dv_ch d e c)) \<and> pc_ok e t d (th_pc t)"

lemma next_le: "(x :: u64) \<le> y \<Longrightarrow> y \<noteq> x \<Longrightarrow> x + 1 \<le> y"
  by (simp add: inc_le less_le)

lemma pc_ok_regs:
  assumes "th_get t' = th_get t" "th_put t' = th_put t" "th_chosen t' = th_chosen t" "th_seen_put t' = th_seen_put t"
    "\<And>e c. ch_ring (dv_ch d' e c) = ch_ring (dv_ch d e c) \<and> ring_mask (dv_ch d' e c) = ring_mask (dv_ch d e c) \<and>
       ch_put (dv_ch d' e c) = ch_put (dv_ch d e c) \<and> ch_get (dv_ch d' e c) = ch_get (dv_ch d e c)"
    "num_engines d' = num_engines d" "num_channels d' = num_channels d"
  shows "pc_ok e t' d' k = pc_ok e t d k"
  using assms by (induction k) (simp_all add: head_cmd_def wait_passed_def)

definition get_step :: "u32 \<Rightarrow> device \<Rightarrow> device \<Rightarrow> bool" where
  "get_step e d d' \<longleftrightarrow> (\<forall>c. ch_get (dv_ch d' e c) = ch_get (dv_ch d e c) \<or>
     ch_get (dv_ch d' e c) = ch_get (dv_ch d e c) + 1 \<and> ch_get (dv_ch d e c) < ch_put (dv_ch d e c))"

lemma quiet_step:
  assumes "thr_inv e t d" "th_get t' = th_get t" "th_put t' = th_put t" "th_chosen t' = th_chosen t" "th_seen_put t' = th_seen_put t"
    "\<And>e c. ch_ring (dv_ch d' e c) = ch_ring (dv_ch d e c) \<and> ring_mask (dv_ch d' e c) = ring_mask (dv_ch d e c) \<and>
       ch_put (dv_ch d' e c) = ch_put (dv_ch d e c) \<and> ch_get (dv_ch d' e c) = ch_get (dv_ch d e c)"
    "num_engines d' = num_engines d" "num_channels d' = num_channels d" "pc_ok e t d (th_pc t')"
  shows "thr_inv e t' d' \<and> get_step e d d'"
  using pc_ok_regs [OF assms(2-8)] assms by (simp add: thr_inv_def get_step_def)

lemma thr_scan:
  assumes "thr_inv e t d" "engine_step fadd fmul e (t, d) = (t', d')" and Scan: "th_pc t = Scan i"
  shows "thr_inv e t' d' \<and> get_step e d d'"
proof -
  define c where "c = (th_rr t + i) mod num_channels d"
  have "ch_put (dv_ch d e c) \<noteq> ch_get (dv_ch d e c) \<Longrightarrow> ch_get (dv_ch d e c) + 1 \<le> ch_put (dv_ch d e c)"
    using assms(1) next_le by (simp add: thr_inv_def)
  with Scan assms show ?thesis
    by (auto simp: thr_inv_def get_step_def step_defs Let_def note_error_def go_def less_le c_def [symmetric] split: option.splits if_splits)
qed

lemma thr_retire:
  assumes "thr_inv e t d" "engine_step fadd fmul e (t, d) = (t', d')" and Retire: "th_pc t = Retire c rc"
  shows "thr_inv e t' d' \<and> get_step e d d'"
proof -
  let ?g = "ch_get (dv_ch d e c)"
  have lt: "th_get t c = ?g" "th_get t c < th_put t" "th_put t \<le> ch_put (dv_ch d e c)"
    and I: "\<And>c. th_get t c = ch_get (dv_ch d e c)" "\<And>c. ch_get (dv_ch d e c) \<le> ch_put (dv_ch d e c)" "\<And>c. th_seen_put t c \<le> ch_put (dv_ch d e c)"
    using assms(1) unfolding thr_inv_def Retire pc_ok.simps by blast+
  have a: "?g + 1 \<le> th_put t" "?g + 1 \<le> ch_put (dv_ch d e c)" "?g < ch_put (dv_ch d e c)"
    using lt inc_le [of ?g "th_put t"] by auto
  have D: "ch_get (dv_ch d' e c') = (if c' = c then ?g + 1 else ch_get (dv_ch d e c'))" "ch_put (dv_ch d' e c') = ch_put (dv_ch d e c')" for c'
    using Retire assms(2) lt by (auto simp: step_defs Let_def note_error_def split: option.splits)
  have T: "t' = t\<lparr>th_get := (th_get t)(c := ?g + 1), th_retired := True, th_pc := Wake c\<rparr>"
    using Retire assms(2) lt by (simp add: step_defs Let_def)
  show ?thesis unfolding thr_inv_def get_step_def T using I a lt(3) by (simp add: D)
qed

lemma thr_step:
  assumes "thr_inv e t d" "engine_step fadd fmul e (t, d) = (t', d')"
  shows "thr_inv e t' d' \<and> get_step e d d'"
proof (cases "th_pc t")
  case (Scan i)
  with assms show ?thesis by (rule thr_scan)
next
  case (ScanHead i c p)
  with assms show ?thesis
    by (auto simp: thr_inv_def get_step_def step_defs Let_def note_error_def go_def less_le split: option.splits if_splits)
next
  case (Retire c rc)
  with assms show ?thesis by (rule thr_retire)
next
  case (Wake c)
  with assms show ?thesis by (intro quiet_step [OF assms(1)]) (auto simp: step_defs go_def thr_inv_def)
next
  case (IrqLoad c k)
  with assms show ?thesis by (intro quiet_step [OF assms(1)]) (auto simp: step_defs go_def Let_def thr_inv_def)
next
  case (IrqClear c k)
  with assms show ?thesis by (intro quiet_step [OF assms(1)]) (auto simp: step_defs go_def thr_inv_def)
next
  case (IrqSignal c k)
  with assms show ?thesis by (intro quiet_step [OF assms(1)]) (auto simp: step_defs go_def raise_host_irq_def thr_inv_def)
next
  case Top
  with assms show ?thesis by (auto simp: thr_inv_def get_step_def step_defs go_def split: if_splits)
next
  case Pick
  with assms show ?thesis by (auto simp: thr_inv_def get_step_def step_defs go_def split: option.splits)
next
  case (Visit c)
  with assms show ?thesis by (intro quiet_step [OF assms(1)])
    (auto simp: step_defs go_def Let_def thr_inv_def head_cmd_def wait_passed_def wait_blocked_def not_le not_less less_le split: if_splits)
next
  case (RunCmd c)
  with assms show ?thesis by (intro quiet_step [OF assms(1)])
    (auto simp: step_defs go_def Let_def thr_inv_def split: prod.splits xrc.splits)
next
  case (Boundary c)
  with assms show ?thesis
    by (auto simp: thr_inv_def get_step_def step_defs go_def Let_def head_cmd_def split: if_splits)
qed (use assms quiet_step [OF assms(1)] in \<open>auto simp: step_defs go_def Let_def push_fault_def publish_cpu_def split: if_splits\<close>)


section \<open>Interference\<close>

text \<open>What the other threads may do between two steps of engine \<open>e\<close>: PUT and the fences of other engines only grow, and
  the published slots of the rings of \<open>e\<close> stay as they are.\<close>

definition thr_rely :: "u32 \<Rightarrow> device \<Rightarrow> device \<Rightarrow> bool" where
  "thr_rely e d d' \<longleftrightarrow> num_engines d' = num_engines d \<and> num_channels d' = num_channels d \<and>
     (\<forall>e c. ch_get (dv_ch d e c) \<le> ch_get (dv_ch d' e c)) \<and>
     (\<forall>c. ch_get (dv_ch d' e c) = ch_get (dv_ch d e c) \<and> ch_put (dv_ch d e c) \<le> ch_put (dv_ch d' e c) \<and>
        ring_mask (dv_ch d' e c) = ring_mask (dv_ch d e c) \<and>
        (\<forall>i. ch_get (dv_ch d e c) \<le> i \<longrightarrow> i < ch_put (dv_ch d e c) \<longrightarrow>
           ch_ring (dv_ch d' e c) (i AND ucast (ring_mask (dv_ch d e c))) = ch_ring (dv_ch d e c) (i AND ucast (ring_mask (dv_ch d e c)))))"

lemma pc_ok_stable:
  assumes "thr_rely e d d'" "\<And>c. th_get t c = ch_get (dv_ch d e c)" "pc_ok e t d k"
  shows "pc_ok e t d' k"
proof -
  have put: "th_put t \<le> ch_put (dv_ch d' e c)" if "th_put t \<le> ch_put (dv_ch d e c)" for c
    using assms(1) that unfolding thr_rely_def by (meson order_trans)
  have head: "head_cmd e c t d' = head_cmd e c t d" if "th_get t c < ch_put (dv_ch d e c)" for c
    using assms(1,2) that by (simp add: thr_rely_def head_cmd_def)
  have passed: "wait_passed d' cmd" if "wait_passed d cmd" for cmd
    using assms(1) that unfolding thr_rely_def wait_passed_def by (metis order_trans)
  show ?thesis using assms(3) put head passed
    by (induction k) (auto dest: less_le_trans)
qed

lemma thr_inv_stable:
  assumes "thr_inv e t d" "thr_rely e d d'"
  shows "thr_inv e t d'"
proof -
  have "pc_ok e t d' (th_pc t)" using assms by (intro pc_ok_stable [OF assms(2)]) (auto simp: thr_inv_def)
  moreover have "ch_put (dv_ch d e c) \<le> ch_put (dv_ch d' e c)" "ch_get (dv_ch d' e c) = ch_get (dv_ch d e c)" for c
    using assms(2) by (auto simp: thr_rely_def)
  ultimately show ?thesis using assms(1) unfolding thr_inv_def by (metis order_trans)
qed

section \<open>The runlist\<close>

definition runnable :: "u32 \<Rightarrow> engine_thr \<Rightarrow> device \<Rightarrow> u32 \<Rightarrow> bool" where
  "runnable e t d c \<longleftrightarrow> \<not> parked (dv_ch d e c) \<and> th_get t c < ch_put (dv_ch d e c) \<and> \<not> wait_blocked d (head_cmd e c t d)"

definition scan_order :: "u32 \<Rightarrow> device \<Rightarrow> u32 list" where
  "scan_order rr d = map (\<lambda>i. (rr + of_nat i) mod num_channels d) [0 ..< unat (num_channels d)]"

text \<open>The channel a scan in this order has to pick: the best priority, and the first of those.\<close>

definition best_of :: "(u32 \<Rightarrow> bool) \<Rightarrow> (u32 \<Rightarrow> int) \<Rightarrow> u32 list \<Rightarrow> u32 option \<Rightarrow> bool" where
  "best_of ok prio cs best \<longleftrightarrow>
     (case best of
        None \<Rightarrow> \<forall>c \<in> set cs. \<not> ok c
      | Some b \<Rightarrow> \<exists>us vs. cs = us @ b # vs \<and> ok b \<and> (\<forall>u \<in> set us. ok u \<longrightarrow> prio b < prio u) \<and> (\<forall>v \<in> set vs. ok v \<longrightarrow> prio b \<le> prio v))"

lemma best_of_snoc:
  assumes "best_of ok prio cs best"
  shows "best_of ok prio (cs @ [c]) (if ok c \<and> (\<forall>b. best = Some b \<longrightarrow> prio c < prio b) then Some c else best)"
proof (cases "ok c \<and> (\<forall>b. best = Some b \<longrightarrow> prio c < prio b)")
  case True
  have "prio c < prio u" if u: "u \<in> set cs" "ok u" for u
  proof (cases best)
    case None
    with assms u show ?thesis by (simp add: best_of_def)
  next
    case (Some b)
    with assms obtain us vs where "cs = us @ b # vs" "\<forall>u \<in> set us. ok u \<longrightarrow> prio b < prio u" "\<forall>v \<in> set vs. ok v \<longrightarrow> prio b \<le> prio v"
      by (auto simp: best_of_def)
    with u have "prio b \<le> prio u" by (auto dest: bspec)
    with True Some show ?thesis by auto
  qed
  with True have "cs @ [c] = cs @ c # [] \<and> ok c \<and> (\<forall>u \<in> set cs. ok u \<longrightarrow> prio c < prio u) \<and> (\<forall>v \<in> set []. ok v \<longrightarrow> prio c \<le> prio v)"
    by simp
  then have "best_of ok prio (cs @ [c]) (Some c)" unfolding best_of_def option.case by blast
  with True show ?thesis by simp
next
  case False
  have "best_of ok prio (cs @ [c]) best"
  proof (cases best)
    case None
    with False assms show ?thesis by (simp add: best_of_def)
  next
    case (Some b)
    with assms obtain us vs where "cs = us @ b # vs" "ok b" "\<forall>u \<in> set us. ok u \<longrightarrow> prio b < prio u" "\<forall>v \<in> set vs. ok v \<longrightarrow> prio b \<le> prio v"
      by (auto simp: best_of_def)
    with False Some have "cs @ [c] = us @ b # (vs @ [c]) \<and> ok b \<and> (\<forall>u \<in> set us. ok u \<longrightarrow> prio b < prio u) \<and>
      (\<forall>v \<in> set (vs @ [c]). ok v \<longrightarrow> prio b \<le> prio v)" by auto
    then show ?thesis unfolding best_of_def Some option.case by blast
  qed
  then show ?thesis by (simp only: if_not_P [OF False])
qed

text \<open>The thread in the middle of an undisturbed scan.\<close>

definition scanning :: "u32 \<Rightarrow> engine_thr \<Rightarrow> device \<Rightarrow> nat \<Rightarrow> engine_thr \<Rightarrow> bool" where
  "scanning e t0 d k t \<longleftrightarrow> th_pc t = Scan (of_nat k) \<and> th_get t = th_get t0 \<and> th_rr t = th_rr t0 \<and>
     best_of (runnable e t0 d) (\<lambda>c. priority (dv_ch d e c)) (take k (scan_order (th_rr t0) d)) (th_chosen t) \<and>
     (\<forall>b. th_chosen t = Some b \<longrightarrow> th_chosen_prio t = priority (dv_ch d e b))"

lemma scan_one:
  assumes sc: "scanning e t0 d k t" and k: "k < unat (num_channels d)" and inv: "\<And>c. th_get t0 c \<le> ch_put (dv_ch d e c)"
    and ff: "\<And>c. fault_fail (dv_ch d e c) = None"
  shows "\<exists>t'. engine_step fadd fmul e (engine_step fadd fmul e (t, d)) = (t', d) \<and> scanning e t0 d (Suc k) t'"
proof -
  define c where "c = (th_rr t + of_nat k) mod num_channels d"
  define t1 where "t1 = (t\<lparr>th_seen_put := (th_seen_put t)(c := ch_put (dv_ch d e c))\<rparr>)\<lparr>th_pc := ScanHead (of_nat k) c (ch_put (dv_ch d e c))\<rparr>"
  have "unat (of_nat k :: u32) = k" using k unat_less_32 [of "num_channels d"] by (simp add: unsigned_of_nat take_bit_nat_eq_self)
  then have lt: "of_nat k < num_channels d" using k by (simp add: word_less_unat)
  have s1: "engine_step fadd fmul e (t, d) = (t1, d)"
    using sc lt ff by (simp add: scanning_def scan_def scan_channel_def Let_def c_def t1_def go_def)
  have ord: "take (Suc k) (scan_order (th_rr t0) d) = take k (scan_order (th_rr t0) d) @ [c]"
    using k sc by (simp add: scan_order_def take_Suc_conv_app_nth c_def scanning_def)
  have hd: "head_cmd e c t1 d = head_cmd e c t0 d" "th_get t1 = th_get t0" using sc by (simp_all add: t1_def head_cmd_def scanning_def)
  let ?new = "runnable e t0 d c \<and> (\<forall>b. th_chosen t = Some b \<longrightarrow> priority (dv_ch d e c) < priority (dv_ch d e b))"
  have pc: "th_pc t1 = ScanHead (of_nat k) c (ch_put (dv_ch d e c))" "th_chosen t1 = th_chosen t" "th_chosen_prio t1 = th_chosen_prio t" "th_rr t1 = th_rr t0"
    using sc by (simp_all add: t1_def scanning_def)
  define t2 where "t2 = fst (engine_step fadd fmul e (t1, d))"
  have pr: "th_chosen t = Some b \<Longrightarrow> th_chosen_prio t = priority (dv_ch d e b)" for b using sc by (simp add: scanning_def)
  have s2: "snd (engine_step fadd fmul e (t1, d)) = d" "th_pc t2 = Scan (of_nat k + 1)" "th_get t2 = th_get t0" "th_rr t2 = th_rr t0"
    "th_chosen t2 = (if ?new then Some c else th_chosen t)"
    "th_chosen_prio t2 = (if ?new then priority (dv_ch d e c) else th_chosen_prio t)"
    using inv [of c] pc pr hd unfolding t2_def
    by (auto simp: scan_head_def Let_def go_def runnable_def not_le)
  have "scanning e t0 d (Suc k) t2"
    using best_of_snoc [of "runnable e t0 d" "\<lambda>c. priority (dv_ch d e c)" "take k (scan_order (th_rr t0) d)" "th_chosen t" c] sc pr
    by (simp add: scanning_def s2 ord add.commute) blast
  then show ?thesis using s1 s2(1) by (metis t2_def prod.collapse)
qed


lemma scan_many:
  assumes "scanning e t0 d 0 t0" "\<And>c. th_get t0 c \<le> ch_put (dv_ch d e c)" "\<And>c. fault_fail (dv_ch d e c) = None"
  shows "k \<le> unat (num_channels d) \<Longrightarrow> \<exists>t. (engine_step fadd fmul e ^^ (2 * k)) (t0, d) = (t, d) \<and> scanning e t0 d k t"
proof (induction k)
  case 0
  then show ?case using assms(1) by simp
next
  case (Suc k)
  then obtain t where t: "(engine_step fadd fmul e ^^ (2 * k)) (t0, d) = (t, d)" "scanning e t0 d k t" by auto
  from scan_one [OF t(2) _ assms(2,3)] Suc.prems t(1) show ?case by simp
qed


definition demo_dev :: device where
  "demo_dev = upd_ch 0 1 (ch_put_update (\<lambda>_. 1)) (device_new 0x2000 0x3000 1 2 (\<lambda>_. 7))"


end
