(* ===== verification/Submit.thy ===== *)
theory Submit
  imports Runlist
begin

text \<open>
  Submission (\<^verbatim>\<open>src/src/driver/driver.cpp\<close>: \<^verbatim>\<open>enqueue\<close>, and around it the channel lock and the check of a
  \<^verbatim>\<open>WAIT_FENCE\<close> in \<^verbatim>\<open>do_submit\<close>) together with the engines and the fault thread, as one machine in which the steps of
  all threads interleave. Every access to shared state is its own step; the waits of the code (for the lock, for
  space in the ring, for its turn to publish) are steps that are only possible once the condition holds.

  The slots of a channel are numbered by \<^verbatim>\<open>uint64_t\<close> counters that do not wrap: a step that claims a slot needs the
  counter below \<open>2 ^ 63\<close>. The fields \<open>sy_log\<close>, \<open>sy_time\<close> and \<open>sy_clock\<close> only record history.
\<close>

section \<open>Producers\<close>

datatype enq_pc = ELock | ECheck | EReserve | ESpace | EStall | EWrite | ETurn | EBegin | EStore | EMirror | ERing | EEnd | EUnlock | EDone

text \<open>One \<^verbatim>\<open>SG_IOC_SUBMIT\<close>: the commands it still has to enqueue (the chunks of a staged copy), the first of them at work.\<close>

record enq =
  eq_pc :: enq_pc
  eq_engine :: u32
  eq_channel :: u32
  eq_cmd :: sg_cmd
  eq_more :: "sg_cmd list"
  eq_slot :: u64
  eq_result :: "errno option"

record ring_drv =
  rd_mode :: sg_submit_mode
  rd_depth :: u32
  rd_put :: "u32 \<Rightarrow> u32 \<Rightarrow> u64"
  rd_reserve :: "u32 \<Rightarrow> u32 \<Rightarrow> u64"
  rd_lock :: "u32 \<Rightarrow> u32 \<Rightarrow> bool"
  rd_stalls :: u64

definition set2 :: "u32 \<Rightarrow> u32 \<Rightarrow> 'a \<Rightarrow> (u32 \<Rightarrow> u32 \<Rightarrow> 'a) \<Rightarrow> u32 \<Rightarrow> u32 \<Rightarrow> 'a" where
  "set2 e c v f = f(e := (f e)(c := v))"

lemma set2_apply [simp]: "set2 e c v f e' c' = (if e' = e \<and> c' = c then v else f e' c')"
  by (simp add: set2_def)

definition at :: "enq_pc \<Rightarrow> enq \<Rightarrow> enq" where
  "at k p = p\<lparr>eq_pc := k\<rparr>"

text \<open>The semaphore check of \<^verbatim>\<open>do_submit\<close>: only a fence that is already published may be waited on.\<close>

definition wait_ok :: "ring_drv \<Rightarrow> device \<Rightarrow> sg_cmd \<Rightarrow> bool" where
  "wait_ok r d cmd \<longleftrightarrow> opcode cmd = SG_OP_WAIT_FENCE \<longrightarrow>
     arg0 cmd < num_engines d \<and> arg1 cmd < num_channels d \<and> src1 cmd \<le> rd_put r (arg0 cmd) (arg1 cmd)"

definition eq_lock :: "enq \<Rightarrow> ring_drv \<Rightarrow> device \<Rightarrow> (enq \<times> ring_drv \<times> device) option" where
  "eq_lock p r d =
     (let e = eq_engine p; c = eq_channel p in
      if rd_mode r = SG_SUBMIT_TICKET then Some (at ECheck p, r, d)
      else if rd_lock r e c then None
      else Some (at ECheck p, r\<lparr>rd_lock := set2 e c True (rd_lock r)\<rparr>, d))"

definition eq_check :: "enq \<Rightarrow> ring_drv \<Rightarrow> device \<Rightarrow> (enq \<times> ring_drv \<times> device) option" where
  "eq_check p r d =
     Some (if wait_ok r d (eq_cmd p) then (at EReserve p, r, d) else (at EUnlock (p\<lparr>eq_result := Some EINVAL\<rparr>), r, d))"

definition eq_reserve :: "enq \<Rightarrow> ring_drv \<Rightarrow> device \<Rightarrow> (enq \<times> ring_drv \<times> device) option" where
  "eq_reserve p r d =
     (let e = eq_engine p; c = eq_channel p in
      if rd_mode r = SG_SUBMIT_TICKET
      then Some (at ESpace (p\<lparr>eq_slot := rd_reserve r e c\<rparr>), r\<lparr>rd_reserve := set2 e c (rd_reserve r e c + 1) (rd_reserve r)\<rparr>, d)
      else Some (at ESpace (p\<lparr>eq_slot := rd_put r e c\<rparr>), r, d))"

text \<open>Backpressure. A stalled producer waits until the slot \<^verbatim>\<open>depth\<close> before its own has retired.\<close>

definition eq_space :: "enq \<Rightarrow> ring_drv \<Rightarrow> device \<Rightarrow> (enq \<times> ring_drv \<times> device) option" where
  "eq_space p r d =
     (if eq_slot p - ch_get (dv_ch d (eq_engine p) (eq_channel p)) \<ge> ucast (rd_depth r)
      then Some (at EStall p, r\<lparr>rd_stalls := rd_stalls r + 1\<rparr>, d)
      else Some (at EWrite p, r, d))"

definition eq_stall :: "enq \<Rightarrow> ring_drv \<Rightarrow> device \<Rightarrow> (enq \<times> ring_drv \<times> device) option" where
  "eq_stall p r d =
     (if ch_get (dv_ch d (eq_engine p) (eq_channel p)) \<ge> eq_slot p - ucast (rd_depth r) + 1 then Some (at EWrite p, r, d) else None)"

definition eq_write :: "enq \<Rightarrow> ring_drv \<Rightarrow> device \<Rightarrow> (enq \<times> ring_drv \<times> device) option" where
  "eq_write p r d =
     Some (at (if rd_mode r = SG_SUBMIT_TICKET then ETurn else EBegin) p, r,
       upd_ch (eq_engine p) (eq_channel p)
         (\<lambda>k. k\<lparr>ch_ring := (ch_ring k)(eq_slot p AND ucast (rd_depth r - 1) := eq_cmd p)\<rparr>) d)"

definition eq_turn :: "enq \<Rightarrow> ring_drv \<Rightarrow> device \<Rightarrow> (enq \<times> ring_drv \<times> device) option" where
  "eq_turn p r d = (if rd_put r (eq_engine p) (eq_channel p) \<noteq> eq_slot p then None else Some (at EBegin p, r, d))"

definition eq_begin :: "enq \<Rightarrow> ring_drv \<Rightarrow> device \<Rightarrow> (enq \<times> ring_drv \<times> device) option" where
  "eq_begin p r d = Some (at EStore p, r, begin_doorbell (eq_engine p) d)"

definition eq_store :: "enq \<Rightarrow> ring_drv \<Rightarrow> device \<Rightarrow> (enq \<times> ring_drv \<times> device) option" where
  "eq_store p r d = Some (at EMirror p, r, upd_ch (eq_engine p) (eq_channel p) (ch_put_update (\<lambda>_. eq_slot p + 1)) d)"

definition eq_mirror :: "enq \<Rightarrow> ring_drv \<Rightarrow> device \<Rightarrow> (enq \<times> ring_drv \<times> device) option" where
  "eq_mirror p r d = Some (at ERing p, r\<lparr>rd_put := set2 (eq_engine p) (eq_channel p) (eq_slot p + 1) (rd_put r)\<rparr>, d)"

definition eq_ring :: "enq \<Rightarrow> ring_drv \<Rightarrow> device \<Rightarrow> (enq \<times> ring_drv \<times> device) option" where
  "eq_ring p r d = Some (at EEnd p, r, doorbell (eq_engine p) d)"

definition eq_end :: "enq \<Rightarrow> ring_drv \<Rightarrow> device \<Rightarrow> (enq \<times> ring_drv \<times> device) option" where
  "eq_end p r d =
     Some (case eq_more p of [] \<Rightarrow> at EUnlock p | cmd # cmds \<Rightarrow> at ECheck (p\<lparr>eq_cmd := cmd, eq_more := cmds\<rparr>),
       r, end_doorbell (eq_engine p) d)"

definition eq_unlock :: "enq \<Rightarrow> ring_drv \<Rightarrow> device \<Rightarrow> (enq \<times> ring_drv \<times> device) option" where
  "eq_unlock p r d =
     Some (at EDone p,
       if rd_mode r = SG_SUBMIT_TICKET then r else r\<lparr>rd_lock := set2 (eq_engine p) (eq_channel p) False (rd_lock r)\<rparr>, d)"

fun enq_step :: "enq \<Rightarrow> ring_drv \<Rightarrow> device \<Rightarrow> (enq \<times> ring_drv \<times> device) option" where
  "enq_step p r d =
     (case eq_pc p of
        ELock \<Rightarrow> eq_lock p r d
      | ECheck \<Rightarrow> eq_check p r d
      | EReserve \<Rightarrow> eq_reserve p r d
      | ESpace \<Rightarrow> eq_space p r d
      | EStall \<Rightarrow> eq_stall p r d
      | EWrite \<Rightarrow> eq_write p r d
      | ETurn \<Rightarrow> eq_turn p r d
      | EBegin \<Rightarrow> eq_begin p r d
      | EStore \<Rightarrow> eq_store p r d
      | EMirror \<Rightarrow> eq_mirror p r d
      | ERing \<Rightarrow> eq_ring p r d
      | EEnd \<Rightarrow> eq_end p r d
      | EUnlock \<Rightarrow> eq_unlock p r d
      | EDone \<Rightarrow> None)"

section \<open>The whole machine\<close>

text \<open>The fault thread: what it does for one fault it has popped. The migration itself is any change of memory and
  any result.\<close>

datatype svc = SIdle | SMigrate fault | SFail fault errno | SUnpark fault

record sys =
  sy_dev :: device
  sy_thr :: "u32 \<Rightarrow> engine_thr"
  sy_drv :: ring_drv
  sy_enq :: "enq list"
  sy_svc :: svc
  sy_log :: "u32 \<Rightarrow> u32 \<Rightarrow> u64 \<Rightarrow> sg_cmd"
  sy_time :: "u32 \<Rightarrow> u32 \<Rightarrow> u64 \<Rightarrow> nat"
  sy_clock :: nat

definition sys_new :: "u64 \<Rightarrow> u64 \<Rightarrow> u32 \<Rightarrow> u32 \<Rightarrow> u32 \<Rightarrow> sg_submit_mode \<Rightarrow> (u64 \<Rightarrow> u8) \<Rightarrow> sys" where
  "sys_new vram_sz va_sz copy_engines channels depth mode host =
     (let d = device_new vram_sz va_sz copy_engines channels host;
          d1 = d\<lparr>dv_ch := (\<lambda>_ _. fresh_channel\<lparr>ring_mask := depth - 1\<rparr>), dv_running := True\<rparr>
      in \<lparr>sy_dev = d1, sy_thr = (\<lambda>e. thread_new e d1),
          sy_drv = \<lparr>rd_mode = mode, rd_depth = depth, rd_put = (\<lambda>_ _. 0), rd_reserve = (\<lambda>_ _. 0), rd_lock = (\<lambda>_ _. False), rd_stalls = 0\<rparr>,
          sy_enq = [], sy_svc = SIdle, sy_log = (\<lambda>_ _ _. zero_cmd), sy_time = (\<lambda>_ _ _. 0), sy_clock = 0\<rparr>)"

definition next_slot :: "enq \<Rightarrow> ring_drv \<Rightarrow> u64" where
  "next_slot p r = (if rd_mode r = SG_SUBMIT_TICKET then rd_reserve r (eq_engine p) (eq_channel p) else rd_put r (eq_engine p) (eq_channel p))"

text \<open>Claiming a slot also writes the history.\<close>

definition note_claim :: "enq \<Rightarrow> sys \<Rightarrow> sys" where
  "note_claim p s =
     (let e = eq_engine p; c = eq_channel p; slot = next_slot p (sy_drv s) in
      s\<lparr>sy_log := set2 e c ((sy_log s e c)(slot := eq_cmd p)) (sy_log s),
        sy_time := set2 e c ((sy_time s e c)(slot := sy_clock s)) (sy_time s), sy_clock := sy_clock s + 1\<rparr>)"

definition arm_irq :: "u32 \<Rightarrow> u32 \<Rightarrow> u64 \<Rightarrow> device \<Rightarrow> device" where
  "arm_irq e c target d =
     upd_ch e c (\<lambda>k. if irq_target k = 0 \<or> irq_target k > target then k\<lparr>irq_target := target\<rparr> else k) d"

inductive sys_step :: "(u32 \<Rightarrow> u32 \<Rightarrow> u32) \<Rightarrow> (u32 \<Rightarrow> u32 \<Rightarrow> u32) \<Rightarrow> sys \<Rightarrow> sys \<Rightarrow> bool" for fadd fmul where
  engine: "e < num_engines (sy_dev s) \<Longrightarrow> engine_step fadd fmul e (sy_thr s e, sy_dev s) = (t, d) \<Longrightarrow>
    sys_step fadd fmul s (s\<lparr>sy_thr := (sy_thr s)(e := t), sy_dev := d\<rparr>)"
| submit: "e < num_engines (sy_dev s) \<Longrightarrow> c < num_channels (sy_dev s) \<Longrightarrow>
    sys_step fadd fmul s (s\<lparr>sy_enq := sy_enq s @ [\<lparr>eq_pc = ELock, eq_engine = e, eq_channel = c, eq_cmd = cmd, eq_more = cmds,
      eq_slot = 0, eq_result = None\<rparr>]\<rparr>)"
| claim: "i < length (sy_enq s) \<Longrightarrow> p = sy_enq s ! i \<Longrightarrow> eq_pc p = EReserve \<Longrightarrow> next_slot p (sy_drv s) < 2 ^ 63 \<Longrightarrow>
    enq_step p (sy_drv s) (sy_dev s) = Some (p', r, d) \<Longrightarrow>
    sys_step fadd fmul s ((note_claim p s)\<lparr>sy_enq := (sy_enq s)[i := p'], sy_drv := r, sy_dev := d\<rparr>)"
| produce: "i < length (sy_enq s) \<Longrightarrow> p = sy_enq s ! i \<Longrightarrow> eq_pc p \<noteq> EReserve \<Longrightarrow>
    enq_step p (sy_drv s) (sy_dev s) = Some (p', r, d) \<Longrightarrow>
    sys_step fadd fmul s (s\<lparr>sy_enq := (sy_enq s)[i := p'], sy_drv := r, sy_dev := d\<rparr>)"
| pop: "sy_svc s = SIdle \<Longrightarrow> pop_fault (sy_dev s) = (Some f, d) \<Longrightarrow>
    sys_step fadd fmul s (s\<lparr>sy_svc := SMigrate f, sy_dev := d\<rparr>)"
| migrated: "sy_svc s = SMigrate f \<Longrightarrow>
    sys_step fadd fmul s (s\<lparr>sy_svc := (case rc of None \<Rightarrow> SUnpark f | Some er \<Rightarrow> SFail f er), sy_dev := (sy_dev s)\<lparr>dv_mem := m\<rparr>\<rparr>)"
| fail: "sy_svc s = SFail f er \<Longrightarrow>
    sys_step fadd fmul s (s\<lparr>sy_svc := SUnpark f, sy_dev := upd_ch (f_engine f) (f_channel f) (fault_fail_update (\<lambda>_. Some er)) (sy_dev s)\<rparr>)"
| unpark: "sy_svc s = SUnpark f \<Longrightarrow>
    sys_step fadd fmul s (s\<lparr>sy_svc := SIdle, sy_dev := unpark (f_engine f) (f_channel f) (sy_dev s)\<rparr>)"
| memory: "sys_step fadd fmul s (s\<lparr>sy_dev := (sy_dev s)\<lparr>dv_mem := m\<rparr>\<rparr>)"
| time: "sys_step fadd fmul s (s\<lparr>sy_dev := (sy_dev s)\<lparr>dv_now := now, dv_cpu := cpu\<rparr>\<rparr>)"
| arm: "e < num_engines (sy_dev s) \<Longrightarrow> c < num_channels (sy_dev s) \<Longrightarrow>
    sys_step fadd fmul s (s\<lparr>sy_dev := arm_irq e c target (sy_dev s)\<rparr>)"
| priority: "sys_step fadd fmul s (s\<lparr>sy_dev := snd (set_channel_priority e c prio (sy_dev s))\<rparr>)"
| reset: "sys_step fadd fmul s (s\<lparr>sy_dev := reset_stats (sy_dev s)\<rparr>)"
| power: "sys_step fadd fmul s (s\<lparr>sy_dev := power_off (sy_dev s)\<rparr>)"

section \<open>One channel\<close>

definition claiming :: "enq \<Rightarrow> bool" where
  "claiming p \<longleftrightarrow> eq_pc p \<in> {ESpace, EStall, EWrite, ETurn, EBegin, EStore, EMirror}"

definition spaced :: "enq \<Rightarrow> bool" where
  "spaced p \<longleftrightarrow> eq_pc p \<in> {EWrite, ETurn, EBegin, EStore}"

definition written :: "enq \<Rightarrow> bool" where
  "written p \<longleftrightarrow> eq_pc p \<in> {ETurn, EBegin, EStore}"

definition locking :: "enq \<Rightarrow> bool" where
  "locking p \<longleftrightarrow> eq_pc p \<notin> {ELock, EDone}"

text \<open>What holds of one producer on a channel, of two of them, and of the channel. \<open>mir\<close> and \<open>rsv\<close> are the driver's
  counters, \<open>log\<close> the commands in claim order.\<close>

definition prod_ok :: "sg_submit_mode \<Rightarrow> u32 \<Rightarrow> channel \<Rightarrow> u64 \<Rightarrow> u64 \<Rightarrow> bool \<Rightarrow> (u64 \<Rightarrow> sg_cmd) \<Rightarrow> enq \<Rightarrow> bool" where
  "prod_ok mode depth ch mir rsv lock log p \<longleftrightarrow>
     (claiming p \<longrightarrow> mir \<le> eq_slot p \<and> eq_slot p < 2 ^ 63 \<and> log (eq_slot p) = eq_cmd p \<and>
        (if mode = SG_SUBMIT_TICKET then eq_slot p < rsv else eq_slot p = mir)) \<and>
     (mode = SG_SUBMIT_MUTEX \<longrightarrow> locking p \<longrightarrow> lock) \<and>
     (spaced p \<longrightarrow> unat (eq_slot p) < unat (ch_get ch) + unat depth) \<and>
     (eq_pc p = EStall \<longrightarrow> ucast depth \<le> eq_slot p) \<and>
     (written p \<longrightarrow> ch_ring ch (eq_slot p AND ucast (depth - 1)) = eq_cmd p) \<and>
     (eq_pc p = EBegin \<or> eq_pc p = EStore \<longrightarrow> eq_slot p = mir \<and> ch_put ch = mir) \<and>
     (eq_pc p = EMirror \<longrightarrow> eq_slot p = mir \<and> ch_put ch = mir + 1)"

definition pair_ok :: "sg_submit_mode \<Rightarrow> enq \<Rightarrow> enq \<Rightarrow> bool" where
  "pair_ok mode p q \<longleftrightarrow> (claiming p \<longrightarrow> claiming q \<longrightarrow> eq_slot p \<noteq> eq_slot q) \<and> (mode = SG_SUBMIT_MUTEX \<longrightarrow> \<not> (locking p \<and> locking q))"

definition base_ok :: "sg_submit_mode \<Rightarrow> u32 \<Rightarrow> channel \<Rightarrow> u64 \<Rightarrow> u64 \<Rightarrow> (u64 \<Rightarrow> sg_cmd) \<Rightarrow> bool" where
  "base_ok mode depth ch mir rsv log \<longleftrightarrow> ring_mask ch = depth - 1 \<and> ch_get ch \<le> ch_put ch \<and>
     unat (ch_put ch) \<le> unat (ch_get ch) + unat depth \<and> mir \<le> 2 ^ 63 \<and>
     (mode = SG_SUBMIT_TICKET \<longrightarrow> mir \<le> rsv \<and> rsv \<le> 2 ^ 63) \<and>
     (\<forall>k. ch_get ch \<le> k \<longrightarrow> k < ch_put ch \<longrightarrow> ch_ring ch (k AND ucast (depth - 1)) = log k)"

definition chan_ok :: "sg_submit_mode \<Rightarrow> u32 \<Rightarrow> (nat \<Rightarrow> enq option) \<Rightarrow> channel \<Rightarrow> u64 \<Rightarrow> u64 \<Rightarrow> bool \<Rightarrow> (u64 \<Rightarrow> sg_cmd) \<Rightarrow> bool" where
  "chan_ok mode depth ps ch mir rsv lock log \<longleftrightarrow> base_ok mode depth ch mir rsv log \<and>
     (\<forall>i p. ps i = Some p \<longrightarrow> prod_ok mode depth ch mir rsv lock log p) \<and>
     (\<forall>i j p q. i \<noteq> j \<longrightarrow> ps i = Some p \<longrightarrow> ps j = Some q \<longrightarrow> pair_ok mode p q) \<and>
     (ch_put ch = mir \<or> (\<exists>i p. ps i = Some p \<and> eq_pc p = EMirror))"

lemma views_at [simp]:
  "claiming (at k p) \<longleftrightarrow> k \<in> {ESpace, EStall, EWrite, ETurn, EBegin, EStore, EMirror}" "spaced (at k p) \<longleftrightarrow> k \<in> {EWrite, ETurn, EBegin, EStore}"
  "written (at k p) \<longleftrightarrow> k \<in> {ETurn, EBegin, EStore}" "locking (at k p) \<longleftrightarrow> k \<notin> {ELock, EDone}" "eq_pc (at k p) = k"
  "eq_slot (at k p) = eq_slot p" "eq_cmd (at k p) = eq_cmd p" "eq_engine (at k p) = eq_engine p" "eq_channel (at k p) = eq_channel p"
  "eq_more (at k p) = eq_more p"
  by (simp_all add: at_def claiming_def spaced_def written_def locking_def)

lemma pc_facts:
  "claiming q \<Longrightarrow> locking q" "written q \<Longrightarrow> spaced q" "spaced q \<Longrightarrow> claiming q" "eq_pc q = EMirror \<Longrightarrow> claiming q"
  "eq_pc q = EBegin \<or> eq_pc q = EStore \<Longrightarrow> written q" "eq_pc q = EStall \<Longrightarrow> claiming q" "spaced q \<Longrightarrow> eq_pc q \<noteq> EMirror"
  by (auto simp: claiming_def spaced_def written_def locking_def)

lemma pair_ok_sym: "pair_ok mode p q \<Longrightarrow> pair_ok mode q p"
  by (auto simp: pair_ok_def)

lemma chan_okD:
  assumes "chan_ok mode depth ps ch mir rsv lock log"
  shows "base_ok mode depth ch mir rsv log" "ps i = Some p \<Longrightarrow> prod_ok mode depth ch mir rsv lock log p"
    "i \<noteq> j \<Longrightarrow> ps i = Some p \<Longrightarrow> ps j = Some q \<Longrightarrow> pair_ok mode p q"
    "ch_put ch = mir \<or> (\<exists>i p. ps i = Some p \<and> eq_pc p = EMirror)"
  using assms unfolding chan_ok_def by blast+

lemma chan_upd:
  assumes ok: "chan_ok mode depth ps ch mir rsv lock log" and p: "ps i = Some p"
    and base: "base_ok mode depth ch' mir' rsv' log'" and new: "prod_ok mode depth ch' mir' rsv' lock' log' p'"
    and old: "\<And>j q. j \<noteq> i \<Longrightarrow> ps j = Some q \<Longrightarrow> prod_ok mode depth ch mir rsv lock log q \<Longrightarrow> pair_ok mode p q \<Longrightarrow>
      prod_ok mode depth ch' mir' rsv' lock' log' q \<and> pair_ok mode p' q"
    and put: "ch_put ch' = mir' \<or> eq_pc p' = EMirror \<or> (\<exists>j q. j \<noteq> i \<and> ps j = Some q \<and> eq_pc q = EMirror)"
  shows "chan_ok mode depth (ps(i := Some p')) ch' mir' rsv' lock' log'"
  unfolding chan_ok_def
proof (intro conjI allI impI)
  have O: "prod_ok mode depth ch' mir' rsv' lock' log' q" "pair_ok mode p' q" if "j \<noteq> i" "ps j = Some q" for j q
    using old [OF that chan_okD(2) [OF ok that(2)] chan_okD(3) [OF ok _ p that(2)]] that(1) by blast+
  show "base_ok mode depth ch' mir' rsv' log'" by (rule base)
  show "prod_ok mode depth ch' mir' rsv' lock' log' q" if "(ps(i := Some p')) j = Some q" for j q
    using that new O(1) by (cases "j = i") auto
  show "pair_ok mode q q'" if "j \<noteq> k" "(ps(i := Some p')) j = Some q" "(ps(i := Some p')) k = Some q'" for j k q q'
    using that O(2) pair_ok_sym chan_okD(3) [OF ok] by (cases "j = i"; cases "k = i") auto
  show "ch_put ch' = mir' \<or> (\<exists>j q. (ps(i := Some p')) j = Some q \<and> eq_pc q = EMirror)"
    using put by (auto split: if_splits)
qed

lemma inc_63: "(x :: u64) < 2 ^ 63 \<Longrightarrow> unat (x + 1) = unat x + 1"
  by (subst unat_add_64) (simp_all add: word_less_unat)

lemma put_le_slot:
  assumes ok: "chan_ok mode depth ps ch mir rsv lock log" and p: "ps i = Some p" "claiming p" "eq_pc p \<noteq> EMirror"
  shows "ch_put ch \<le> eq_slot p" "ch_get ch \<le> eq_slot p"
proof -
  have S: "mir \<le> eq_slot p" using chan_okD(2) [OF ok p(1)] p(2) by (simp add: prod_ok_def)
  show "ch_put ch \<le> eq_slot p"
  proof (cases "ch_put ch = mir")
    case False
    then obtain j q where q: "ps j = Some q" "eq_pc q = EMirror" using chan_okD(4) [OF ok] by blast
    then have m: "eq_slot q = mir" "ch_put ch = mir + 1" using chan_okD(2) [OF ok q(1)] by (simp_all add: prod_ok_def)
    have "i \<noteq> j" using p q by auto
    moreover have "claiming q" using q(2) by (simp add: claiming_def)
    ultimately have "eq_slot p \<noteq> eq_slot q" using chan_okD(3) [OF ok _ p(1) q(1)] p(2) by (simp add: pair_ok_def)
    with S m show ?thesis using next_le [of mir "eq_slot p"] by auto
  qed (use S in simp)
  moreover have "ch_get ch \<le> ch_put ch" using chan_okD(1) [OF ok] by (simp add: base_ok_def)
  ultimately show "ch_get ch \<le> eq_slot p" by (rule order_trans [rotated])
qed

definition pow2 :: "u32 \<Rightarrow> bool" where
  "pow2 depth \<longleftrightarrow> (\<exists>k < 32. unat depth = 2 ^ k)"

lemma slot_index:
  assumes "pow2 depth"
  shows "unat (x AND ucast (depth - 1) :: u64) = unat x mod unat depth"
proof -
  obtain k where k: "k < 32" "unat depth = 2 ^ k" using assms by (auto simp: pow2_def)
  have "1 \<le> depth" using k by (simp add: word_le_unat)
  then have "unat (depth - 1) = 2 ^ k - 1" using k by (simp add: unat_sub)
  moreover have "ucast (depth - 1) = (of_nat (unat (depth - 1)) :: u64)" by simp
  ultimately have "ucast (depth - 1) = (mask k :: u64)" by (simp only: mask_eq_exp_minus_1) (simp add: of_nat_diff)
  then have "x AND ucast (depth - 1) = take_bit k x" by (simp add: take_bit_eq_mask)
  then have "unat (x AND ucast (depth - 1)) = take_bit k (unat x)" by (simp only: unsigned_take_bit_eq)
  then show ?thesis using k by (simp add: take_bit_eq_mod)
qed

lemma index_inj:
  assumes "pow2 depth" "g \<le> unat (x :: u64)" "g \<le> unat (y :: u64)" "unat x < g + unat depth" "unat y < g + unat depth"
    "x AND ucast (depth - 1) = y AND ucast (depth - 1)"
  shows "x = y"
proof -
  have m: "unat x mod unat depth = unat y mod unat depth" using slot_index [OF assms(1)] assms(6) by metis
  then have "a = b" if "a mod unat depth = b mod unat depth" "a \<le> b" "b < a + unat depth" for a b
  proof -
    have "unat depth dvd b - a" using that by (metis mod_eq_dvd_iff_nat)
    moreover have "b - a < unat depth" using that by linarith
    ultimately show ?thesis using that(2) nat_dvd_not_less [of "b - a" "unat depth"] by auto
  qed
  from this [of "unat x" "unat y"] this [of "unat y" "unat x"] m have "unat x = unat y" using assms(2-5) by linarith
  then show ?thesis by (simp add: word_eq_unat)
qed

lemma other_mirror:
  assumes "chan_ok mode depth ps ch mir rsv lock log" "ps i = Some p" "eq_pc p \<noteq> EMirror"
  shows "ch_put ch = mir \<or> (\<exists>j q. j \<noteq> i \<and> ps j = Some q \<and> eq_pc q = EMirror)"
  using chan_okD(4) [OF assms(1)] assms(2,3) by (metis option.inject)

lemma chan_get:
  assumes "chan_ok mode depth ps ch mir rsv lock log" "ch_get ch < ch_put ch"
    "ch_get ch' = ch_get ch + 1" "ch_put ch' = ch_put ch" "ch_ring ch' = ch_ring ch" "ring_mask ch' = ring_mask ch"
  shows "chan_ok mode depth ps ch' mir rsv lock log"
proof -
  have g: "ch_get ch + 1 \<le> ch_put ch" "unat (ch_get ch + 1) = unat (ch_get ch) + 1"
    using assms(2) inc_le unat_less_64 [of "ch_put ch"] by (auto simp: word_less_unat unat_word_ariths)
  then have "ch_get ch \<le> k" if "ch_get ch + 1 \<le> k" for k using that by (simp add: word_le_unat)
  then show ?thesis using assms g unfolding chan_ok_def base_ok_def prod_ok_def by (simp add: less_SucI)
qed

lemma chan_same:
  assumes "chan_ok mode depth ps ch mir rsv lock log"
    "ch_get ch' = ch_get ch" "ch_put ch' = ch_put ch" "ch_ring ch' = ch_ring ch" "ring_mask ch' = ring_mask ch"
  shows "chan_ok mode depth ps ch' mir rsv lock log"
  using assms by (simp add: chan_ok_def base_ok_def prod_ok_def)

text \<open>A producer moves on without touching its channel.\<close>

lemma chan_move:
  assumes ok: "chan_ok mode depth ps ch mir rsv lock log" and p: "ps i = Some p" "eq_pc p \<noteq> EMirror"
    and new: "prod_ok mode depth ch mir rsv lock log p'" and pc: "claiming p' \<Longrightarrow> claiming p \<and> eq_slot p' = eq_slot p" "locking p' \<Longrightarrow> locking p"
  shows "chan_ok mode depth (ps(i := Some p')) ch mir rsv lock log"
proof (rule chan_upd [OF ok p(1) chan_okD(1) [OF ok] new])
  show "prod_ok mode depth ch mir rsv lock log q \<and> pair_ok mode p' q"
    if "j \<noteq> i" "ps j = Some q" "prod_ok mode depth ch mir rsv lock log q" "pair_ok mode p q" for j q
    using that pc by (auto simp: pair_ok_def)
  show "ch_put ch = mir \<or> eq_pc p' = EMirror \<or> (\<exists>j q. j \<noteq> i \<and> ps j = Some q \<and> eq_pc q = EMirror)"
    using other_mirror [OF ok p] by blast
qed

lemmas pc_views = claiming_def spaced_def written_def locking_def

lemma reserve_above:
  assumes ok: "chan_ok mode depth ps ch mir rsv lock log" and p: "ps i = Some p" "eq_pc p = EReserve"
    and slot: "slot = (if mode = SG_SUBMIT_TICKET then rsv else mir)"
  shows "ch_put ch \<le> slot"
proof (cases "ch_put ch = mir")
    case False
    then obtain j q where q: "ps j = Some q" "eq_pc q = EMirror" using chan_okD(4) [OF ok] by blast
    have "j \<noteq> i" using p q by auto
    with q p have mut: "mode \<noteq> SG_SUBMIT_MUTEX" using chan_okD(3) [OF ok _ q(1) p(1)] by (auto simp: pair_ok_def locking_def)
    then have t: "mode = SG_SUBMIT_TICKET" by (cases mode) auto
    then have "eq_slot q < rsv" "eq_slot q = mir" "ch_put ch = mir + 1"
      using chan_okD(2) [OF ok q(1)] q(2) by (auto simp: prod_ok_def claiming_def)
    then show ?thesis using t slot inc_le [of mir rsv] by simp
  qed (use chan_okD(1) [OF ok] slot in \<open>cases mode; auto simp: base_ok_def\<close>)

lemma chan_reserve:
  assumes ok: "chan_ok mode depth ps ch mir rsv lock log" and p: "ps i = Some p" "eq_pc p = EReserve"
    and slot: "slot = (if mode = SG_SUBMIT_TICKET then rsv else mir)" "slot < 2 ^ 63"
    and rsv: "rsv' = (if mode = SG_SUBMIT_TICKET then rsv + 1 else rsv)"
  shows "chan_ok mode depth (ps(i := Some (at ESpace (p\<lparr>eq_slot := slot\<rparr>)))) ch mir rsv' lock (log(slot := eq_cmd p))"
proof -
  note B = chan_okD(1) [OF ok, unfolded base_ok_def]
  note P = reserve_above [OF ok p slot(1)]
  show ?thesis
  proof (rule chan_upd [OF ok p(1)])
    show "base_ok mode depth ch mir rsv' (log(slot := eq_cmd p))"
    proof -
      have "slot \<le> slot + 1" "slot + 1 \<le> 2 ^ 63" using slot(2) inc_63 [of slot] by (simp_all add: word_le_unat word_less_unat)
      moreover have "k \<noteq> slot" if "k < ch_put ch" for k using that P by auto
      ultimately show ?thesis using B slot(1) rsv by (auto simp: base_ok_def intro: order_trans)
    qed
    show "prod_ok mode depth ch mir rsv' lock (log(slot := eq_cmd p)) (at ESpace (p\<lparr>eq_slot := slot\<rparr>))"
    proof -
      have "slot < slot + 1" using slot(2) inc_63 [of slot] by (simp add: word_less_unat)
      moreover have "mir \<le> slot" using B slot(1) by (cases mode) auto
      moreover have "mode = SG_SUBMIT_MUTEX \<Longrightarrow> lock" using chan_okD(2) [OF ok p(1)] p(2) by (simp add: prod_ok_def locking_def)
      ultimately show ?thesis using slot rsv by (cases mode) (simp_all add: prod_ok_def)
    qed
    show "prod_ok mode depth ch mir rsv' lock (log(slot := eq_cmd p)) q \<and> pair_ok mode (at ESpace (p\<lparr>eq_slot := slot\<rparr>)) q"
      if q: "j \<noteq> i" "ps j = Some q" "prod_ok mode depth ch mir rsv lock log q" "pair_ok mode p q" for j q
    proof -
      have "eq_slot q \<noteq> slot \<and> (mode = SG_SUBMIT_TICKET \<longrightarrow> eq_slot q < rsv')" if "claiming q"
      proof (cases mode)
        case SG_SUBMIT_MUTEX
        have "locking q" using that by (rule pc_facts)
        then show ?thesis using q(4) p(2) SG_SUBMIT_MUTEX by (auto simp: pair_ok_def locking_def)
      next
        case SG_SUBMIT_TICKET
        then have "eq_slot q < rsv" using q(3) that by (simp add: prod_ok_def)
        then show ?thesis using SG_SUBMIT_TICKET slot rsv inc_63 [of slot] by (auto simp: word_less_unat)
      qed
      moreover have "locking p" using p(2) by (simp add: locking_def)
      ultimately show ?thesis using q(3,4) by (cases "claiming q"; cases mode) (auto simp: prod_ok_def pair_ok_def)
    qed
    show "ch_put ch = mir \<or> eq_pc (at ESpace (p\<lparr>eq_slot := slot\<rparr>)) = EMirror \<or> (\<exists>j q. j \<noteq> i \<and> ps j = Some q \<and> eq_pc q = EMirror)"
      using other_mirror [OF ok p(1)] p(2) by simp
  qed
qed

lemma chan_space:
  assumes ok: "chan_ok mode depth ps ch mir rsv lock log" and p: "ps i = Some p" "eq_pc p = ESpace" and d: "pow2 depth"
  shows "eq_slot p - ch_get ch \<ge> ucast depth \<Longrightarrow> chan_ok mode depth (ps(i := Some (at EStall p))) ch mir rsv lock log"
    "\<not> eq_slot p - ch_get ch \<ge> ucast depth \<Longrightarrow> chan_ok mode depth (ps(i := Some (at EWrite p))) ch mir rsv lock log"
proof -
  have pc: "claiming p" "locking p" "eq_pc p \<noteq> EMirror" using p(2) by (simp_all add: claiming_def locking_def)
  note g = put_le_slot(2) [OF ok p(1) pc(1,3)]
  have u: "unat (eq_slot p - ch_get ch) = unat (eq_slot p) - unat (ch_get ch)" using g by (rule unat_sub)
  have dd: "unat (ucast depth :: u64) = unat depth" by (simp add: unsigned_ucast_eq take_bit_nat_eq_self unat_less_32 order.strict_trans [OF unat_less_32])
  note P = chan_okD(2) [OF ok p(1)]
  show "chan_ok mode depth (ps(i := Some (at EStall p))) ch mir rsv lock log" if "eq_slot p - ch_get ch \<ge> ucast depth"
  proof -
    have "ucast depth \<le> eq_slot p" using that u dd by (simp add: word_le_unat)
    then show ?thesis using P pc by (intro chan_move [OF ok p(1) pc(3)]) (simp_all add: prod_ok_def)
  qed
  show "chan_ok mode depth (ps(i := Some (at EWrite p))) ch mir rsv lock log" if "\<not> eq_slot p - ch_get ch \<ge> ucast depth"
  proof -
    have "unat (eq_slot p) < unat (ch_get ch) + unat depth" using that u dd g by (simp add: word_le_unat)
    then show ?thesis using P pc by (intro chan_move [OF ok p(1) pc(3)]) (simp_all add: prod_ok_def)
  qed
qed

lemma chan_stall:
  assumes ok: "chan_ok mode depth ps ch mir rsv lock log" and p: "ps i = Some p" "eq_pc p = EStall" and d: "pow2 depth"
    and g: "ch_get ch \<ge> eq_slot p - ucast depth + 1"
  shows "chan_ok mode depth (ps(i := Some (at EWrite p))) ch mir rsv lock log"
proof -
  have pc: "claiming p" "locking p" "eq_pc p \<noteq> EMirror" using p(2) by (simp_all add: claiming_def locking_def)
  note P = chan_okD(2) [OF ok p(1)]
  have "ucast depth \<le> eq_slot p" "eq_slot p < 2 ^ 63" using P p(2) pc(1) by (simp_all add: prod_ok_def)
  then have "unat (eq_slot p - ucast depth + 1) = unat (eq_slot p) - unat (ucast depth :: u64) + 1"
    by (simp add: unat_sub inc_63 word_less_unat)
  moreover have "unat (ucast depth :: u64) = unat depth" by (simp add: unsigned_ucast_eq take_bit_nat_eq_self unat_less_32 order.strict_trans [OF unat_less_32])
  ultimately have "unat (eq_slot p) < unat (ch_get ch) + unat depth" using g by (simp add: word_le_unat)
  then show ?thesis using P pc by (intro chan_move [OF ok p(1) pc(3)]) (simp_all add: prod_ok_def)
qed

text \<open>A producer that holds the lock, or whose turn it is, sees both PUT counters equal.\<close>

lemma sole_put:
  assumes ok: "chan_ok mode depth ps ch mir rsv lock log" and p: "ps i = Some p" "locking p" "eq_pc p \<noteq> EMirror"
    and alone: "mode = SG_SUBMIT_MUTEX \<or> claiming p \<and> eq_slot p = mir"
  shows "ch_put ch = mir"
proof (rule ccontr)
  assume "ch_put ch \<noteq> mir"
  then obtain j q where q: "j \<noteq> i" "ps j = Some q" "eq_pc q = EMirror" using other_mirror [OF ok p(1,3)] by blast
  have c: "claiming q" "locking q" using pc_facts(1,4) [of q] q(3) by blast+
  have "pair_ok mode p q" using chan_okD(3) [OF ok _ p(1) q(2)] q(1) by blast
  moreover have "eq_slot q = mir" using chan_okD(2) [OF ok q(2)] q(3) by (simp add: prod_ok_def)
  ultimately show False using alone c p(2) by (auto simp: pair_ok_def)
qed

lemma chan_write:
  assumes ok: "chan_ok mode depth ps ch mir rsv lock log" and p: "ps i = Some p" "eq_pc p = EWrite" and d: "pow2 depth"
  shows "chan_ok mode depth (ps(i := Some (at (if mode = SG_SUBMIT_TICKET then ETurn else EBegin) p)))
    (ch\<lparr>ch_ring := (ch_ring ch)(eq_slot p AND ucast (depth - 1) := eq_cmd p)\<rparr>) mir rsv lock log"
proof -
  let ?p = "at (if mode = SG_SUBMIT_TICKET then ETurn else EBegin) p"
  let ?ch = "ch\<lparr>ch_ring := (ch_ring ch)(eq_slot p AND ucast (depth - 1) := eq_cmd p)\<rparr>"
  have pc: "claiming p" "locking p" "spaced p" "eq_pc p \<noteq> EMirror" using p(2) by (simp_all add: claiming_def locking_def spaced_def)
  note P = chan_okD(2) [OF ok p(1)] and B = chan_okD(1) [OF ok] and le = put_le_slot [OF ok p(1) pc(1,4)]
  have lt: "unat (eq_slot p) < unat (ch_get ch) + unat depth" "unat (ch_get ch) \<le> unat (eq_slot p)"
    using P pc(3) le(2) by (simp_all add: prod_ok_def word_le_unat)
  have away: "ch_ring ?ch (x AND ucast (depth - 1)) = ch_ring ch (x AND ucast (depth - 1))"
    if "ch_get ch \<le> x" "unat x < unat (ch_get ch) + unat depth" "x \<noteq> eq_slot p" for x
    using index_inj [OF d, of "unat (ch_get ch)" x "eq_slot p"] that lt by (auto simp: word_le_unat)
  show ?thesis
  proof (rule chan_upd [OF ok p(1)])
    have "ch_ring ?ch (k AND ucast (depth - 1)) = log k" if k: "ch_get ch \<le> k" "k < ch_put ch" for k
    proof -
      have "k \<noteq> eq_slot p" using k(2) le(1) by auto
      moreover have "unat k < unat (ch_get ch) + unat depth" using k(2) B by (simp add: base_ok_def word_less_unat)
      ultimately show ?thesis using away [OF k(1)] B k by (simp add: base_ok_def)
    qed
    then show "base_ok mode depth ?ch mir rsv log" using B by (simp add: base_ok_def)
    have "mode = SG_SUBMIT_MUTEX \<Longrightarrow> ch_put ch = mir" using sole_put [OF ok p(1) pc(2,4)] by blast
    then show "prod_ok mode depth ?ch mir rsv lock log ?p" using P pc lt by (cases mode) (auto simp: prod_ok_def)
    show "prod_ok mode depth ?ch mir rsv lock log q \<and> pair_ok mode ?p q"
      if q: "j \<noteq> i" "ps j = Some q" "prod_ok mode depth ch mir rsv lock log q" "pair_ok mode p q" for j q
    proof -
      have "ch_ring ?ch (eq_slot q AND ucast (depth - 1)) = eq_cmd q" if "written q"
        using that q pc_facts [of q] away [of "eq_slot q"] put_le_slot(2) [OF ok q(2)] pc(1) by (auto simp: prod_ok_def pair_ok_def)
      then show ?thesis using q(3,4) pc by (simp add: prod_ok_def pair_ok_def)
    qed
    show "ch_put ?ch = mir \<or> eq_pc ?p = EMirror \<or> (\<exists>j q. j \<noteq> i \<and> ps j = Some q \<and> eq_pc q = EMirror)"
      using other_mirror [OF ok p(1) pc(4)] by simp
  qed
qed

lemma chan_turn:
  assumes ok: "chan_ok mode depth ps ch mir rsv lock log" and p: "ps i = Some p" "eq_pc p = ETurn" and t: "mir = eq_slot p"
  shows "chan_ok mode depth (ps(i := Some (at EBegin p))) ch mir rsv lock log"
proof -
  have pc: "claiming p" "locking p" "spaced p" "written p" "eq_pc p \<noteq> EMirror"
    using p(2) by (simp_all add: claiming_def locking_def spaced_def written_def)
  have "ch_put ch = mir" using sole_put [OF ok p(1) pc(2,5)] pc(1) t by simp
  then show ?thesis using chan_okD(2) [OF ok p(1)] pc t
    by (intro chan_move [OF ok p(1) pc(5)]) (simp_all add: prod_ok_def)
qed

lemma chan_begin:
  assumes ok: "chan_ok mode depth ps ch mir rsv lock log" and p: "ps i = Some p" "eq_pc p = EBegin"
  shows "chan_ok mode depth (ps(i := Some (at EStore p))) ch mir rsv lock log"
proof -
  have pc: "claiming p" "locking p" "spaced p" "written p" "eq_pc p \<noteq> EMirror"
    using p(2) by (simp_all add: claiming_def locking_def spaced_def written_def)
  then show ?thesis using chan_okD(2) [OF ok p(1)] p(2)
    by (intro chan_move [OF ok p(1) pc(5)]) (auto simp: prod_ok_def)
qed

lemma chan_store:
  assumes ok: "chan_ok mode depth ps ch mir rsv lock log" and p: "ps i = Some p" "eq_pc p = EStore"
  shows "chan_ok mode depth (ps(i := Some (at EMirror p))) (ch\<lparr>ch_put := eq_slot p + 1\<rparr>) mir rsv lock log"
proof -
  have pc: "claiming p" "locking p" "spaced p" "written p" using p(2) by (simp_all add: claiming_def locking_def spaced_def written_def)
  note P = chan_okD(2) [OF ok p(1)] and B = chan_okD(1) [OF ok]
  have s: "eq_slot p = mir" "ch_put ch = mir" "eq_slot p < 2 ^ 63" using P p(2) pc by (auto simp: prod_ok_def)
  note u = inc_63 [OF s(3)]
  show ?thesis
  proof (rule chan_upd [OF ok p(1)])
    have "ch_ring ch (k AND ucast (depth - 1)) = log k" if "ch_get ch \<le> k" "k < eq_slot p + 1" for k
    proof (cases "k = eq_slot p")
      case True
      then show ?thesis using P pc by (simp add: prod_ok_def)
    next
      case False
      then have "k < ch_put ch" using that(2) u s by (simp add: word_less_unat word_eq_unat)
      then show ?thesis using B that(1) by (simp add: base_ok_def)
    qed
    moreover have "unat (eq_slot p) < unat (ch_get ch) + unat depth" using P pc by (simp add: prod_ok_def)
    ultimately show "base_ok mode depth (ch\<lparr>ch_put := eq_slot p + 1\<rparr>) mir rsv log"
      using B u s by (simp add: base_ok_def word_le_unat)
    show "prod_ok mode depth (ch\<lparr>ch_put := eq_slot p + 1\<rparr>) mir rsv lock log (at EMirror p)"
      using P s pc by (cases mode) (auto simp: prod_ok_def)
    show "prod_ok mode depth (ch\<lparr>ch_put := eq_slot p + 1\<rparr>) mir rsv lock log q \<and> pair_ok mode (at EMirror p) q"
      if q: "j \<noteq> i" "ps j = Some q" "prod_ok mode depth ch mir rsv lock log q" "pair_ok mode p q" for j q
    proof -
      have "eq_slot q \<noteq> mir" if "claiming q" using q(4) that pc(1) s(1) by (auto simp: pair_ok_def)
      then have "eq_pc q \<noteq> EMirror" "eq_pc q \<noteq> EBegin" "eq_pc q \<noteq> EStore"
        using q(3) pc_facts [of q] by (auto simp: prod_ok_def)
      then show ?thesis using q(3,4) pc by (simp add: prod_ok_def pair_ok_def)
    qed
  qed simp
qed

lemma chan_mirror:
  assumes ok: "chan_ok mode depth ps ch mir rsv lock log" and p: "ps i = Some p" "eq_pc p = EMirror"
  shows "chan_ok mode depth (ps(i := Some (at ERing p))) ch (eq_slot p + 1) rsv lock log"
proof -
  have pc: "claiming p" "locking p" using p(2) by (simp_all add: claiming_def locking_def)
  note P = chan_okD(2) [OF ok p(1)] and B = chan_okD(1) [OF ok]
  have s: "eq_slot p = mir" "ch_put ch = mir + 1" "eq_slot p < 2 ^ 63" using P p(2) pc by (auto simp: prod_ok_def)
  note u = inc_63 [OF s(3)]
  show ?thesis
  proof (rule chan_upd [OF ok p(1)])
    have "mode = SG_SUBMIT_TICKET \<Longrightarrow> eq_slot p < rsv" using P pc by (simp add: prod_ok_def)
    then show "base_ok mode depth ch (eq_slot p + 1) rsv log"
      using B u s(3) by (auto simp: base_ok_def word_le_unat word_less_unat)
    show "prod_ok mode depth ch (eq_slot p + 1) rsv lock log (at ERing p)" using P pc by (simp add: prod_ok_def)
    show "prod_ok mode depth ch (eq_slot p + 1) rsv lock log q \<and> pair_ok mode (at ERing p) q"
      if q: "j \<noteq> i" "ps j = Some q" "prod_ok mode depth ch mir rsv lock log q" "pair_ok mode p q" for j q
    proof -
      have c: "eq_slot q \<noteq> mir" "mir \<le> eq_slot q" "mode \<noteq> SG_SUBMIT_MUTEX" if "claiming q"
        using q(3,4) that pc s(1) pc_facts(1) [of q] by (auto simp: pair_ok_def prod_ok_def)
      then have "eq_slot p + 1 \<le> eq_slot q" if "claiming q" using that next_le [of mir "eq_slot q"] s(1) by auto
      moreover have "eq_pc q \<noteq> EMirror" "eq_pc q \<noteq> EBegin" "eq_pc q \<noteq> EStore"
        using q(3) c(1) pc_facts [of q] by (auto simp: prod_ok_def)
      ultimately show ?thesis using q(3,4) pc c(3) by (cases "claiming q"; cases mode) (simp_all add: prod_ok_def pair_ok_def)
    qed
  qed (simp add: s)
qed

lemma chan_lock:
  assumes ok: "chan_ok mode depth ps ch mir rsv lock log" and p: "ps i = Some p" "eq_pc p = ELock"
    and l: "mode = SG_SUBMIT_TICKET \<and> lock' = lock \<or> mode = SG_SUBMIT_MUTEX \<and> \<not> lock \<and> lock'"
  shows "chan_ok mode depth (ps(i := Some (at ECheck p))) ch mir rsv lock' log"
proof (rule chan_upd [OF ok p(1) chan_okD(1) [OF ok]])
  show "prod_ok mode depth ch mir rsv lock' log (at ECheck p)" using l by (auto simp: prod_ok_def)
  show "prod_ok mode depth ch mir rsv lock' log q \<and> pair_ok mode (at ECheck p) q"
    if q: "prod_ok mode depth ch mir rsv lock log q" for j q
    using q l by (auto simp: prod_ok_def pair_ok_def)
qed (use other_mirror [OF ok p(1)] p(2) in simp)

lemma chan_unlock:
  assumes ok: "chan_ok mode depth ps ch mir rsv lock log" and p: "ps i = Some p" "eq_pc p = EUnlock"
    and l: "mode = SG_SUBMIT_TICKET \<and> lock' = lock \<or> mode = SG_SUBMIT_MUTEX"
  shows "chan_ok mode depth (ps(i := Some (at EDone p))) ch mir rsv lock' log"
proof (rule chan_upd [OF ok p(1) chan_okD(1) [OF ok]])
  have "locking p" using p(2) by (simp add: locking_def)
  show "prod_ok mode depth ch mir rsv lock' log (at EDone p)" by (simp add: prod_ok_def)
  show "prod_ok mode depth ch mir rsv lock' log q \<and> pair_ok mode (at EDone p) q"
    if q: "prod_ok mode depth ch mir rsv lock log q" "pair_ok mode p q" for j q
    using q l \<open>locking p\<close> by (auto simp: prod_ok_def pair_ok_def)
qed (use other_mirror [OF ok p(1)] p(2) in simp)

section \<open>The invariant of the machine\<close>

definition prods :: "sys \<Rightarrow> u32 \<Rightarrow> u32 \<Rightarrow> nat \<Rightarrow> enq option" where
  "prods s e c i =
     (if i < length (sy_enq s) \<and> eq_engine (sy_enq s ! i) = e \<and> eq_channel (sy_enq s ! i) = c then Some (sy_enq s ! i) else None)"

definition chan_inv :: "sys \<Rightarrow> u32 \<Rightarrow> u32 \<Rightarrow> bool" where
  "chan_inv s e c \<longleftrightarrow> chan_ok (rd_mode (sy_drv s)) (rd_depth (sy_drv s)) (prods s e c) (dv_ch (sy_dev s) e c)
     (rd_put (sy_drv s) e c) (rd_reserve (sy_drv s) e c) (rd_lock (sy_drv s) e c) (sy_log s e c)"

definition sys_inv :: "sys \<Rightarrow> bool" where
  "sys_inv s \<longleftrightarrow> pow2 (rd_depth (sy_drv s)) \<and> (\<forall>e c. chan_inv s e c) \<and> (\<forall>e. thr_inv e (sy_thr s e) (sy_dev s))"

lemmas eq_defs = eq_lock_def eq_check_def eq_reserve_def eq_space_def eq_stall_def eq_write_def eq_turn_def eq_begin_def
  eq_store_def eq_mirror_def eq_ring_def eq_end_def eq_unlock_def

lemma doorbell_sel [simp]:
  "dv_ch (begin_doorbell e d) = dv_ch d" "dv_ch (end_doorbell e d) = dv_ch d" "dv_ch (doorbell e d) = dv_ch d"
  "num_engines (begin_doorbell e d) = num_engines d" "num_engines (end_doorbell e d) = num_engines d" "num_engines (doorbell e d) = num_engines d"
  "num_channels (begin_doorbell e d) = num_channels d" "num_channels (end_doorbell e d) = num_channels d" "num_channels (doorbell e d) = num_channels d"
  by (simp_all add: begin_doorbell_def end_doorbell_def doorbell_def Let_def stamp_and_signal_def signal_bell_def split: option.split)

lemma enq_frame:
  assumes "enq_step p r d = Some (p', r', d')"
  shows "eq_engine p' = eq_engine p" "eq_channel p' = eq_channel p" "rd_mode r' = rd_mode r" "rd_depth r' = rd_depth r"
    "e \<noteq> eq_engine p \<or> c \<noteq> eq_channel p \<Longrightarrow> dv_ch d' e c = dv_ch d e c \<and> rd_put r' e c = rd_put r e c \<and>
       rd_reserve r' e c = rd_reserve r e c \<and> rd_lock r' e c = rd_lock r e c"
    "ch_get (dv_ch d' e c) = ch_get (dv_ch d e c)" "num_engines d' = num_engines d" "num_channels d' = num_channels d"
    "ring_mask (dv_ch d' e c) = ring_mask (dv_ch d e c)"
  using assms by (cases "eq_pc p"; auto simp: eq_defs Let_def at_def split: if_splits list.splits)+

lemma chan_idle:
  assumes ok: "chan_ok mode depth ps ch mir rsv lock log" and p: "ps i = Some p" "locking p" "eq_pc p \<noteq> EMirror"
    and p': "eq_pc p' \<in> {ECheck, EReserve, ERing, EEnd, EUnlock}"
  shows "chan_ok mode depth (ps(i := Some p')) ch mir rsv lock log"
proof -
  have n: "\<not> claiming p'" "\<not> spaced p'" "\<not> written p'" using p' by (auto simp: claiming_def spaced_def written_def)
  have k: "eq_pc p' \<noteq> EStall" "eq_pc p' \<noteq> EBegin" "eq_pc p' \<noteq> EStore" "eq_pc p' \<noteq> EMirror" using p' by auto
  have "mode = SG_SUBMIT_MUTEX \<Longrightarrow> lock" using chan_okD(2) [OF ok p(1)] p(2) by (simp add: prod_ok_def)
  then have "prod_ok mode depth ch mir rsv lock log p'" by (simp add: prod_ok_def n k)
  then show ?thesis using n by (intro chan_move [OF ok p(1,3)]) (use p(2) in auto)
qed

lemma enq_chan:
  fixes p r d
  defines "e \<equiv> eq_engine p" and "c \<equiv> eq_channel p"
  assumes ok: "chan_ok (rd_mode r) (rd_depth r) ps (dv_ch d e c) (rd_put r e c) (rd_reserve r e c) (rd_lock r e c) log"
    and p: "ps i = Some p" and st: "enq_step p r d = Some (p', r', d')" and dp: "pow2 (rd_depth r)"
    and room: "eq_pc p = EReserve \<Longrightarrow> next_slot p r < 2 ^ 63"
  shows "chan_ok (rd_mode r') (rd_depth r') (ps(i := Some p')) (dv_ch d' e c) (rd_put r' e c) (rd_reserve r' e c) (rd_lock r' e c)
    (if eq_pc p = EReserve then log(next_slot p r := eq_cmd p) else log)"
proof (cases "eq_pc p")
  case ELock
  with st ok p show ?thesis
    by (cases "rd_mode r") (auto simp: eq_defs Let_def e_def c_def split: if_splits intro!: chan_lock)
next
  case ECheck
  with chan_idle [OF ok p] st show ?thesis by (auto simp: eq_defs locking_def split: if_splits)
next
  case EReserve
  with chan_reserve [OF ok p EReserve refl] room st show ?thesis
    by (auto simp: eq_defs next_slot_def Let_def e_def c_def split: if_splits)
next
  case ESpace
  with st ok p dp show ?thesis by (auto simp: eq_defs e_def c_def split: if_splits intro!: chan_space)
next
  case EStall
  with st ok p dp show ?thesis by (auto simp: eq_defs e_def c_def split: if_splits intro!: chan_stall)
next
  case EWrite
  then show ?thesis using chan_write [OF ok p EWrite dp] st by (auto simp: eq_defs e_def c_def)
next
  case ETurn
  with st ok p dp show ?thesis by (auto simp: eq_defs e_def c_def split: if_splits intro!: chan_turn)
next
  case EBegin
  with st ok p dp show ?thesis by (auto simp: eq_defs e_def c_def intro!: chan_begin)
next
  case EStore
  with st ok p dp show ?thesis by (auto simp: eq_defs e_def c_def intro!: chan_store)
next
  case EMirror
  with st ok p dp show ?thesis by (auto simp: eq_defs e_def c_def intro!: chan_mirror)
next
  case ERing
  with chan_idle [OF ok p] st show ?thesis by (auto simp: eq_defs locking_def)
next
  case EEnd
  with chan_idle [OF ok p] st show ?thesis by (auto simp: eq_defs locking_def split: list.splits)
next
  case EUnlock
  with st ok p show ?thesis by (cases "rd_mode r") (auto simp: eq_defs e_def c_def split: if_splits intro!: chan_unlock)
next
  case EDone
  with st show ?thesis by simp
qed

text \<open>A step of a producer keeps the invariant. \<open>log'\<close> is the history after the step.\<close>

definition claim_log :: "enq \<Rightarrow> sys \<Rightarrow> u32 \<Rightarrow> u32 \<Rightarrow> u64 \<Rightarrow> sg_cmd" where
  "claim_log p s = (if eq_pc p = EReserve
     then set2 (eq_engine p) (eq_channel p) ((sy_log s (eq_engine p) (eq_channel p))(next_slot p (sy_drv s) := eq_cmd p)) (sy_log s)
     else sy_log s)"

lemma prods_upd:
  assumes "i < length (sy_enq s)" "eq_engine p' = eq_engine (sy_enq s ! i)" "eq_channel p' = eq_channel (sy_enq s ! i)" "sy_enq s' = (sy_enq s)[i := p']"
  shows "prods s' e c = (if e = eq_engine p' \<and> c = eq_channel p' then (prods s e c)(i := Some p') else prods s e c)"
  using assms by (auto simp: prods_def fun_eq_iff nth_list_update)

lemma enq_put:
  assumes "chan_ok mode depth ps (dv_ch d (eq_engine p) (eq_channel p)) mir rsv lock log" "ps i = Some p" "enq_step p r d = Some (p', r', d')"
  shows "ch_put (dv_ch d (eq_engine p) (eq_channel p)) \<le> ch_put (dv_ch d' (eq_engine p) (eq_channel p))"
proof (cases "eq_pc p = EStore")
  case True
  then have "eq_slot p < 2 ^ 63" "ch_put (dv_ch d (eq_engine p) (eq_channel p)) = eq_slot p"
    using chan_okD(2) [OF assms(1,2)] by (auto simp: prod_ok_def claiming_def)
  then show ?thesis using True assms(3) inc_63 [of "eq_slot p"] by (auto simp: eq_defs word_le_unat)
next
  case False
  then show ?thesis using assms(3) by (cases "eq_pc p") (auto simp: eq_defs Let_def split: if_splits)
qed

lemma enq_inv:
  assumes inv: "sys_inv s" and i: "i < length (sy_enq s)" "p = sy_enq s ! i" and st: "enq_step p (sy_drv s) (sy_dev s) = Some (p', r, d)"
    and room: "eq_pc p = EReserve \<Longrightarrow> next_slot p (sy_drv s) < 2 ^ 63"
    and s': "sy_enq s' = (sy_enq s)[i := p']" "sy_drv s' = r" "sy_dev s' = d" "sy_log s' = claim_log p s" "sy_thr s' = sy_thr s"
  shows "sys_inv s'"
proof -
  let ?e = "eq_engine p" and ?c = "eq_channel p" and ?r = "sy_drv s" and ?d = "sy_dev s"
  note F = enq_frame [OF st]
  have C: "chan_inv s e c" for e c using inv by (simp add: sys_inv_def)
  have ps: "prods s' e c = (if e = ?e \<and> c = ?c then (prods s e c)(i := Some p') else prods s e c)" for e c
    using prods_upd [OF i(1), of p'] F(1,2) i(2) s'(1) by simp
  have pi: "prods s ?e ?c i = Some p" using i by (simp add: prods_def)
  have ok: "chan_inv s' e c" for e c
  proof (cases "e = ?e \<and> c = ?c")
    case True
    have "pow2 (rd_depth ?r)" using inv by (simp add: sys_inv_def)
    from enq_chan [OF C [of ?e ?c, unfolded chan_inv_def] pi st this room]
    show ?thesis using True s' F ps by (cases "eq_pc p = EReserve") (simp_all add: chan_inv_def claim_log_def)
  next
    case False
    then show ?thesis using C [of e c] F(3,4) F(5) [of e c] s' ps by (auto simp: chan_inv_def claim_log_def)
  qed
  have B: "base_ok (rd_mode ?r) (rd_depth ?r) (dv_ch ?d e c) (rd_put ?r e c) (rd_reserve ?r e c) (sy_log s e c)"
    "base_ok (rd_mode ?r) (rd_depth ?r) (dv_ch d e c) (rd_put r e c) (rd_reserve r e c) (claim_log p s e c)" for e c
    using chan_okD(1) C [of e c] ok [of e c] F(3,4) s' by (simp_all add: chan_inv_def)
  have P: "ch_put (dv_ch ?d e c) \<le> ch_put (dv_ch d e c)" for e c
    using enq_put [OF C [of ?e ?c, unfolded chan_inv_def] pi st] F(5) [of e c] by (cases "e = ?e \<and> c = ?c") auto
  have L: "claim_log p s e c k = sy_log s e c k" if "k < ch_put (dv_ch ?d e c)" for e c k
    using reserve_above [OF C [of ?e ?c, unfolded chan_inv_def] pi _ refl] that by (auto simp: claim_log_def next_slot_def)
  have R: "ch_ring (dv_ch d e c) (k AND ucast (rd_depth ?r - 1)) = ch_ring (dv_ch ?d e c) (k AND ucast (rd_depth ?r - 1))"
    if k: "ch_get (dv_ch ?d e c) \<le> k" "k < ch_put (dv_ch ?d e c)" for e c k
  proof -
    have "k < ch_put (dv_ch d e c)" using k(2) P less_le_trans by blast
    then show ?thesis using B [of e c] k L [OF k(2)] F(6) [of e c] by (simp add: base_ok_def)
  qed
  have "ring_mask (dv_ch ?d e c) = rd_depth ?r - 1" for e c using B(1) by (simp add: base_ok_def)
  then have "thr_rely e ?d d" for e using F(6-9) P R by (simp add: thr_rely_def)
  then show ?thesis using inv ok F(4) s' by (auto simp: sys_inv_def intro: thr_inv_stable)
qed

definition same_rings :: "device \<Rightarrow> device \<Rightarrow> bool" where
  "same_rings d d' \<longleftrightarrow> num_engines d' = num_engines d \<and> num_channels d' = num_channels d \<and>
     (\<forall>e c. ch_get (dv_ch d' e c) = ch_get (dv_ch d e c) \<and> ch_put (dv_ch d' e c) = ch_put (dv_ch d e c) \<and>
        ch_ring (dv_ch d' e c) = ch_ring (dv_ch d e c) \<and> ring_mask (dv_ch d' e c) = ring_mask (dv_ch d e c))"

lemma other_inv:
  assumes "sys_inv s" "same_rings (sy_dev s) (sy_dev s')" "sy_thr s' = sy_thr s" "sy_drv s' = sy_drv s" "sy_enq s' = sy_enq s" "sy_log s' = sy_log s"
  shows "sys_inv s'"
proof -
  have "thr_rely e (sy_dev s) (sy_dev s')" for e using assms(2) by (simp add: same_rings_def thr_rely_def)
  then have "thr_inv e (sy_thr s' e) (sy_dev s')" for e using assms(1,3) by (auto simp: sys_inv_def intro: thr_inv_stable)
  moreover have "chan_inv s' e c" for e c
  proof -
    have p: "prods s' e c = prods s e c" using assms(5) by (simp add: prods_def fun_eq_iff)
    have C: "chan_inv s e c" using assms(1) by (simp add: sys_inv_def)
    from assms(2) have "ch_get (dv_ch (sy_dev s') e c) = ch_get (dv_ch (sy_dev s) e c)" "ch_put (dv_ch (sy_dev s') e c) = ch_put (dv_ch (sy_dev s) e c)"
      "ch_ring (dv_ch (sy_dev s') e c) = ch_ring (dv_ch (sy_dev s) e c)" "ring_mask (dv_ch (sy_dev s') e c) = ring_mask (dv_ch (sy_dev s) e c)"
      by (simp_all add: same_rings_def)
    from chan_same [OF C [unfolded chan_inv_def] this] show ?thesis using assms(4-6) by (simp add: chan_inv_def p)
  qed
  ultimately show ?thesis using assms(1,4) by (simp add: sys_inv_def)
qed

lemma less_le_up: "(x :: u64) < y \<Longrightarrow> x \<le> x + 1"
  using unat_less_64 [of y] by (simp add: word_less_unat word_le_unat unat_word_ariths)

lemma engine_inv:
  assumes inv: "sys_inv s" and st: "engine_step fadd fmul e (sy_thr s e, sy_dev s) = (t, d)"
  shows "sys_inv (s\<lparr>sy_thr := (sy_thr s)(e := t), sy_dev := d\<rparr>)"
proof -
  let ?d = "sy_dev s"
  have T: "thr_inv e (sy_thr s e) ?d" "pow2 (rd_depth (sy_drv s))" and C: "chan_inv s e' c" for e' c using inv by (simp_all add: sys_inv_def)
  note S = thr_step [OF T(1) st] and G = engine_step_guar [of e ?d fadd fmul "sy_thr s e", unfolded st snd_conv]
  have get: "ch_get (dv_ch d e' c) = ch_get (dv_ch ?d e' c) \<or>
      ch_get (dv_ch d e' c) = ch_get (dv_ch ?d e' c) + 1 \<and> ch_get (dv_ch ?d e' c) < ch_put (dv_ch ?d e' c)" for e' c
    using S G by (cases "e' = e") (auto simp: get_step_def engine_guar_def)
  have ch: "chan_inv (s\<lparr>sy_thr := (sy_thr s)(e := t), sy_dev := d\<rparr>) e' c" for e' c
  proof -
    have same: "ch_put (dv_ch d e' c) = ch_put (dv_ch ?d e' c)" "ch_ring (dv_ch d e' c) = ch_ring (dv_ch ?d e' c)"
      "ring_mask (dv_ch d e' c) = ring_mask (dv_ch ?d e' c)" using G by (simp_all add: engine_guar_def)
    have p: "prods (s\<lparr>sy_thr := (sy_thr s)(e := t), sy_dev := d\<rparr>) e' c = prods s e' c" by (simp add: prods_def fun_eq_iff)
    show ?thesis using get [of e' c]
    proof
      assume "ch_get (dv_ch d e' c) = ch_get (dv_ch ?d e' c)"
      from chan_same [OF C [of e' c, unfolded chan_inv_def] this same] show ?thesis by (simp add: chan_inv_def p)
    next
      assume g: "ch_get (dv_ch d e' c) = ch_get (dv_ch ?d e' c) + 1 \<and> ch_get (dv_ch ?d e' c) < ch_put (dv_ch ?d e' c)"
      from chan_get [OF C [of e' c, unfolded chan_inv_def] conjunct2 [OF g] conjunct1 [OF g] same] show ?thesis by (simp add: chan_inv_def p)
    qed
  qed
  have "thr_inv e' (sy_thr s e') d" if "e' \<noteq> e" for e'
  proof -
    have "ch_get (dv_ch ?d a c) \<le> ch_get (dv_ch d a c)" for a c
      using get [of a c] less_le_up [of "ch_get (dv_ch ?d a c)"] by auto
    then have "thr_rely e' ?d d" using G that by (auto simp: thr_rely_def engine_guar_def)
    moreover have "thr_inv e' (sy_thr s e') ?d" using inv by (simp add: sys_inv_def)
    ultimately show ?thesis using thr_inv_stable by blast
  qed
  then show ?thesis using S T(2) ch by (simp add: sys_inv_def)
qed

lemma chan_add:
  assumes ok: "chan_ok mode depth ps ch mir rsv lock log" and p: "ps i = None" "eq_pc p = ELock"
  shows "chan_ok mode depth (ps(i := Some p)) ch mir rsv lock log"
  unfolding chan_ok_def
proof (intro conjI allI impI)
  have n: "\<not> claiming p" "\<not> spaced p" "\<not> written p" "\<not> locking p" using p(2) by (auto simp: claiming_def spaced_def written_def locking_def)
  show "base_ok mode depth ch mir rsv log" by (rule chan_okD(1) [OF ok])
  show "prod_ok mode depth ch mir rsv lock log q" if "(ps(i := Some p)) j = Some q" for j q
    using that chan_okD(2) [OF ok] n p by (cases "j = i") (auto simp: prod_ok_def)
  show "pair_ok mode q q'" if "j \<noteq> k" "(ps(i := Some p)) j = Some q" "(ps(i := Some p)) k = Some q'" for j k q q'
    using that n chan_okD(3) [OF ok] by (cases "j = i"; cases "k = i") (auto simp: pair_ok_def)
  show "ch_put ch = mir \<or> (\<exists>j q. (ps(i := Some p)) j = Some q \<and> eq_pc q = EMirror)"
    using chan_okD(4) [OF ok] p by (metis fun_upd_apply option.distinct(1))
qed

lemma submit_inv:
  assumes inv: "sys_inv s" and p: "eq_pc p = ELock"
  shows "sys_inv (s\<lparr>sy_enq := sy_enq s @ [p]\<rparr>)"
proof -
  let ?s = "s\<lparr>sy_enq := sy_enq s @ [p]\<rparr>" and ?n = "length (sy_enq s)"
  have "chan_inv ?s e c" for e c
  proof -
    have C: "chan_inv s e c" using inv by (simp add: sys_inv_def)
    have "prods s e c ?n = None" by (simp add: prods_def)
    moreover have "prods ?s e c = (if eq_engine p = e \<and> eq_channel p = c then (prods s e c)(?n := Some p) else prods s e c)"
      by (auto simp: prods_def fun_eq_iff nth_append)
    ultimately show ?thesis using C chan_add p by (simp add: chan_inv_def)
  qed
  then show ?thesis using inv by (simp add: sys_inv_def)
qed

lemma unpark_sel [simp]:
  "dv_ch (unpark e c d) e' c' = (if e' = e \<and> c' = c then (dv_ch d e c)\<lparr>parked := False\<rparr> else dv_ch d e' c')"
  "num_engines (unpark e c d) = num_engines d" "num_channels (unpark e c d) = num_channels d"
  by (simp_all add: unpark_def)

lemma fold_stats_sel:
  "dv_ch (fold (\<lambda>e. upd_stats e (f e)) es d) = dv_ch d" "num_engines (fold (\<lambda>e. upd_stats e (f e)) es d) = num_engines d"
  "num_channels (fold (\<lambda>e. upd_stats e (f e)) es d) = num_channels d"
  by (induction es arbitrary: d) simp_all

lemma fold_bell_sel:
  "dv_ch (fold signal_bell es d) = dv_ch d" "num_engines (fold signal_bell es d) = num_engines d"
  "num_channels (fold signal_bell es d) = num_channels d"
  by (induction es arbitrary: d) (simp_all add: signal_bell_def)

lemma same_rings_ops:
  "same_rings d (d\<lparr>dv_mem := m\<rparr>)" "same_rings d (d\<lparr>dv_now := now, dv_cpu := cpu\<rparr>)" "same_rings d (arm_irq e c target d)"
  "same_rings d (snd (set_channel_priority e c prio d))" "same_rings d (reset_stats d)" "same_rings d (power_off d)"
  "same_rings d (unpark e c d)" "same_rings d (upd_ch e c (fault_fail_update f) d)" "pop_fault d = (flt, d') \<Longrightarrow> same_rings d d'"
  by (auto simp: same_rings_def arm_irq_def set_channel_priority_def reset_stats_def power_off_def pop_fault_def Let_def
      fold_stats_sel fold_bell_sel split: list.splits)

lemma sys_step_inv: "sys_step fadd fmul s s' \<Longrightarrow> sys_inv s \<Longrightarrow> sys_inv s'"
proof (induction rule: sys_step.induct)
  case (engine e s t d)
  then show ?case by (simp add: engine_inv)
next
  case (submit e s c cmd cmds)
  then show ?case by (simp add: submit_inv)
next
  case (claim i s p p' r d)
  then show ?case by (intro enq_inv [OF claim.prems claim.hyps(1,2,5)]) (auto simp: note_claim_def claim_log_def Let_def)
next
  case (produce i s p p' r d)
  then show ?case by (intro enq_inv [OF produce.prems produce.hyps(1,2,4)]) (auto simp: claim_log_def)
qed (erule other_inv; simp add: same_rings_ops)+

definition booted :: "sys \<Rightarrow> bool" where
  "booted s \<longleftrightarrow> (\<exists>vram_sz va_sz copy_engines channels depth mode host.
     s = sys_new vram_sz va_sz copy_engines channels depth mode host \<and> pow2 depth)"

lemma sys_new_inv:
  assumes "booted s"
  shows "sys_inv s"
proof -
  obtain vram_sz va_sz copy_engines channels depth mode host where
    s: "s = sys_new vram_sz va_sz copy_engines channels depth mode host" "pow2 depth" using assms by (auto simp: booted_def)
  have ch: "dv_ch (sy_dev s) = (\<lambda>_ _. fresh_channel\<lparr>ring_mask := depth - 1\<rparr>)" "rd_depth (sy_drv s) = depth" "sy_enq s = []"
    "rd_put (sy_drv s) = (\<lambda>_ _. 0)" "rd_reserve (sy_drv s) = (\<lambda>_ _. 0)" "sy_thr s = (\<lambda>e. thread_new e (sy_dev s))"
    by (simp_all add: s(1) sys_new_def Let_def)
  have "chan_inv s e c" for e c by (simp add: chan_inv_def chan_ok_def base_ok_def prods_def ch fresh_channel_def)
  moreover have "thr_inv e (sy_thr s e) (sy_dev s)" for e by (simp add: thr_inv_def ch thread_new_def fresh_channel_def)
  ultimately show ?thesis using s(2) ch(2) by (simp add: sys_inv_def)
qed

interpretation sg: invariant_machine booted "sys_step fadd fmul" sys_inv for fadd fmul
  by unfold_locales (auto intro: sys_new_inv sys_step_inv)

end
