(* ===== verification/Fence_Order.thy ===== *)
theory Fence_Order
  imports Submit
begin

text \<open>
  Cross-channel order. \<^verbatim>\<open>do_submit\<close> (\<^verbatim>\<open>src/src/driver/driver.cpp\<close>) admits a \<^verbatim>\<open>WAIT_FENCE\<close> only on a fence that is
  already published, so in the history of the machine every wait was claimed after all commands it waits for: the
  waits form no cycle.
\<close>

definition claimed :: "sys \<Rightarrow> u32 \<Rightarrow> u32 \<Rightarrow> u64 \<Rightarrow> bool" where
  "claimed s e c k \<longleftrightarrow> k < rd_put (sy_drv s) e c \<or> (\<exists>i p. prods s e c i = Some p \<and> claiming p \<and> eq_slot p = k)"

definition wait_after :: "sys \<Rightarrow> sg_cmd \<Rightarrow> nat \<Rightarrow> bool" where
  "wait_after s cmd tm \<longleftrightarrow> (opcode cmd = SG_OP_WAIT_FENCE \<longrightarrow>
     (\<forall>j < src1 cmd. sy_time s (arg0 cmd) (arg1 cmd) j < tm))"

text \<open>History: a slot was claimed before now, and a \<^verbatim>\<open>WAIT_FENCE\<close> after every command it waits for.\<close>

definition dag_inv :: "sys \<Rightarrow> bool" where
  "dag_inv s \<longleftrightarrow>
     (\<forall>e c k. claimed s e c k \<longrightarrow> sy_time s e c k < sy_clock s \<and> wait_ok (sy_drv s) (sy_dev s) (sy_log s e c k) \<and>
        wait_after s (sy_log s e c k) (sy_time s e c k)) \<and>
     (\<forall>p \<in> set (sy_enq s). eq_pc p = EReserve \<longrightarrow> wait_ok (sy_drv s) (sy_dev s) (eq_cmd p))"

lemma wait_ok_mono:
  assumes "wait_ok r d cmd" "num_engines d' = num_engines d" "num_channels d' = num_channels d" "\<And>e c. rd_put r e c \<le> rd_put r' e c"
  shows "wait_ok r' d' cmd"
  using assms unfolding wait_ok_def by (metis order_trans)

lemma dag_quiet:
  assumes "dag_inv s" "claimed s' = claimed s" "sy_time s' = sy_time s" "sy_log s' = sy_log s" "sy_clock s' = sy_clock s"
    "num_engines (sy_dev s') = num_engines (sy_dev s)" "num_channels (sy_dev s') = num_channels (sy_dev s)"
    "\<And>e c. rd_put (sy_drv s) e c \<le> rd_put (sy_drv s') e c"
    "\<And>p. p \<in> set (sy_enq s') \<Longrightarrow> eq_pc p = EReserve \<Longrightarrow> p \<in> set (sy_enq s) \<or> wait_ok (sy_drv s') (sy_dev s') (eq_cmd p)"
  shows "dag_inv s'"
proof -
  have W: "wait_ok (sy_drv s) (sy_dev s) cmd \<Longrightarrow> wait_ok (sy_drv s') (sy_dev s') cmd" for cmd using wait_ok_mono assms(6-8) by blast
  have A: "wait_after s' cmd tm = wait_after s cmd tm" for cmd tm by (simp add: wait_after_def assms(3))
  show ?thesis using assms(1) W assms(9) unfolding dag_inv_def A assms(2-5) by blast
qed

lemma engine_num: "engine_step fadd fmul e (t, d) = (t', d') \<Longrightarrow> num_engines d' = num_engines d \<and> num_channels d' = num_channels d"
  using engine_step_guar [of e d fadd fmul t] by (simp add: engine_guar_def)

lemma claimed_cong: "sy_enq s' = sy_enq s \<Longrightarrow> rd_put (sy_drv s') = rd_put (sy_drv s) \<Longrightarrow> claimed s' = claimed s"
  by (simp add: claimed_def prods_def fun_eq_iff)

lemma claimed_upd:
  "claimed (s\<lparr>sy_dev := d\<rparr>) = claimed s" "claimed (s\<lparr>sy_svc := v\<rparr>) = claimed s" "claimed (s\<lparr>sy_thr := f\<rparr>) = claimed s"
  by (rule claimed_cong; simp)+

lemma same_rings_num: "same_rings d d' \<Longrightarrow> num_engines d' = num_engines d \<and> num_channels d' = num_channels d"
  by (simp add: same_rings_def)

lemma less_next: "(x :: u64) < 2 ^ 63 \<Longrightarrow> k < x + 1 \<longleftrightarrow> k < x \<or> k = x"
  using inc_63 [of x] word_eq_unat [of k x] unfolding word_less_unat by linarith

lemma dag_env:
  assumes "dag_inv s" "same_rings (sy_dev s) (sy_dev s')" "sy_drv s' = sy_drv s" "sy_enq s' = sy_enq s" "sy_log s' = sy_log s"
    "sy_time s' = sy_time s" "sy_clock s' = sy_clock s"
  shows "dag_inv s'"
  using assms same_rings_num [OF assms(2)] claimed_cong [of s' s] by (intro dag_quiet [OF assms(1)]) simp_all

lemma claimed_add:
  assumes "\<not> claiming p"
  shows "claimed (s\<lparr>sy_enq := sy_enq s @ [p]\<rparr>) e c k = claimed s e c k"
proof -
  have "prods (s\<lparr>sy_enq := sy_enq s @ [p]\<rparr>) e c i = Some q \<and> claiming q \<longleftrightarrow> prods s e c i = Some q \<and> claiming q" for i q
    using assms by (auto simp: prods_def nth_append less_Suc_eq split: if_splits)
  then show ?thesis unfolding claimed_def by simp metis
qed

lemma produce_claimed:
  assumes inv: "sys_inv s" and i: "i < length (sy_enq s)" "p = sy_enq s ! i" "eq_pc p \<noteq> EReserve"
    and st: "enq_step p (sy_drv s) (sy_dev s) = Some (p', r, d)"
  shows "claimed (s\<lparr>sy_enq := (sy_enq s)[i := p'], sy_drv := r, sy_dev := d\<rparr>) e c k = claimed s e c k"
    "rd_put (sy_drv s) e c \<le> rd_put r e c"
proof -
  let ?s = "s\<lparr>sy_enq := (sy_enq s)[i := p'], sy_drv := r, sy_dev := d\<rparr>" and ?e = "eq_engine p" and ?c = "eq_channel p"
  note F = enq_frame [OF st]
  have ps: "prods ?s e c = (if e = ?e \<and> c = ?c then (prods s e c)(i := Some p') else prods s e c)" for e c
    using prods_upd [OF i(1), of p' ?s] F(1,2) i(2) by simp
  have pi: "prods s ?e ?c i = Some p" using i by (simp add: prods_def)
  have ok: "chan_inv s ?e ?c" using inv by (simp add: sys_inv_def)
  note P = chan_okD(2) [OF ok [unfolded chan_inv_def] pi]
  have mir: "rd_put r ?e ?c = (if eq_pc p = EMirror then rd_put (sy_drv s) ?e ?c + 1 else rd_put (sy_drv s) ?e ?c)"
    "eq_pc p = EMirror \<Longrightarrow> eq_slot p = rd_put (sy_drv s) ?e ?c \<and> eq_slot p < 2 ^ 63 \<and> claiming p"
    using st P by (cases "eq_pc p"; auto simp: eq_defs Let_def prod_ok_def claiming_def split: if_splits)+
  have cl: "claiming p' \<longleftrightarrow> claiming p \<and> eq_pc p \<noteq> EMirror" "eq_slot p' = eq_slot p"
    using st i(3) by (cases "eq_pc p"; auto simp: eq_defs Let_def claiming_def at_def split: if_splits list.splits)+
  show "claimed ?s e c k = claimed s e c k"
  proof (cases "e = ?e \<and> c = ?c")
    case True
    have ex: "(\<exists>j q. ((prods s ?e ?c)(i := Some p')) j = Some q \<and> claiming q \<and> eq_slot q = k) \<longleftrightarrow>
      claiming p' \<and> eq_slot p' = k \<or> (\<exists>j q. j \<noteq> i \<and> prods s ?e ?c j = Some q \<and> claiming q \<and> eq_slot q = k)"
      by (auto split: if_splits)
    have ex0: "(\<exists>j q. prods s ?e ?c j = Some q \<and> claiming q \<and> eq_slot q = k) \<longleftrightarrow>
      claiming p \<and> eq_slot p = k \<or> (\<exists>j q. j \<noteq> i \<and> prods s ?e ?c j = Some q \<and> claiming q \<and> eq_slot q = k)"
      using pi by (metis option.inject)
    have "k < rd_put r ?e ?c \<longleftrightarrow> k < rd_put (sy_drv s) ?e ?c \<or> eq_pc p = EMirror \<and> eq_slot p = k"
      using mir less_next by auto
    then show ?thesis using True cl mir(2) unfolding claimed_def by (auto simp: ps ex ex0)
  next
    case False
    then show ?thesis using F(5) [of e c] ps by (auto simp: claimed_def)
  qed
  show "rd_put (sy_drv s) e c \<le> rd_put r e c"
    using mir F(5) [of e c] less_next [of "eq_slot p" "eq_slot p"] by (cases "e = ?e \<and> c = ?c") (auto simp: less_imp_le)
qed

lemma produce_dag:
  assumes inv: "sys_inv s" "dag_inv s" and i: "i < length (sy_enq s)" "p = sy_enq s ! i" "eq_pc p \<noteq> EReserve"
    and st: "enq_step p (sy_drv s) (sy_dev s) = Some (p', r, d)"
  shows "dag_inv (s\<lparr>sy_enq := (sy_enq s)[i := p'], sy_drv := r, sy_dev := d\<rparr>)"
proof -
  note F = enq_frame [OF st] and C = produce_claimed [OF inv(1) i st]
  have "q \<in> set (sy_enq s) \<or> wait_ok r d (eq_cmd q)" if "q \<in> set ((sy_enq s)[i := p'])" "eq_pc q = EReserve" for q
  proof -
    have "q = p' \<or> q \<in> set (sy_enq s)" using that(1) set_update_subset_insert [of "sy_enq s" i p'] by auto
    moreover have "wait_ok r d (eq_cmd p')" if "eq_pc p' = EReserve"
      using st that by (cases "eq_pc p") (auto simp: eq_defs Let_def split: if_splits list.splits)
    ultimately show ?thesis using that(2) by blast
  qed
  then show ?thesis using F(7,8) C by (intro dag_quiet [OF inv(2)]) (auto simp: fun_eq_iff)
qed

lemma claim_fresh:
  assumes ok: "chan_inv s (eq_engine p) (eq_channel p)" and i: "i < length (sy_enq s)" "p = sy_enq s ! i" "eq_pc p = EReserve"
  shows "\<not> claimed s (eq_engine p) (eq_channel p) (next_slot p (sy_drv s))"
proof
  let ?e = "eq_engine p" and ?c = "eq_channel p" and ?r = "sy_drv s"
  assume c: "claimed s ?e ?c (next_slot p ?r)"
  have pi: "prods s ?e ?c i = Some p" using i by (simp add: prods_def)
  note O = ok [unfolded chan_inv_def]
  have B: "rd_mode ?r = SG_SUBMIT_TICKET \<Longrightarrow> rd_put ?r ?e ?c \<le> rd_reserve ?r ?e ?c" using chan_okD(1) [OF O] by (simp add: base_ok_def)
  then have "\<not> next_slot p ?r < rd_put ?r ?e ?c" by (auto simp: next_slot_def)
  with c obtain j q where q: "prods s ?e ?c j = Some q" "claiming q" "eq_slot q = next_slot p ?r" by (auto simp: claimed_def)
  have lp: "locking p" "\<not> claiming p" using i(3) by (simp_all add: locking_def claiming_def)
  have "j \<noteq> i" using q(1,2) pi lp by auto
  then have "pair_ok (rd_mode ?r) p q" using chan_okD(3) [OF O _ pi q(1)] by blast
  then have "rd_mode ?r = SG_SUBMIT_TICKET" using lp pc_facts(1) [OF q(2)] by (cases "rd_mode ?r") (auto simp: pair_ok_def)
  moreover have "rd_mode ?r = SG_SUBMIT_TICKET \<longrightarrow> eq_slot q < rd_reserve ?r ?e ?c" using chan_okD(2) [OF O q(1)] q(2) by (simp add: prod_ok_def)
  ultimately show False using q(3) by (simp add: next_slot_def)
qed

lemma claim_claimed:
  assumes i: "i < length (sy_enq s)" "p = sy_enq s ! i" "eq_pc p = EReserve"
    and st: "enq_step p (sy_drv s) (sy_dev s) = Some (p', r, d)"
  defines "s' \<equiv> (note_claim p s)\<lparr>sy_enq := (sy_enq s)[i := p'], sy_drv := r, sy_dev := d\<rparr>" and "slot \<equiv> next_slot p (sy_drv s)"
  shows "claimed s' e c k \<longleftrightarrow> claimed s e c k \<or> e = eq_engine p \<and> c = eq_channel p \<and> k = slot"
    "rd_put r = rd_put (sy_drv s)" "d = sy_dev s" "eq_pc p' = ESpace"
    "sy_time s' e c k = (if e = eq_engine p \<and> c = eq_channel p \<and> k = slot then sy_clock s else sy_time s e c k)"
    "sy_log s' e c k = (if e = eq_engine p \<and> c = eq_channel p \<and> k = slot then eq_cmd p else sy_log s e c k)" "sy_clock s' = sy_clock s + 1"
proof -
  let ?e = "eq_engine p" and ?c = "eq_channel p"
  note F = enq_frame [OF st]
  have ps: "prods s' e c = (if e = ?e \<and> c = ?c then (prods s e c)(i := Some p') else prods s e c)" for e c
    using prods_upd [OF i(1), of p' s'] F(1,2) i(2) by (simp add: s'_def)
  have pi: "prods s ?e ?c i = Some p" using i by (simp add: prods_def)
  have np: "\<not> claiming p" using i(3) by (simp add: claiming_def)
  have p': "claiming p'" "eq_slot p' = slot" "rd_put r = rd_put (sy_drv s)" "d = sy_dev s" "eq_pc p' = ESpace"
    using st i(3) by (auto simp: eq_defs Let_def next_slot_def at_def claiming_def slot_def split: if_splits)
  then show "rd_put r = rd_put (sy_drv s)" "d = sy_dev s" "eq_pc p' = ESpace" by simp_all
  have "(\<exists>j q. ((prods s ?e ?c)(i := Some p')) j = Some q \<and> claiming q \<and> eq_slot q = k) \<longleftrightarrow>
    k = slot \<or> (\<exists>j q. prods s ?e ?c j = Some q \<and> claiming q \<and> eq_slot q = k)"
    using pi np p'(1,2) by (intro iffI) (auto split: if_splits, metis option.inject)
  then show "claimed s' e c k \<longleftrightarrow> claimed s e c k \<or> e = ?e \<and> c = ?c \<and> k = slot" using p'(3) by (auto simp: claimed_def ps) (auto simp: s'_def)
  show "sy_time s' e c k = (if e = ?e \<and> c = ?c \<and> k = slot then sy_clock s else sy_time s e c k)"
    "sy_log s' e c k = (if e = ?e \<and> c = ?c \<and> k = slot then eq_cmd p else sy_log s e c k)" "sy_clock s' = sy_clock s + 1"
    by (auto simp: note_claim_def Let_def s'_def slot_def)
qed

lemma claim_dag:
  assumes inv: "sys_inv s" "dag_inv s" and i: "i < length (sy_enq s)" "p = sy_enq s ! i" "eq_pc p = EReserve"
    and st: "enq_step p (sy_drv s) (sy_dev s) = Some (p', r, d)"
  shows "dag_inv ((note_claim p s)\<lparr>sy_enq := (sy_enq s)[i := p'], sy_drv := r, sy_dev := d\<rparr>)"
proof -
  let ?e = "eq_engine p" and ?c = "eq_channel p" and ?slot = "next_slot p (sy_drv s)"
  define s' where "s' = (note_claim p s)\<lparr>sy_enq := (sy_enq s)[i := p'], sy_drv := r, sy_dev := d\<rparr>"
  have ok: "chan_inv s ?e ?c" using inv(1) by (simp add: sys_inv_def)
  note C = claim_claimed [OF i st, folded s'_def] and fresh = claim_fresh [OF ok i]
  have old: "sy_time s' e c k = sy_time s e c k" "sy_log s' e c k = sy_log s e c k" if "claimed s e c k" for e c k
    using that fresh C by auto
  have W: "wait_ok r d cmd \<longleftrightarrow> wait_ok (sy_drv s) (sy_dev s) cmd" for cmd by (simp add: wait_ok_def C(2,3))
  have cl: "claimed s (arg0 cmd) (arg1 cmd) j"
    if "wait_ok (sy_drv s) (sy_dev s) cmd" "opcode cmd = SG_OP_WAIT_FENCE" "j < src1 cmd" for cmd j
    using that by (auto simp: wait_ok_def claimed_def intro: less_le_trans)
  have A: "wait_after s' cmd tm \<longleftrightarrow> wait_after s cmd tm" if "wait_ok (sy_drv s) (sy_dev s) cmd" for cmd tm
    unfolding wait_after_def using old(1) cl [OF that] by metis
  have new: "wait_ok (sy_drv s) (sy_dev s) (eq_cmd p)" using inv(2) i by (auto simp: dag_inv_def)
  have "wait_after s (eq_cmd p) (sy_clock s)" using cl [OF new] inv(2) by (simp add: wait_after_def dag_inv_def)
  then have 1: "sy_time s' e c k < sy_clock s' \<and> wait_ok r d (sy_log s' e c k) \<and> wait_after s' (sy_log s' e c k) (sy_time s' e c k)"
    if "claimed s' e c k" for e c k
  proof (cases "claimed s e c k")
    case True
    then have "sy_time s e c k < sy_clock s" "wait_ok (sy_drv s) (sy_dev s) (sy_log s e c k)" "wait_after s (sy_log s e c k) (sy_time s e c k)"
      using inv(2) by (simp_all add: dag_inv_def)
    then show ?thesis using old [OF True] A W C(7) by simp
  next
    case False
    then have "e = ?e \<and> c = ?c \<and> k = ?slot" using that C(1) by blast
    then show ?thesis using C(5-7) new W A [OF new] \<open>wait_after s (eq_cmd p) (sy_clock s)\<close> by simp
  qed
  have "wait_ok r d (eq_cmd q)" if "q \<in> set ((sy_enq s)[i := p'])" "eq_pc q = EReserve" for q
    using that set_update_subset_insert [of "sy_enq s" i p'] C(4) inv(2) W by (auto simp: dag_inv_def)
  then have "dag_inv s'" unfolding dag_inv_def using 1 by (simp add: s'_def)
  then show ?thesis by (simp only: s'_def)
qed

lemma step_dag:
  assumes "sys_step fadd fmul s s'" "sys_inv s" "dag_inv s"
  shows "dag_inv s'"
  using assms
proof (induction rule: sys_step.induct)
  case (engine e s t d)
  then show ?case using engine_num by (intro dag_quiet [OF engine.prems(2)]) (auto intro: claimed_cong)
next
  case (submit e s c cmd cmds)
  let ?p = "\<lparr>eq_pc = ELock, eq_engine = e, eq_channel = c, eq_cmd = cmd, eq_more = cmds, eq_slot = 0, eq_result = None\<rparr>"
  have "claimed (s\<lparr>sy_enq := sy_enq s @ [?p]\<rparr>) = claimed s"
    using claimed_add [of ?p s] by (simp add: fun_eq_iff claiming_def)
  then show ?case by (intro dag_quiet [OF submit.prems(2)]) auto
next
  case (claim i s p p' r d)
  then show ?case by (intro claim_dag)
next
  case (produce i s p p' r d)
  then show ?case by (intro produce_dag)
qed (erule dag_env; simp add: same_rings_ops)+

text \<open>History is never rewritten.\<close>

lemma step_claimed:
  assumes "sys_step fadd fmul s s'" "sys_inv s" "claimed s e c k"
  shows "claimed s' e c k \<and> sy_log s' e c k = sy_log s e c k"
  using assms
proof (induction rule: sys_step.induct)
  case (submit e s c cmd cmds)
  then show ?case using claimed_add by (simp add: claiming_def)
next
  case (claim i s p p' r d)
  then have "chan_inv s (eq_engine p) (eq_channel p)" by (simp add: sys_inv_def)
  from claim_fresh [OF this claim.hyps(1-3)] claim_claimed [OF claim.hyps(1-3,5)] claim.prems(2) show ?case by auto
next
  case (produce i s p p' r d)
  then show ?case using produce_claimed by simp
qed (simp_all add: claimed_upd)

lemma steps_claimed:
  assumes "(sys_step fadd fmul)\<^sup>*\<^sup>* s s'" "sys_inv s" "claimed s e c k"
  shows "claimed s' e c k \<and> sy_log s' e c k = sy_log s e c k"
  using assms
proof (induction rule: rtranclp_induct)
  case (step s' s'')
  have "sys_inv s'" using sg.run_inv step by blast
  then show ?case using step_claimed [OF step.hyps(2)] step by metis
qed simp

end
