(* ===== verification/Parking.thy ===== *)
theory Parking
  imports Submit
begin

text \<open>
  Replayable faults between the engines (\<^verbatim>\<open>src/src/device/device.cpp\<close>: the park in \<^verbatim>\<open>run\<close>, \<^verbatim>\<open>push_fault\<close>, \<^verbatim>\<open>pop_fault\<close>,
  \<^verbatim>\<open>unpark\<close>) and the fault thread (\<^verbatim>\<open>service_faults\<close>): a channel is parked exactly while one fault of it is on its way,
  and an engine never picks a parked channel.
\<close>

primrec pc_chan :: "u32 option \<Rightarrow> pc \<Rightarrow> u32 option" where
  "pc_chan ch Top = None"
| "pc_chan ch (Scan i) = ch"
| "pc_chan ch (ScanHead i c p) = ch"
| "pc_chan ch Pick = ch"
| "pc_chan ch (Visit c) = Some c"
| "pc_chan ch (RunCmd c) = Some c"
| "pc_chan ch (Park c va) = Some c"
| "pc_chan ch (Push c va) = None"
| "pc_chan ch (Retire c rc) = Some c"
| "pc_chan ch (Wake c) = Some c"
| "pc_chan ch (IrqLoad c k) = pc_chan ch k"
| "pc_chan ch (IrqClear c k) = pc_chan ch k"
| "pc_chan ch (IrqSignal c k) = pc_chan ch k"
| "pc_chan ch (Boundary c) = Some c"
| "pc_chan ch EndVisit = None"
| "pc_chan ch Account = None"
| "pc_chan ch Arm = None"
| "pc_chan ch SetAsleep = None"
| "pc_chan ch SetBlocked = None"
| "pc_chan ch CountBlocked = None"
| "pc_chan ch (Recheck c) = None"
| "pc_chan ch GoSleep = None"
| "pc_chan ch Asleep = None"
| "pc_chan ch (Missed c) = None"
| "pc_chan ch MissedCheck = None"
| "pc_chan ch AfterSleep = None"
| "pc_chan ch (Disarm w) = None"
| "pc_chan ch (Unblock w) = None"
| "pc_chan ch Stop = None"

definition resumes :: "pc \<Rightarrow> bool" where
  "resumes k \<longleftrightarrow> (case k of Scan i \<Rightarrow> True | Boundary c \<Rightarrow> True | _ \<Rightarrow> False)"

definition pc_wf :: "pc \<Rightarrow> bool" where
  "pc_wf k \<longleftrightarrow> (case k of IrqLoad c k \<Rightarrow> resumes k | IrqClear c k \<Rightarrow> resumes k | IrqSignal c k \<Rightarrow> resumes k | _ \<Rightarrow> True)"

text \<open>The channel a thread has picked or is visiting is not parked: only this thread parks it.\<close>

definition np_inv :: "u32 \<Rightarrow> engine_thr \<Rightarrow> device \<Rightarrow> bool" where
  "np_inv e t d \<longleftrightarrow> (\<forall>c. pc_chan (th_chosen t) (th_pc t) = Some c \<longrightarrow> \<not> parked (dv_ch d e c)) \<and>
     (\<forall>c va. th_pc t = Push c va \<longrightarrow> parked (dv_ch d e c)) \<and> pc_wf (th_pc t)"

definition pushing :: "engine_thr \<Rightarrow> u32 \<Rightarrow> nat" where
  "pushing t c = (case th_pc t of Push c' va \<Rightarrow> if c' = c then 1 else 0 | _ \<Rightarrow> 0)"

definition queued :: "u32 \<Rightarrow> u32 \<Rightarrow> fault list \<Rightarrow> nat" where
  "queued e c fs = length (filter (\<lambda>f. f_engine f = e \<and> f_channel f = c) fs)"

definition serving :: "svc \<Rightarrow> u32 \<Rightarrow> u32 \<Rightarrow> nat" where
  "serving v e c = (case v of SIdle \<Rightarrow> 0 | SMigrate f \<Rightarrow> queued e c [f] | SFail f er \<Rightarrow> queued e c [f] | SUnpark f \<Rightarrow> queued e c [f])"

definition park_inv :: "sys \<Rightarrow> bool" where
  "park_inv s \<longleftrightarrow> (\<forall>e. np_inv e (sy_thr s e) (sy_dev s)) \<and>
     (\<forall>e c. pushing (sy_thr s e) c + queued e c (dv_faults (sy_dev s)) + serving (sy_svc s) e c =
        (if parked (dv_ch (sy_dev s) e c) then 1 else 0))"

definition parks :: "u32 \<Rightarrow> engine_thr \<Rightarrow> device \<Rightarrow> engine_thr \<Rightarrow> device \<Rightarrow> bool" where
  "parks e t d t' d' \<longleftrightarrow> (\<forall>c. pushing t' c + queued e c (dv_faults d') + (if parked (dv_ch d e c) then 1 else 0) =
       pushing t c + queued e c (dv_faults d) + (if parked (dv_ch d' e c) then 1 else 0)) \<and>
     (\<forall>e' c. e' \<noteq> e \<longrightarrow> queued e' c (dv_faults d') = queued e' c (dv_faults d))"

lemma quiet_park:
  assumes "\<And>c. parked (dv_ch d' e c) = parked (dv_ch d e c)" "dv_faults d' = dv_faults d" "pc_wf (th_pc t')"
    "\<And>c. pushing t c = 0" "\<And>c va. th_pc t' \<noteq> Push c va"
    "\<And>c. pc_chan (th_chosen t') (th_pc t') = Some c \<Longrightarrow> \<not> parked (dv_ch d e c)"
  shows "np_inv e t' d' \<and> parks e t d t' d'"
proof -
  have "pushing t' c = 0" for c using assms(5) by (auto simp: pushing_def split: pc.split)
  then show ?thesis using assms by (auto simp: np_inv_def parks_def)
qed

lemma resumes_cases: "resumes k \<Longrightarrow> (\<exists>i. k = Scan i) \<or> (\<exists>c. k = Boundary c)"
  by (cases k) (auto simp: resumes_def)

lemmas park_simps = np_inv_def pushing_def pc_wf_def resumes_def step_defs Let_def go_def

lemma park_step:
  assumes "np_inv e t d" "engine_step fadd fmul e (t, d) = (t', d')"
  shows "np_inv e t' d' \<and> parks e t d t' d'"
proof (cases "th_pc t")
  case (Scan i)
  with assms show ?thesis by (intro quiet_park) (auto simp: park_simps note_error_def split: option.splits if_splits)
next
  case (ScanHead i c p)
  with assms show ?thesis by (intro quiet_park) (auto simp: park_simps note_error_def split: if_splits)
next
  case (RunCmd c)
  with assms show ?thesis by (intro quiet_park) (auto simp: park_simps split: prod.splits xrc.splits)
next
  case (Retire c rc)
  with assms show ?thesis by (intro quiet_park) (auto simp: park_simps note_error_def split: option.splits if_splits)
next
  case (Park c va)
  with assms show ?thesis by (auto simp: park_simps parks_def split: if_splits)
next
  case (Push c va)
  with assms show ?thesis by (auto simp: park_simps parks_def push_fault_def queued_def)
next
  case (IrqLoad c k)
  with assms have "resumes k" by (simp add: np_inv_def pc_wf_def)
  from resumes_cases [OF this] show ?thesis using assms IrqLoad
    by (elim disjE exE) (intro quiet_park; auto simp: park_simps split: if_splits)+
next
  case (IrqClear c k)
  with assms have "resumes k" by (simp add: np_inv_def pc_wf_def)
  from resumes_cases [OF this] show ?thesis using assms IrqClear
    by (elim disjE exE) (intro quiet_park; auto simp: park_simps split: if_splits)+
next
  case (IrqSignal c k)
  with assms have "resumes k" by (simp add: np_inv_def pc_wf_def)
  from resumes_cases [OF this] show ?thesis using assms IrqSignal
    by (elim disjE exE) (intro quiet_park; auto simp: park_simps raise_host_irq_def split: if_splits)+
next
  case Pick
  with assms show ?thesis by (intro quiet_park) (auto simp: park_simps split: option.splits)
next
  case Account
  with assms show ?thesis by (intro quiet_park) (auto simp: park_simps publish_cpu_def split: if_splits)
next
  case GoSleep
  with assms show ?thesis by (intro quiet_park) (auto simp: park_simps publish_cpu_def)
qed (use assms in \<open>intro quiet_park; auto simp: park_simps split: if_splits\<close>)+

lemma engine_park:
  assumes inv: "park_inv s" and st: "engine_step fadd fmul e (sy_thr s e, sy_dev s) = (t, d)"
  shows "park_inv (s\<lparr>sy_thr := (sy_thr s)(e := t), sy_dev := d\<rparr>)"
proof -
  have np: "np_inv e' (sy_thr s e') (sy_dev s)" for e' using inv by (simp add: park_inv_def)
  note P = park_step [OF np st]
  have G: "dv_ch d e' c = dv_ch (sy_dev s) e' c" if "e' \<noteq> e" for e' c
    using engine_step_guar [of e "sy_dev s" fadd fmul "sy_thr s e"] st that by (simp add: engine_guar_def)
  have sum: "pushing (sy_thr s e') c + queued e' c (dv_faults (sy_dev s)) + serving (sy_svc s) e' c =
      (if parked (dv_ch (sy_dev s) e' c) then 1 else 0)" for e' c using inv by (simp add: park_inv_def)
  have "np_inv e' (((sy_thr s)(e := t)) e') d" for e' using P np [of e'] G [of e'] by (cases "e' = e") (auto simp: np_inv_def)
  moreover have "pushing (((sy_thr s)(e := t)) e') c + queued e' c (dv_faults d) + serving (sy_svc s) e' c =
      (if parked (dv_ch d e' c) then 1 else 0)" for e' c
  proof (cases "e' = e")
    case True
    from P have "pushing t c + queued e c (dv_faults d) + (if parked (dv_ch (sy_dev s) e c) then 1 else 0) =
      pushing (sy_thr s e) c + queued e c (dv_faults (sy_dev s)) + (if parked (dv_ch d e c) then 1 else 0)" by (simp add: parks_def)
    with sum [of e c] True show ?thesis by (simp split: if_splits)
  next
    case False
    then show ?thesis using P sum [of e' c] G by (simp add: parks_def)
  qed
  ultimately show ?thesis by (simp add: park_inv_def)
qed

definition same_parks :: "device \<Rightarrow> device \<Rightarrow> bool" where
  "same_parks d d' \<longleftrightarrow> dv_faults d' = dv_faults d \<and> (\<forall>e c. parked (dv_ch d' e c) = parked (dv_ch d e c))"

lemma other_park:
  assumes "park_inv s" "same_parks (sy_dev s) (sy_dev s')" "sy_thr s' = sy_thr s" "serving (sy_svc s') = serving (sy_svc s)"
  shows "park_inv s'"
  using assms by (simp add: park_inv_def np_inv_def same_parks_def)

lemma fold_faults_sel:
  "dv_faults (fold (\<lambda>e. upd_stats e (f e)) es d) = dv_faults d" "dv_faults (fold signal_bell es d) = dv_faults d"
  by (induction es arbitrary: d) (simp_all add: signal_bell_def)

lemma doorbell_faults [simp]:
  "dv_faults (begin_doorbell e d) = dv_faults d" "dv_faults (end_doorbell e d) = dv_faults d" "dv_faults (doorbell e d) = dv_faults d"
  by (simp_all add: begin_doorbell_def end_doorbell_def doorbell_def Let_def stamp_and_signal_def signal_bell_def split: option.split)

lemma enq_parks: "enq_step p r d = Some (p', r', d') \<Longrightarrow> same_parks d d'"
  by (cases "eq_pc p") (auto simp: same_parks_def eq_defs Let_def split: if_splits list.splits)

lemma same_parks_ops:
  "same_parks d (d\<lparr>dv_mem := m\<rparr>)" "same_parks d (d\<lparr>dv_now := now, dv_cpu := cpu\<rparr>)" "same_parks d (arm_irq e c target d)"
  "same_parks d (snd (set_channel_priority e c prio d))" "same_parks d (reset_stats d)" "same_parks d (power_off d)"
  "same_parks d (upd_ch e c (fault_fail_update f) d)"
  by (auto simp: same_parks_def arm_irq_def set_channel_priority_def reset_stats_def power_off_def Let_def
      fold_stats_sel fold_bell_sel fold_faults_sel)

lemma serving_svc [simp]: "serving (SFail f er) = serving (SMigrate f)" "serving (SUnpark f) = serving (SMigrate f)"
  by (simp_all add: serving_def fun_eq_iff)

lemma unpark_park:
  assumes inv: "park_inv s" and v: "sy_svc s = SUnpark f"
  shows "park_inv (s\<lparr>sy_svc := SIdle, sy_dev := unpark (f_engine f) (f_channel f) (sy_dev s)\<rparr>)"
proof -
  let ?e = "f_engine f" and ?c = "f_channel f"
  have sum: "pushing (sy_thr s e) c + queued e c (dv_faults (sy_dev s)) + queued e c [f] =
      (if parked (dv_ch (sy_dev s) e c) then 1 else 0)" for e c using inv v by (simp add: park_inv_def serving_def)
  have f1: "queued ?e ?c [f] = 1" by (simp add: queued_def)
  then have z: "pushing (sy_thr s ?e) ?c = 0" "queued ?e ?c (dv_faults (sy_dev s)) = 0" using sum [of ?e ?c] by (simp_all split: if_splits)
  have fl: "dv_faults (unpark ?e ?c (sy_dev s)) = dv_faults (sy_dev s)" by (simp add: unpark_def)
  have "queued e c [f] = (if e = ?e \<and> c = ?c then 1 else 0)" for e c by (auto simp: queued_def)
  then have "pushing (sy_thr s e) c + queued e c (dv_faults (sy_dev s)) = (if parked (dv_ch (unpark ?e ?c (sy_dev s)) e c) then 1 else 0)" for e c
    using sum [of e c] z by (auto split: if_splits)
  moreover have "np_inv e (sy_thr s e) (unpark ?e ?c (sy_dev s))" for e
    using inv z by (auto simp: park_inv_def np_inv_def pushing_def split: if_splits)
  ultimately show ?thesis by (simp add: park_inv_def fl serving_def)
qed

lemma step_park: "sys_step fadd fmul s s' \<Longrightarrow> park_inv s \<Longrightarrow> park_inv s'"
proof (induction rule: sys_step.induct)
  case (engine e s t d)
  then show ?case by (simp add: engine_park)
next
  case (submit e s c cmd cmds)
  then show ?case by (intro other_park [OF submit.prems]) (auto simp: same_parks_def)
next
  case (claim i s p p' r d)
  show ?case using enq_parks [OF claim.hyps(5)] by (intro other_park [OF claim.prems]) (simp_all add: note_claim_def Let_def)
next
  case (produce i s p p' r d)
  show ?case using enq_parks [OF produce.hyps(4)] by (intro other_park [OF produce.prems]) simp_all
next
  case (pop s f d)
  then have "dv_faults (sy_dev s) = f # dv_faults d" and ch: "dv_ch d = dv_ch (sy_dev s)"
    by (auto simp: pop_fault_def split: list.splits)
  then have q: "queued e c (dv_faults (sy_dev s)) = queued e c [f] + queued e c (dv_faults d)" for e c by (simp add: queued_def)
  have "serving (SMigrate f) e c = queued e c [f]" "serving SIdle e c = 0" for e c by (simp_all add: serving_def)
  with pop ch q show ?case by (simp add: park_inv_def np_inv_def add.commute add.left_commute)
next
  case (unpark s f)
  then show ?case by (rule unpark_park [rotated])
next
  case (migrated s f m rc)
  then show ?case by (intro other_park [OF migrated.prems]) (auto simp: same_parks_ops split: option.split)
qed (erule other_park; simp add: same_parks_ops)+

end
