(* ===== verification/Doorbells.thy ===== *)
theory Doorbells
  imports Parking
begin

text \<open>
  The sleep and wake protocol between a producer (PUT store, then \<^verbatim>\<open>doorbell\<close>) and an engine (arm, look at every channel
  again, sleep): no command is published to a sleeping engine without a signal that has come or is about to come.
\<close>

definition armed :: "pc \<Rightarrow> bool" where
  "armed k \<longleftrightarrow> (case k of SetBlocked \<Rightarrow> True | CountBlocked \<Rightarrow> True | Recheck c \<Rightarrow> True | GoSleep \<Rightarrow> True | Asleep \<Rightarrow> True
     | Missed c \<Rightarrow> True | MissedCheck \<Rightarrow> True | AfterSleep \<Rightarrow> True | Disarm w \<Rightarrow> True | _ \<Rightarrow> False)"

definition looked :: "pc \<Rightarrow> u32 \<Rightarrow> bool" where
  "looked k c \<longleftrightarrow> (case k of Recheck c' \<Rightarrow> c < c' | GoSleep \<Rightarrow> True | Asleep \<Rightarrow> True | _ \<Rightarrow> False)"

text \<open>A producer that has published a command on the channel and has still to ring.\<close>

definition about_to_ring :: "u32 \<Rightarrow> u32 \<Rightarrow> enq list \<Rightarrow> bool" where
  "about_to_ring e c ps \<longleftrightarrow> (\<exists>p \<in> set ps. eq_engine p = e \<and> eq_channel p = c \<and> (eq_pc p = EMirror \<or> eq_pc p = ERing))"

definition bell_ok :: "u32 \<Rightarrow> engine_thr \<Rightarrow> device \<Rightarrow> enq list \<Rightarrow> bool" where
  "bell_ok e t d ps \<longleftrightarrow> th_seen t \<le> dv_bell d e \<and> (armed (th_pc t) \<longrightarrow> dv_asleep d e) \<and>
     (\<forall>c < num_channels d. looked (th_pc t) c \<longrightarrow> \<not> parked (dv_ch d e c) \<longrightarrow> dv_bell d e = th_seen t \<longrightarrow>
        ch_put (dv_ch d e c) = th_seen_put t c \<or> about_to_ring e c ps)"

definition bell_inv :: "sys \<Rightarrow> bool" where
  "bell_inv s \<longleftrightarrow> (\<forall>e. bell_ok e (sy_thr s e) (sy_dev s) (sy_enq s))"

lemma looked_armed: "looked k c \<Longrightarrow> armed k"
  by (cases k) (simp_all add: looked_def armed_def)

text \<open>The other threads: the sequence word grows, and whatever they do to a channel of a sleeping engine is announced.\<close>

definition bell_rely :: "u32 \<Rightarrow> device \<Rightarrow> enq list \<Rightarrow> device \<Rightarrow> enq list \<Rightarrow> bool" where
  "bell_rely e d ps d' ps' \<longleftrightarrow> dv_bell d e \<le> dv_bell d' e \<and> dv_asleep d' e = dv_asleep d e \<and> num_channels d' = num_channels d \<and>
     (dv_asleep d e \<longrightarrow> dv_bell d' e = dv_bell d e \<longrightarrow>
       (\<forall>c. (parked (dv_ch d e c) \<longrightarrow> parked (dv_ch d' e c)) \<and>
          (ch_put (dv_ch d' e c) = ch_put (dv_ch d e c) \<or> about_to_ring e c ps') \<and> (about_to_ring e c ps \<longrightarrow> about_to_ring e c ps')))"

lemma bell_ok_stable:
  assumes "bell_ok e t d ps" "bell_rely e d ps d' ps'"
  shows "bell_ok e t d' ps'"
proof -
  have R: "dv_bell d e \<le> dv_bell d' e" "dv_asleep d' e = dv_asleep d e" "num_channels d' = num_channels d" using assms(2) by (simp_all add: bell_rely_def)
  have B: "th_seen t \<le> dv_bell d e" "armed (th_pc t) \<longrightarrow> dv_asleep d e" using assms(1) by (simp_all add: bell_ok_def)
  have "ch_put (dv_ch d' e c) = th_seen_put t c \<or> about_to_ring e c ps'"
    if c: "c < num_channels d'" "looked (th_pc t) c" "\<not> parked (dv_ch d' e c)" "dv_bell d' e = th_seen t" for c
  proof -
    have eq: "dv_bell d' e = dv_bell d e" "dv_bell d e = th_seen t" using R(1) B(1) c(4) by simp_all
    have "dv_asleep d e" using B(2) looked_armed [OF c(2)] by blast
    with eq(1) assms(2) have "\<not> parked (dv_ch d e c)" "ch_put (dv_ch d' e c) = ch_put (dv_ch d e c) \<or> about_to_ring e c ps'"
      "about_to_ring e c ps \<longrightarrow> about_to_ring e c ps'" using c(3) by (auto simp: bell_rely_def)
    moreover from this have "ch_put (dv_ch d e c) = th_seen_put t c \<or> about_to_ring e c ps" using assms(1) c eq R(3) by (simp add: bell_ok_def)
    ultimately show ?thesis by auto
  qed
  then show ?thesis using R B by (auto simp: bell_ok_def)
qed

lemma wake_fold_bells:
  "(fold (\<lambda>e d. if e \<noteq> self \<and> dv_asleep_blocked d e then stamp_and_signal e d else d) es d) = d' \<Longrightarrow>
   dv_bell d e \<le> dv_bell d' e \<and> (e = self \<longrightarrow> dv_bell d' e = dv_bell d e)"
proof (induction es arbitrary: d)
  case (Cons a es)
  let ?d = "if a \<noteq> self \<and> dv_asleep_blocked d a then stamp_and_signal a d else d"
  have "dv_bell ?d e \<le> dv_bell d' e" "e = self \<longrightarrow> dv_bell d' e = dv_bell ?d e" using Cons by simp_all
  moreover have "dv_bell d e \<le> dv_bell ?d e" "e = self \<longrightarrow> dv_bell ?d e = dv_bell d e"
    by (simp_all add: stamp_and_signal_def signal_bell_def)
  ultimately show ?case by auto
qed simp

lemma wake_bells: "dv_bell d e \<le> dv_bell (wake_blocked_sleepers self d) e" "dv_bell (wake_blocked_sleepers e d) e = dv_bell d e"
  using wake_fold_bells [OF refl] by (auto simp: wake_blocked_sleepers_def)

lemma engine_bells:
  assumes "engine_step fadd fmul e (t, d) = (t', d')"
  shows "dv_bell d e' \<le> dv_bell d' e'" "dv_bell d' e = dv_bell d e"
  using assms wake_bells
  by (cases "th_pc t"; auto simp: step_defs Let_def note_error_def push_fault_def raise_host_irq_def publish_cpu_def
      split: option.splits prod.splits xrc.splits if_splits)+

lemma bell_plain:
  assumes "bell_ok e t d ps" "th_seen t' = th_seen t \<or> th_seen t' = dv_bell d e" "dv_bell d' e = dv_bell d e"
    "armed (th_pc t') \<Longrightarrow> dv_asleep d' e" "\<And>c. c < num_channels d' \<Longrightarrow> \<not> looked (th_pc t') c"
  shows "bell_ok e t' d' ps"
  using assms by (auto simp: bell_ok_def)

lemma less_next_32: "c < n \<Longrightarrow> (k :: u32) < c + 1 \<longleftrightarrow> k < c \<or> k = c"
  using unat_less_32 [of n] word_eq_unat [of k c] unfolding word_less_unat by (simp add: unat_word_ariths) linarith

lemma bell_recheck:
  assumes ok: "bell_ok e t d ps" and pc: "th_pc t = Recheck c" and st: "recheck e c t d = (t', d')"
  shows "bell_ok e t' d' ps"
proof -
  have d: "d' = d" "th_seen t' = th_seen t" "th_seen_put t' = th_seen_put t"
    using st by (auto simp: recheck_def Let_def go_def split: if_splits)
  have B: "th_seen t \<le> dv_bell d e" "dv_asleep d e" using ok pc by (auto simp: bell_ok_def armed_def)
  have old: "ch_put (dv_ch d e k) = th_seen_put t k \<or> about_to_ring e k ps"
    if "k < c" "k < num_channels d" "\<not> parked (dv_ch d e k)" "dv_bell d e = th_seen t" for k
    using ok pc that by (simp add: bell_ok_def looked_def)
  consider "num_channels d \<le> c" "th_pc t' = GoSleep" | "c < num_channels d" "th_pc t' = Disarm True"
    | "c < num_channels d" "th_pc t' = Recheck (c + 1)" "parked (dv_ch d e c) \<or> ch_put (dv_ch d e c) = th_seen_put t c"
    using st by (auto simp: recheck_def Let_def go_def not_le split: if_splits)
  then show ?thesis
  proof cases
    case 1
    then show ?thesis using B old d by (auto simp: bell_ok_def looked_def intro: less_le_trans)
  next
    case 2
    then show ?thesis using B d by (simp add: bell_ok_def looked_def)
  next
    case 3
    then show ?thesis using B old d less_next_32 [OF 3(1)] by (auto simp: bell_ok_def looked_def)
  qed
qed

lemma arm_pc:
  assumes wf: "pc_wf (th_pc t)" and st: "engine_step fadd fmul e (t, d) = (t', d')" and ok: "bell_ok e t d ps"
    and no: "\<not> (\<exists>c. th_pc t = Recheck c \<or> th_pc t = GoSleep)"
  shows "(th_seen t' = th_seen t \<or> th_seen t' = dv_bell d e) \<and> (armed (th_pc t') \<longrightarrow> dv_asleep d' e) \<and> (\<forall>c. \<not> looked (th_pc t') c)"
proof (cases "th_pc t")
  case (IrqLoad c k)
  then have "resumes k" using wf by (simp add: pc_wf_def)
  from resumes_cases [OF this] show ?thesis using IrqLoad st by (auto simp: irq_load_def Let_def go_def armed_def looked_def split: if_splits)
next
  case (IrqClear c k)
  then have "resumes k" using wf by (simp add: pc_wf_def)
  then show ?thesis using IrqClear st by (auto simp: irq_clear_def go_def armed_def looked_def)
next
  case (IrqSignal c k)
  then have "resumes k" using wf by (simp add: pc_wf_def)
  from resumes_cases [OF this] show ?thesis using IrqSignal st by (auto simp: irq_signal_def go_def armed_def looked_def)
qed (use st no ok in \<open>auto simp: step_defs Let_def go_def armed_def looked_def bell_ok_def split: option.splits prod.splits xrc.splits if_splits\<close>)

lemma own_bell:
  assumes ok: "bell_ok e t d ps" and st: "engine_step fadd fmul e (t, d) = (t', d')" and wf: "pc_wf (th_pc t)"
  shows "bell_ok e t' d' ps"
proof (cases "\<exists>c. th_pc t = Recheck c \<or> th_pc t = GoSleep")
  case True
  then show ?thesis
  proof (elim exE disjE)
    fix c assume "th_pc t = Recheck c"
    then show ?thesis using bell_recheck [OF ok] st by simp
  next
    assume "th_pc t = GoSleep"
    then show ?thesis using ok st by (auto simp: bell_ok_def go_sleep_def publish_cpu_def armed_def looked_def)
  qed
next
  case False
  from arm_pc [OF wf st ok False] engine_bells(2) [OF st] show ?thesis
    by (intro bell_plain [OF ok]) auto
qed

lemma doorbell_bells:
  "dv_bell d e' \<le> dv_bell (doorbell e d) e'" "dv_asleep d e \<Longrightarrow> dv_bell (doorbell e d) e = dv_bell d e + 1"
  "e' \<noteq> e \<Longrightarrow> dv_bell (doorbell e d) e' = dv_bell d e'" "dv_asleep (doorbell e d) = dv_asleep d"
  "dv_bell (begin_doorbell e d) = dv_bell d" "dv_bell (end_doorbell e d) = dv_bell d"
  "dv_asleep (begin_doorbell e d) = dv_asleep d" "dv_asleep (end_doorbell e d) = dv_asleep d"
  by (simp_all add: doorbell_def begin_doorbell_def end_doorbell_def Let_def stamp_and_signal_def signal_bell_def split: option.split)

lemma enq_bell:
  assumes i: "i < length ps" "p = ps ! i" and st: "enq_step p r d = Some (p', r', d')"
  shows "bell_rely e d ps d' (ps[i := p'])"
proof -
  have keep: "about_to_ring e c ps \<longrightarrow> about_to_ring e c (ps[i := p']) \<or> eq_engine p = e \<and> eq_pc p = ERing" for c
  proof (intro impI)
    assume "about_to_ring e c ps"
    then obtain j where j: "j < length ps" "eq_engine (ps ! j) = e" "eq_channel (ps ! j) = c" "eq_pc (ps ! j) = EMirror \<or> eq_pc (ps ! j) = ERing"
      unfolding about_to_ring_def by (metis in_set_conv_nth)
    show "about_to_ring e c (ps[i := p']) \<or> eq_engine p = e \<and> eq_pc p = ERing"
    proof (cases "j = i \<and> eq_pc p \<noteq> ERing")
      case True
      then have p': "p' = at ERing p" using st j(4) i(2) by (auto simp: eq_defs)
      have "p' \<in> set (ps[i := p'])" by (rule set_update_memI [OF i(1)])
      then show ?thesis unfolding about_to_ring_def using True j i p' by (intro disjI1 bexI [of _ p']) simp_all
    next
      case False
      show ?thesis
      proof (cases "j = i")
        case True
        with False j(2) i(2) show ?thesis by simp
      next
        case False
        then have "ps ! j \<in> set (ps[i := p'])" using j(1) by (metis length_list_update nth_list_update_neq nth_mem)
        with j show ?thesis by (auto simp: about_to_ring_def)
      qed
    qed
  qed
  have put: "ch_put (dv_ch d' e c) = ch_put (dv_ch d e c) \<or> about_to_ring e c (ps[i := p'])" for c
  proof (cases "eq_pc p = EStore \<and> e = eq_engine p \<and> c = eq_channel p")
    case True
    then have p': "p' = at EMirror p" using st by (simp add: eq_defs)
    have "p' \<in> set (ps[i := p'])" by (rule set_update_memI [OF i(1)])
    then show ?thesis unfolding about_to_ring_def using True p' by (intro disjI2 bexI [of _ p']) simp_all
  next
    case False
    then show ?thesis using st by (cases "eq_pc p") (auto simp: eq_defs Let_def split: if_splits)
  qed
  have pk: "parked (dv_ch d' e c) = parked (dv_ch d e c)" for c
    using st by (cases "eq_pc p") (auto simp: eq_defs Let_def split: if_splits)
  have b: "dv_asleep d' = dv_asleep d" "num_channels d' = num_channels d" "dv_bell d e \<le> dv_bell d' e"
    "dv_asleep d e \<Longrightarrow> eq_pc p = ERing \<Longrightarrow> eq_engine p = e \<Longrightarrow> dv_bell d' e \<noteq> dv_bell d e"
    using st doorbell_bells by (cases "eq_pc p"; auto simp: eq_defs Let_def split: if_splits)+
  have "about_to_ring e c (ps[i := p'])" if "dv_asleep d e" "dv_bell d' e = dv_bell d e" "about_to_ring e c ps" for c
    using that keep [of c] b(4) by blast
  then show ?thesis unfolding bell_rely_def using b(1-3) put pk by auto
qed

lemma quiet_bell:
  assumes "dv_bell d e \<le> dv_bell d' e" "dv_asleep d' = dv_asleep d" "num_channels d' = num_channels d"
    "\<And>c. ch_put (dv_ch d' e c) = ch_put (dv_ch d e c)" "\<And>c. parked (dv_ch d e c) \<Longrightarrow> parked (dv_ch d' e c)" "set ps \<subseteq> set ps'"
  shows "bell_rely e d ps d' ps'"
  using assms by (auto simp: bell_rely_def about_to_ring_def)

lemma bell_frame:
  assumes "bell_inv s" "sy_thr s' = sy_thr s" "\<And>e. bell_rely e (sy_dev s) (sy_enq s) (sy_dev s') (sy_enq s')"
  shows "bell_inv s'"
  using assms bell_ok_stable unfolding bell_inv_def by metis

lemma other_bell:
  assumes "bell_inv s" "same_rings (sy_dev s) (sy_dev s')" "same_parks (sy_dev s) (sy_dev s')" "sy_thr s' = sy_thr s" "sy_enq s' = sy_enq s"
    "\<And>e. dv_bell (sy_dev s) e \<le> dv_bell (sy_dev s') e" "dv_asleep (sy_dev s') = dv_asleep (sy_dev s)"
  shows "bell_inv s'"
  using assms by (intro bell_frame [OF assms(1,4)] quiet_bell) (auto simp: same_rings_def same_parks_def)

lemma fold_bells:
  "dv_bell d e \<le> dv_bell (fold signal_bell es d) e" "dv_asleep (fold signal_bell es d) = dv_asleep d"
  "dv_bell (fold (\<lambda>e. upd_stats e (f e)) es d) = dv_bell d" "dv_asleep (fold (\<lambda>e. upd_stats e (f e)) es d) = dv_asleep d"
proof -
  show "dv_bell d e \<le> dv_bell (fold signal_bell es d) e"
  proof (induction es arbitrary: d)
    case (Cons a es)
    have "dv_bell d e \<le> dv_bell (signal_bell a d) e" by (simp add: signal_bell_def)
    also have "\<dots> \<le> dv_bell (fold signal_bell es (signal_bell a d)) e" by (rule Cons.IH)
    finally show ?case by simp
  qed simp
  show "dv_asleep (fold signal_bell es d) = dv_asleep d" by (induction es arbitrary: d) (simp_all add: signal_bell_def)
  show "dv_bell (fold (\<lambda>e. upd_stats e (f e)) es d) = dv_bell d" "dv_asleep (fold (\<lambda>e. upd_stats e (f e)) es d) = dv_asleep d"
    by (induction es arbitrary: d) simp_all
qed

lemma bells_ops:
  "dv_bell d e \<le> dv_bell (power_off d) e" "dv_asleep (power_off d) = dv_asleep d" "dv_bell (reset_stats d) = dv_bell d"
  "dv_asleep (reset_stats d) = dv_asleep d" "dv_bell (arm_irq e c g d) = dv_bell d" "dv_asleep (arm_irq e c g d) = dv_asleep d"
  "dv_bell (snd (set_channel_priority e c prio d)) = dv_bell d" "dv_asleep (snd (set_channel_priority e c prio d)) = dv_asleep d"
  using fold_bells(1) [of "d\<lparr>dv_running := False\<rparr>" e]
  by (simp_all add: power_off_def reset_stats_def arm_irq_def set_channel_priority_def Let_def fold_bells)

lemma engine_bell:
  assumes inv: "bell_inv s" "park_inv s" and st: "engine_step fadd fmul e (sy_thr s e, sy_dev s) = (t, d)"
  shows "bell_inv (s\<lparr>sy_thr := (sy_thr s)(e := t), sy_dev := d\<rparr>)"
proof -
  have ok: "bell_ok e' (sy_thr s e') (sy_dev s) (sy_enq s)" for e' using inv(1) by (simp add: bell_inv_def)
  have wf: "pc_wf (th_pc (sy_thr s e))" using inv(2) by (simp add: park_inv_def np_inv_def)
  have G: "engine_guar e (sy_dev s) d" using engine_step_guar [of e "sy_dev s" fadd fmul "sy_thr s e"] st by simp
  have "bell_rely e' (sy_dev s) (sy_enq s) d (sy_enq s)" if "e' \<noteq> e" for e'
    using G engine_bells(1) [OF st] that by (auto simp: bell_rely_def engine_guar_def)
  then have "bell_ok e' (sy_thr s e') d (sy_enq s)" if "e' \<noteq> e" for e' using ok bell_ok_stable that by blast
  then show ?thesis using own_bell [OF ok st wf] by (simp add: bell_inv_def)
qed

lemma unpark_rely: "bell_rely e d ps (unpark e' c d) ps"
proof -
  have b: "dv_bell d e \<le> dv_bell (unpark e' c d) e" "dv_asleep (unpark e' c d) = dv_asleep d"
    "dv_asleep d e \<Longrightarrow> e = e' \<Longrightarrow> dv_bell (unpark e' c d) e \<noteq> dv_bell d e"
    using doorbell_bells(1,2,4) [where d = "upd_ch e' c (parked_update (\<lambda>_. False)) d"] by (simp_all add: unpark_def)
  have "e = e' \<or> dv_ch (unpark e' c d) e k = dv_ch d e k" for k by simp
  moreover have "ch_put (dv_ch (unpark e' c d) e k) = ch_put (dv_ch d e k)" for k by simp
  ultimately show ?thesis using b unfolding bell_rely_def by (metis unpark_sel(3))
qed

lemma step_bell:
  assumes "sys_step fadd fmul s s'" "park_inv s" "bell_inv s"
  shows "bell_inv s'"
  using assms
proof (induction rule: sys_step.induct)
  case (engine e s t d)
  then show ?case by (simp add: engine_bell)
next
  case (submit e s c cmd cmds)
  then show ?case by (intro bell_frame [OF submit.prems(2)] quiet_bell) auto
next
  case (claim i s p p' r d)
  then show ?case using enq_bell [OF claim.hyps(1,2,5)] by (intro bell_frame [OF claim.prems(2)]) (simp_all add: note_claim_def Let_def)
next
  case (produce i s p p' r d)
  then show ?case using enq_bell [OF produce.hyps(1,2,4)] by (intro bell_frame [OF produce.prems(2)]) simp_all
next
  case (unpark s f)
  then show ?case using unpark_rely by (intro bell_frame [OF unpark.prems(2)]) simp_all
next
  case (pop s f d)
  then show ?case by (intro bell_frame [OF pop.prems(2)] quiet_bell) (auto simp: pop_fault_def split: list.splits)
next
  case (fail s f er)
  then show ?case by (intro other_bell [OF fail.prems(2)]) (simp_all add: same_rings_ops same_parks_ops)
qed (erule other_bell; simp add: same_rings_ops same_parks_ops bells_ops)+

end
