(* ===== verification/Machine.thy ===== *)
theory Machine
  imports Fence_Order Doorbells
begin

text \<open>
  The properties of the whole machine of producers, engines and fault thread: the rings, the fences, the faults and the
  doorbells, each for every state reachable from a booted device. The witnesses run concrete schedules with an
  executable scheduler over the same steps.
\<close>

section \<open>The invariant of the machine\<close>

definition machine_inv :: "sys \<Rightarrow> bool" where
  "machine_inv s \<longleftrightarrow> sys_inv s \<and> dag_inv s \<and> park_inv s \<and> bell_inv s"

lemma machine_new:
  assumes "booted s"
  shows "machine_inv s"
proof -
  obtain vram_sz va_sz copy_engines channels depth mode host where
    s: "s = sys_new vram_sz va_sz copy_engines channels depth mode host" using assms by (auto simp: booted_def)
  have n: "sy_enq s = []" "rd_put (sy_drv s) = (\<lambda>_ _. 0)" "dv_faults (sy_dev s) = []" "sy_svc s = SIdle" "\<And>e. th_pc (sy_thr s e) = Top"
    "\<And>e. th_seen (sy_thr s e) = 0" "\<And>e c. \<not> parked (dv_ch (sy_dev s) e c)"
    by (simp_all add: s sys_new_def Let_def thread_new_def device_new_def fresh_channel_def)
  have "dag_inv s" by (simp add: dag_inv_def claimed_def prods_def n)
  moreover have "park_inv s" by (simp add: park_inv_def np_inv_def pc_wf_def pushing_def queued_def serving_def n)
  moreover have "bell_inv s" by (simp add: bell_inv_def bell_ok_def armed_def looked_def n)
  ultimately show ?thesis using sys_new_inv [OF assms] by (simp add: machine_inv_def)
qed

lemma machine_step: "machine_inv s \<Longrightarrow> sys_step fadd fmul s s' \<Longrightarrow> machine_inv s'"
  using sys_step_inv step_dag step_park step_bell unfolding machine_inv_def by blast

interpretation machine: invariant_machine booted "sys_step fadd fmul" machine_inv for fadd fmul
  by unfold_locales (auto intro: machine_new machine_step)
lemma reach:
  assumes "booted s0" "(sys_step fadd fmul)\<^sup>*\<^sup>* s0 s"
  shows "sys_inv s" "dag_inv s" "park_inv s" "bell_inv s" "chan_inv s e c" "thr_inv e (sy_thr s e) (sy_dev s)"
    "np_inv e (sy_thr s e) (sy_dev s)"
  using machine.reachable_inv [OF assms] by (simp_all add: machine_inv_def sys_inv_def park_inv_def)

lemma reach_base:
  assumes "booted s0" "(sys_step fadd fmul)\<^sup>*\<^sup>* s0 s"
  shows "base_ok (rd_mode (sy_drv s)) (rd_depth (sy_drv s)) (dv_ch (sy_dev s) e c) (rd_put (sy_drv s) e c) (rd_reserve (sy_drv s) e c) (sy_log s e c)"
  using reach(5) [OF assms, of e c] chan_okD(1) by (simp add: chan_inv_def)

lemma producer_claimed:
  assumes "chan_inv s (eq_engine p) (eq_channel p)" "p \<in> set (sy_enq s)" "claiming p"
  shows "claimed s (eq_engine p) (eq_channel p) (eq_slot p)" "sy_log s (eq_engine p) (eq_channel p) (eq_slot p) = eq_cmd p"
proof -
  from assms(2) obtain i where "i < length (sy_enq s)" "sy_enq s ! i = p" by (auto simp: in_set_conv_nth)
  then have i: "prods s (eq_engine p) (eq_channel p) i = Some p" by (simp add: prods_def)
  then show "claimed s (eq_engine p) (eq_channel p) (eq_slot p)" using assms(3) by (auto simp: claimed_def)
  show "sy_log s (eq_engine p) (eq_channel p) (eq_slot p) = eq_cmd p"
    using chan_okD(2) [OF assms(1) [unfolded chan_inv_def] i] assms(3) by (simp add: prod_ok_def)
qed

section \<open>Running a schedule\<close>

text \<open>An executable scheduler: it takes the steps a schedule names.\<close>

datatype act = AEngine u32 | ASubmit u32 u32 sg_cmd "sg_cmd list" | AProduce nat | ATime u64

definition no_float :: "u32 \<Rightarrow> u32 \<Rightarrow> u32" where
  "no_float a b = 0"

fun run_act :: "act \<Rightarrow> sys \<Rightarrow> sys option" where
  "run_act (AEngine e) s =
     (if e < num_engines (sy_dev s)
      then (case engine_step no_float no_float e (sy_thr s e, sy_dev s) of (t, d) \<Rightarrow> Some (s\<lparr>sy_thr := (sy_thr s)(e := t), sy_dev := d\<rparr>))
      else None)"
| "run_act (ASubmit e c cmd cmds) s =
     (if e < num_engines (sy_dev s) \<and> c < num_channels (sy_dev s)
      then Some (s\<lparr>sy_enq := sy_enq s @ [\<lparr>eq_pc = ELock, eq_engine = e, eq_channel = c, eq_cmd = cmd, eq_more = cmds,
        eq_slot = 0, eq_result = None\<rparr>]\<rparr>)
      else None)"
| "run_act (AProduce i) s =
     (if i < length (sy_enq s) then
        let p = sy_enq s ! i in
        case enq_step p (sy_drv s) (sy_dev s) of
          None \<Rightarrow> None
        | Some (p', r, d) \<Rightarrow>
            if eq_pc p \<noteq> EReserve then Some (s\<lparr>sy_enq := (sy_enq s)[i := p'], sy_drv := r, sy_dev := d\<rparr>)
            else if next_slot p (sy_drv s) < 2 ^ 63
                 then Some ((note_claim p s)\<lparr>sy_enq := (sy_enq s)[i := p'], sy_drv := r, sy_dev := d\<rparr>)
                 else None
      else None)"
| "run_act (ATime now) s = Some (s\<lparr>sy_dev := (sy_dev s)\<lparr>dv_now := now, dv_cpu := dv_cpu (sy_dev s)\<rparr>\<rparr>)"

fun run_acts :: "act list \<Rightarrow> sys \<Rightarrow> sys option" where
  "run_acts [] s = Some s"
| "run_acts (a # as) s = (case run_act a s of None \<Rightarrow> None | Some s' \<Rightarrow> run_acts as s')"

lemma run_act_step: "run_act a s = Some s' \<Longrightarrow> sys_step no_float no_float s s'"
proof (cases a)
  case (AProduce i)
  assume "run_act a s = Some s'"
  with AProduce obtain p' r d where i: "i < length (sy_enq s)" "enq_step (sy_enq s ! i) (sy_drv s) (sy_dev s) = Some (p', r, d)"
    by (auto simp: Let_def simp del: enq_step.simps split: if_splits option.splits)
  then show ?thesis using \<open>run_act a s = Some s'\<close> AProduce sys_step.claim [OF i(1) refl _ _ i(2)] sys_step.produce [OF i(1) refl _ i(2)]
    by (auto simp: Let_def simp del: enq_step.simps split: if_splits)
next
  case (AEngine e)
  assume "run_act a s = Some s'"
  then show ?thesis using AEngine sys_step.engine [of e s]
    by (auto simp del: engine_step.simps split: if_splits prod.splits)
next
  case (ASubmit e c cmd cmds)
  assume "run_act a s = Some s'"
  then show ?thesis using ASubmit sys_step.submit [of e s c] by (auto split: if_splits)
next
  case (ATime now)
  assume "run_act a s = Some s'"
  then have "s' = s\<lparr>sy_dev := (sy_dev s)\<lparr>dv_now := now, dv_cpu := dv_cpu (sy_dev s)\<rparr>\<rparr>" using ATime by simp
  then show ?thesis by (simp only: sys_step.time)
qed

lemma run_acts_steps: "run_acts as s = Some s' \<Longrightarrow> (sys_step no_float no_float)\<^sup>*\<^sup>* s s'"
proof (induction as arbitrary: s)
  case (Cons a as)
  then obtain s1 where "run_act a s = Some s1" "run_acts as s1 = Some s'" by (auto split: option.splits)
  with Cons.IH run_act_step show ?case by (meson converse_rtranclp_into_rtranclp)
qed simp

definition demo_sys :: "sg_submit_mode \<Rightarrow> sys" where
  "demo_sys mode = sys_new 0x2000 0x3000 1 2 4 mode (\<lambda>_. 7)"

lemma demo_booted: "booted (demo_sys mode)"
proof -
  have "pow2 4" by (simp add: pow2_def exI [of _ "2 :: nat"])
  then show ?thesis unfolding booted_def demo_sys_def by blast
qed

definition after :: "sg_submit_mode \<Rightarrow> act list \<Rightarrow> sys" where
  "after mode as = the (run_acts as (demo_sys mode))"

lemma after_reach: "run_acts as (demo_sys mode) \<noteq> None \<Longrightarrow> (sys_step no_float no_float)\<^sup>*\<^sup>* (demo_sys mode) (after mode as)"
  using run_acts_steps by (auto simp: after_def)

lemma run_acts_append: "run_acts (as @ bs) s = (case run_acts as s of None \<Rightarrow> None | Some s' \<Rightarrow> run_acts bs s')"
  by (induction as arbitrary: s) (auto split: option.split)

lemma after_more:
  assumes "run_acts (as @ bs) (demo_sys mode) \<noteq> None"
  shows "(sys_step no_float no_float)\<^sup>*\<^sup>* (after mode as) (after mode (as @ bs))"
  using assms run_acts_steps by (auto simp: after_def run_acts_append split: option.splits)

definition fill_cmd :: sg_cmd where
  "fill_cmd = zero_cmd\<lparr>opcode := SG_OP_FILL, dst := 0x1000, arg0 := 7, arg1 := 64\<rparr>"

definition wait_cmd :: sg_cmd where
  "wait_cmd = zero_cmd\<lparr>opcode := SG_OP_WAIT_FENCE\<rparr>"

section \<open>The ring\<close>

text \<open>C2: The command ring under concurrent producers, in both submission modes. Whatever the producers, engines and
  the fault thread do, at most the depth of the ring is outstanding, and the command of a producer that has claimed
  slot \<open>k\<close> is, in every later state in which \<open>k\<close> is published and not retired, what the ring holds at \<open>k\<close>; when
  the engine gets to \<open>k\<close> it is the command the engine runs.\<close>

theorem ring_fifo:
  assumes "booted s0" "(sys_step fadd fmul)\<^sup>*\<^sup>* s0 s" "p \<in> set (sy_enq s)" "claiming p" "(sys_step fadd fmul)\<^sup>*\<^sup>* s s'"
    "e = eq_engine p" "c = eq_channel p" "ch = dv_ch (sy_dev s') e c"
  shows "ch_get ch \<le> ch_put ch \<and> unat (ch_put ch) \<le> unat (ch_get ch) + unat (rd_depth (sy_drv s')) \<and>
    (ch_get ch \<le> eq_slot p \<and> eq_slot p < ch_put ch \<longrightarrow> ch_ring ch (eq_slot p AND ucast (ring_mask ch)) = eq_cmd p) \<and>
    (th_pc (sy_thr s' e) = RunCmd c \<and> ch_get ch = eq_slot p \<longrightarrow> head_cmd e c (sy_thr s' e) (sy_dev s') = eq_cmd p)"
proof -
  have r': "(sys_step fadd fmul)\<^sup>*\<^sup>* s0 s'" using assms(2,5) by auto
  have "sy_log s' e c (eq_slot p) = eq_cmd p"
    using producer_claimed [OF reach(5) [OF assms(1,2)] assms(3,4)] steps_claimed [OF assms(5) reach(1) [OF assms(1,2)]] assms(6,7) by metis
  moreover note B = reach_base [OF assms(1) r', of e c, folded assms(8)]
  moreover have "th_get (sy_thr s' e) c = ch_get ch" "th_pc (sy_thr s' e) = RunCmd c \<Longrightarrow> ch_get ch < ch_put ch"
    using reach(6) [OF assms(1) r', of e] assms(8) by (auto simp: thr_inv_def)
  ultimately show ?thesis using assms(8) by (auto simp: base_ok_def head_cmd_def)
qed

definition fifo_pre :: "act list" where
  "fifo_pre = ASubmit 0 1 fill_cmd [] # replicate 3 (AProduce 0)"

definition fifo_post :: "act list" where
  "fifo_post = replicate 5 (AProduce 0) @ replicate 8 (AEngine 0)"

theorem ring_fifo_witness:
  "let s' = after SG_SUBMIT_TICKET (fifo_pre @ fifo_post) in
   th_pc (sy_thr s' 0) = RunCmd 1 \<and> head_cmd 0 1 (sy_thr s' 0) (sy_dev s') = fill_cmd"
proof -
  let ?s = "after SG_SUBMIT_TICKET fifo_pre" and ?s' = "after SG_SUBMIT_TICKET (fifo_pre @ fifo_post)"
  let ?p = "hd (sy_enq ?s)"
  have ok: "run_acts (fifo_pre @ fifo_post) (demo_sys SG_SUBMIT_TICKET) \<noteq> None" "run_acts fifo_pre (demo_sys SG_SUBMIT_TICKET) \<noteq> None" by code_simp+
  have p: "sy_enq ?s \<noteq> []" "claiming ?p" "0 = eq_engine ?p" "1 = eq_channel ?p" "eq_slot ?p = 0" "eq_cmd ?p = fill_cmd" by code_simp+
  have s': "th_pc (sy_thr ?s' 0) = RunCmd 1" "ch_get (dv_ch (sy_dev ?s') 0 1) = 0" by code_simp+
  from ring_fifo [OF demo_booted after_reach [OF ok(2)] hd_in_set [OF p(1)] p(2) after_more [OF ok(1)] p(3,4) refl] p(5,6) s'
  show ?thesis unfolding Let_def by simp
qed

section \<open>Fences\<close>

text \<open>C7: Cross-channel order. An engine that is about to retire a \<^verbatim>\<open>WAIT_FENCE\<close> without an error does so only once the
  channel it names has retired the fence.\<close>

theorem wait_fence_order:
  assumes "booted s0" "(sys_step fadd fmul)\<^sup>*\<^sup>* s0 s" "th_pc (sy_thr s e) = Retire c None"
    "cmd = head_cmd e c (sy_thr s e) (sy_dev s)" "opcode cmd = SG_OP_WAIT_FENCE"
  shows "arg0 cmd < num_engines (sy_dev s) \<and> arg1 cmd < num_channels (sy_dev s) \<and>
    src1 cmd \<le> ch_get (dv_ch (sy_dev s) (arg0 cmd) (arg1 cmd))"
  using reach(6) [OF assms(1,2), of e] assms(3-5) by (simp add: thr_inv_def wait_passed_def)

theorem wait_fence_order_witness:
  "let s = after SG_SUBMIT_MUTEX (ASubmit 0 1 wait_cmd [] # replicate 8 (AProduce 0) @ replicate 8 (AEngine 0)) in
   th_pc (sy_thr s 0) = Retire 1 None \<and> src1 wait_cmd \<le> ch_get (dv_ch (sy_dev s) 0 0)"
proof -
  let ?as = "ASubmit 0 1 wait_cmd [] # replicate 8 (AProduce 0) @ replicate 8 (AEngine 0)"
  let ?s = "after SG_SUBMIT_MUTEX ?as"
  have ok: "run_acts ?as (demo_sys SG_SUBMIT_MUTEX) \<noteq> None" by code_simp
  have s: "th_pc (sy_thr ?s 0) = Retire 1 None" "head_cmd 0 1 (sy_thr ?s 0) (sy_dev ?s) = wait_cmd" "opcode wait_cmd = SG_OP_WAIT_FENCE"
    "arg0 wait_cmd = 0" "arg1 wait_cmd = 0" by code_simp+
  from wait_fence_order [OF demo_booted after_reach [OF ok] s(1) s(2) [symmetric] s(3)] s show ?thesis by (simp add: Let_def)
qed

lemma mirror_cases:
  assumes C: "chan_ok mode depth ps ch mir rsv lock log"
  obtains "ch_put ch = mir" | i p where "ps i = Some p" "claiming p" "eq_slot p = mir" "ch_put ch = mir + 1" "mir < 2 ^ 63"
proof (cases "ch_put ch = mir")
  case False
  with chan_okD(4) [OF C] obtain i p where p: "ps i = Some p" "eq_pc p = EMirror" by blast
  with chan_okD(2) [OF C p(1)] pc_facts(4) [OF p(2)] show ?thesis by (intro that(2) [OF p(1)]) (auto simp: prod_ok_def)
qed (use that(1) in blast)

lemma pending_claimed:
  assumes "booted s0" "(sys_step fadd fmul)\<^sup>*\<^sup>* s0 s" "k < ch_put (dv_ch (sy_dev s) e c)"
  shows "claimed s e c k"
  using reach(5) [OF assms(1,2), of e c, unfolded chan_inv_def] assms(3)
  by (cases rule: mirror_cases) (auto simp: claimed_def less_next)

lemma blocked_step:
  assumes r: "booted s0" "(sys_step fadd fmul)\<^sup>*\<^sup>* s0 s" and p: "ch_get (dv_ch (sy_dev s) e c) < ch_put (dv_ch (sy_dev s) e c)"
    and b: "wait_blocked (sy_dev s) (head_cmd e c (sy_thr s e) (sy_dev s))"
  shows "\<exists>e' c'. e' < num_engines (sy_dev s) \<and> c' < num_channels (sy_dev s) \<and>
    ch_get (dv_ch (sy_dev s) e' c') < ch_put (dv_ch (sy_dev s) e' c') \<and>
    sy_time s e' c' (ch_get (dv_ch (sy_dev s) e' c')) < sy_time s e c (ch_get (dv_ch (sy_dev s) e c))"
proof -
  let ?ch = "dv_ch (sy_dev s) e c" and ?cmd = "head_cmd e c (sy_thr s e) (sy_dev s)"
  let ?e = "arg0 ?cmd" and ?c = "arg1 ?cmd"
  have "th_get (sy_thr s e) c = ch_get ?ch" using reach(6) [OF r, of e] by (simp add: thr_inv_def)
  then have h: "?cmd = sy_log s e c (ch_get ?ch)" using reach_base [OF r, of e c] p by (simp add: base_ok_def head_cmd_def)
  have "wait_ok (sy_drv s) (sy_dev s) ?cmd" "wait_after s ?cmd (sy_time s e c (ch_get ?ch))"
    using reach(2) [OF r] pending_claimed [OF r p] unfolding h by (simp_all add: dag_inv_def)
  with b have w: "?e < num_engines (sy_dev s)" "?c < num_channels (sy_dev s)" "src1 ?cmd \<le> rd_put (sy_drv s) ?e ?c"
    "ch_get (dv_ch (sy_dev s) ?e ?c) < src1 ?cmd" "\<forall>j < src1 ?cmd. sy_time s ?e ?c j < sy_time s e c (ch_get ?ch)"
    by (simp_all add: wait_blocked_def wait_ok_def wait_after_def)
  have "rd_put (sy_drv s) ?e ?c \<le> ch_put (dv_ch (sy_dev s) ?e ?c)"
    using reach(5) [OF r, of ?e ?c, unfolded chan_inv_def]
    by (cases rule: mirror_cases) (use less_next [of "rd_put (sy_drv s) ?e ?c" "rd_put (sy_drv s) ?e ?c"] in \<open>auto simp: less_imp_le\<close>)
  then have "ch_get (dv_ch (sy_dev s) ?e ?c) < ch_put (dv_ch (sy_dev s) ?e ?c)" using w(3,4) by simp
  then show ?thesis using w by blast
qed

text \<open>C5: Semaphore waits cannot deadlock. Whenever a command is pending, some pending channel has a head that is not
  blocked on a fence: the check at submission admits only waits on fences already published, and the fences and waits
  of any reachable state therefore form no cycle.\<close>

theorem fence_no_deadlock:
  assumes "booted s0" "(sys_step fadd fmul)\<^sup>*\<^sup>* s0 s" "e < num_engines (sy_dev s)" "c < num_channels (sy_dev s)"
    "ch_get (dv_ch (sy_dev s) e c) < ch_put (dv_ch (sy_dev s) e c)"
  shows "\<exists>e' c'. e' < num_engines (sy_dev s) \<and> c' < num_channels (sy_dev s) \<and>
    ch_get (dv_ch (sy_dev s) e' c') < ch_put (dv_ch (sy_dev s) e' c') \<and>
    \<not> wait_blocked (sy_dev s) (head_cmd e' c' (sy_thr s e') (sy_dev s))"
proof -
  let ?P = "\<lambda>(e, c). e < num_engines (sy_dev s) \<and> c < num_channels (sy_dev s) \<and> ch_get (dv_ch (sy_dev s) e c) < ch_put (dv_ch (sy_dev s) e c)"
  let ?m = "\<lambda>(e, c). sy_time s e c (ch_get (dv_ch (sy_dev s) e c))"
  have "?P (e, c)" using assms(3-5) by simp
  then obtain x where x: "?P x" "\<And>y. ?P y \<Longrightarrow> ?m x \<le> ?m y" using ex_has_least_nat [of ?P "(e, c)" ?m] by blast
  obtain a b where ab: "x = (a, b)" by (cases x)
  have "\<not> wait_blocked (sy_dev s) (head_cmd a b (sy_thr s a) (sy_dev s))"
  proof
    assume "wait_blocked (sy_dev s) (head_cmd a b (sy_thr s a) (sy_dev s))"
    with blocked_step [OF assms(1,2), of a b] x(1) obtain e' c' where "?P (e', c')" "?m (e', c') < ?m x" unfolding ab prod.case by blast
    with x(2) [of "(e', c')"] show False by simp
  qed
  with x(1) ab show ?thesis by auto
qed

theorem fence_no_deadlock_witness:
  "let s = after SG_SUBMIT_MUTEX (ASubmit 0 1 wait_cmd [] # replicate 8 (AProduce 0)) in
   \<exists>e' c'. ch_get (dv_ch (sy_dev s) e' c') < ch_put (dv_ch (sy_dev s) e' c') \<and> \<not> wait_blocked (sy_dev s) (head_cmd e' c' (sy_thr s e') (sy_dev s))"
proof -
  let ?as = "ASubmit 0 1 wait_cmd [] # replicate 8 (AProduce 0)"
  let ?s = "after SG_SUBMIT_MUTEX ?as"
  have ok: "run_acts ?as (demo_sys SG_SUBMIT_MUTEX) \<noteq> None" by code_simp
  have s: "0 < num_engines (sy_dev ?s)" "1 < num_channels (sy_dev ?s)" "ch_get (dv_ch (sy_dev ?s) 0 1) < ch_put (dv_ch (sy_dev ?s) 0 1)"
    by code_simp+
  from fence_no_deadlock [OF demo_booted after_reach [OF ok] s] show ?thesis unfolding Let_def by blast
qed

section \<open>Faults\<close>



section \<open>Doorbells\<close>

text \<open>C6: No lost doorbell. When an engine sleeps and nothing has signalled it since it armed, every channel that is not
  parked either holds no command the engine has not looked at, or its producer has stored PUT and has still to
  ring; and that ring wakes the engine, because the sequence word moves past the value the engine sleeps on.\<close>

theorem no_lost_doorbell:
  assumes "booted s0" "(sys_step fadd fmul)\<^sup>*\<^sup>* s0 s" "th_pc (sy_thr s e) = Asleep" "dv_bell (sy_dev s) e = th_seen (sy_thr s e)"
    "c < num_channels (sy_dev s)" "\<not> parked (dv_ch (sy_dev s) e c)" "ch_put (dv_ch (sy_dev s) e c) \<noteq> th_seen_put (sy_thr s e) c"
  shows "(\<exists>p \<in> set (sy_enq s). eq_engine p = e \<and> eq_channel p = c \<and> (eq_pc p = EMirror \<or> eq_pc p = ERing)) \<and>
    dv_bell (doorbell e (sy_dev s)) e \<noteq> th_seen (sy_thr s e)"
proof -
  have "bell_ok e (sy_thr s e) (sy_dev s) (sy_enq s)" using reach(4) [OF assms(1,2)] by (simp add: bell_inv_def)
  then have "dv_asleep (sy_dev s) e" "about_to_ring e c (sy_enq s)" using assms(3-7) by (auto simp: bell_ok_def armed_def looked_def)
  then show ?thesis using doorbell_bells(2) assms(4) by (auto simp: about_to_ring_def)
qed

definition sleepy :: "act list" where
  "sleepy = ATime 60000 # replicate 15 (AEngine 0) @ ASubmit 0 1 fill_cmd [] # replicate 8 (AProduce 0)"

theorem no_lost_doorbell_witness:
  "let s = after SG_SUBMIT_TICKET sleepy in th_pc (sy_thr s 0) = Asleep \<and> (\<exists>p \<in> set (sy_enq s). eq_pc p = EMirror \<or> eq_pc p = ERing) \<and>
   dv_bell (doorbell 0 (sy_dev s)) 0 \<noteq> th_seen (sy_thr s 0)"
proof -
  let ?s = "after SG_SUBMIT_TICKET sleepy"
  have ok: "run_acts sleepy (demo_sys SG_SUBMIT_TICKET) \<noteq> None" by code_simp
  have s: "th_pc (sy_thr ?s 0) = Asleep" "dv_bell (sy_dev ?s) 0 = th_seen (sy_thr ?s 0)" "1 < num_channels (sy_dev ?s)"
    "\<not> parked (dv_ch (sy_dev ?s) 0 1)" "ch_put (dv_ch (sy_dev ?s) 0 1) \<noteq> th_seen_put (sy_thr ?s 0) 1" by code_simp+
  from no_lost_doorbell [OF demo_booted after_reach [OF ok] s] s(1) show ?thesis unfolding Let_def by blast
qed

end
