(* ===== verification/Knobs.thy ===== *)
theory Knobs
  imports Submit
begin

text \<open>
  The tuning knobs of \<^verbatim>\<open>src/src/driver/driver.cpp\<close> (lines 85 to 134): configuration read from the environment when the
  driver is created. The environment is a function from names to values; \<^verbatim>\<open>strtoull\<close> in base 10 is modelled with its
  white space, sign, saturation and negation. The bounds proved here are what the rest of the driver relies on.
\<close>

section \<open>Parsing\<close>

definition c_isspace :: "char \<Rightarrow> bool" where
  "c_isspace c \<longleftrightarrow> c = CHR '' '' \<or> (9 \<le> (of_char c :: nat) \<and> (of_char c :: nat) \<le> 13)"

definition c_isdigit :: "char \<Rightarrow> bool" where
  "c_isdigit c \<longleftrightarrow> 48 \<le> (of_char c :: nat) \<and> (of_char c :: nat) \<le> 57"

definition decimal :: "string \<Rightarrow> nat" where
  "decimal ds = foldl (\<lambda>n c. 10 * n + (of_char c - 48)) 0 ds"

definition strtoull :: "string \<Rightarrow> u64" where
  "strtoull s =
     (let s1 = dropWhile c_isspace s;
          neg = (s1 \<noteq> [] \<and> hd s1 = CHR ''-'');
          s2 = (if s1 \<noteq> [] \<and> (hd s1 = CHR ''-'' \<or> hd s1 = CHR ''+'') then tl s1 else s1);
          n = decimal (takeWhile c_isdigit s2)
      in if n \<ge> 2 ^ 64 then NOT 0 else if neg then - of_nat n else of_nat n)"

section \<open>Knobs\<close>

type_synonym environ = "string \<Rightarrow> string option"

definition env_pow2 :: "environ \<Rightarrow> string \<Rightarrow> u64 \<Rightarrow> u64 \<Rightarrow> u64 \<Rightarrow> u64" where
  "env_pow2 ev name def lo hi =
     (case ev name of
        None \<Rightarrow> def
      | Some e \<Rightarrow> (let v = strtoull e in if v < lo \<or> v > hi \<or> v AND (v - 1) \<noteq> 0 then def else v))"

definition env_int :: "environ \<Rightarrow> string \<Rightarrow> u64 \<Rightarrow> u64 \<Rightarrow> u64 \<Rightarrow> u64" where
  "env_int ev name def lo hi =
     (case ev name of
        None \<Rightarrow> def
      | Some e \<Rightarrow> (let v = strtoull e in if v < lo \<or> v > hi then def else v))"

definition kDefaultRingDepth :: u32 where "kDefaultRingDepth = 1024"
definition kDefaultSpinNs :: u64 where "kDefaultSpinNs = 30000"
definition kDefaultIdleNs :: u64 where "kDefaultIdleNs = 50000"
definition kDefaultPrefetchPages :: u64 where "kDefaultPrefetchPages = 16"
definition SG_COPY_ENGINES :: u32 where "SG_COPY_ENGINES = 1"
definition SG_CHANNELS :: u32 where "SG_CHANNELS = 8"

definition ring_depth_from_env :: "environ \<Rightarrow> u32" where
  "ring_depth_from_env ev = ucast (env_pow2 ev ''SG_RING_DEPTH'' (ucast kDefaultRingDepth) 2 65536)"

definition staging_slots_from_env :: "environ \<Rightarrow> u32" where
  "staging_slots_from_env ev = ucast (env_pow2 ev ''SG_STAGING_SLOTS'' (ucast SG_STAGING_SLOTS) 1 64)"

definition staging_chunk_from_env :: "environ \<Rightarrow> u64" where
  "staging_chunk_from_env ev = env_pow2 ev ''SG_STAGING_CHUNK'' SG_STAGING_CHUNK 4096 (push_bit 20 64)"

definition copy_engines_from_env :: "environ \<Rightarrow> u32" where
  "copy_engines_from_env ev = ucast (env_int ev ''SG_COPY_ENGINES'' (ucast SG_COPY_ENGINES) 1 (ucast (SG_MAX_ENGINES - 1)))"

definition channels_from_env :: "environ \<Rightarrow> u32" where
  "channels_from_env ev = ucast (env_int ev ''SG_CHANNELS'' (ucast SG_CHANNELS) 1 (ucast SG_MAX_CHANNELS))"

definition spin_ns_from_env :: "environ \<Rightarrow> u64" where
  "spin_ns_from_env ev = env_int ev ''SG_SPIN_NS'' kDefaultSpinNs 0 1000000000"

definition policy_from_env :: "environ \<Rightarrow> sg_wait_policy" where
  "policy_from_env ev =
     (case ev ''SG_WAIT_POLICY'' of
        None \<Rightarrow> SG_POLICY_ADAPTIVE
      | Some e \<Rightarrow>
          if e = ''spin'' then SG_POLICY_SPIN
          else if e = ''block'' then SG_POLICY_BLOCK
          else if e = ''hybrid'' then SG_POLICY_HYBRID
          else SG_POLICY_ADAPTIVE)"

definition idle_ns_from_env :: "environ \<Rightarrow> u64" where
  "idle_ns_from_env ev = env_int ev ''SG_ENGINE_IDLE_NS'' kDefaultIdleNs 0 10000000000"

definition idle_policy_from_env :: "environ \<Rightarrow> sg_idle_policy" where
  "idle_policy_from_env ev =
     (case ev ''SG_ENGINE_IDLE'' of
        None \<Rightarrow> SG_IDLE_HYBRID
      | Some e \<Rightarrow>
          if e = ''spin'' then SG_IDLE_SPIN
          else if e = ''sleep'' then SG_IDLE_SLEEP
          else if e = ''hybrid'' then SG_IDLE_HYBRID
          else SG_IDLE_ADAPTIVE)"

definition submit_mode_from_env :: "environ \<Rightarrow> sg_submit_mode" where
  "submit_mode_from_env ev = (if ev ''SG_SUBMIT_MODE'' = Some ''ticket'' then SG_SUBMIT_TICKET else SG_SUBMIT_MUTEX)"

definition prefetch_from_env :: "environ \<Rightarrow> u64" where
  "prefetch_from_env ev = env_int ev ''SG_PREFETCH_PAGES'' kDefaultPrefetchPages 0 4096"

definition timeslice_from_env :: "environ \<Rightarrow> u64" where
  "timeslice_from_env ev = env_int ev ''SG_TIMESLICE_NS'' 0 0 10000000000"

section \<open>Bounds\<close>

lemma env_int_range: "lo \<le> def \<Longrightarrow> def \<le> hi \<Longrightarrow> lo \<le> env_int ev name def lo hi \<and> env_int ev name def lo hi \<le> hi"
  by (auto simp: env_int_def Let_def not_less split: option.split)

lemma env_pow2_range: "lo \<le> def \<Longrightarrow> def \<le> hi \<Longrightarrow> lo \<le> env_pow2 ev name def lo hi \<and> env_pow2 ev name def lo hi \<le> hi"
  by (auto simp: env_pow2_def Let_def not_less split: option.split)

text \<open>The bit trick of \<^verbatim>\<open>env_pow2\<close>.\<close>

lemma odd_part: "0 < n \<Longrightarrow> \<exists>k m. n = 2 ^ k * m \<and> odd (m :: nat)"
proof (induction n rule: less_induct)
  case (less n)
  show ?case
  proof (cases "odd n")
    case True
    then have "n = 2 ^ 0 * n \<and> odd n" by simp
    then show ?thesis by blast
  next
    case False
    then obtain h where h: "n = 2 * h" by (auto elim: evenE)
    with less.prems have "0 < h" "h < n" by auto
    with less.IH obtain k m where "h = 2 ^ k * m" "odd m" by blast
    with h have "n = 2 ^ Suc k * m" "odd m" by simp_all
    then show ?thesis by blast
  qed
qed

lemma pow2_nat:
  assumes "0 < n" "n AND (n - 1) = (0 :: nat)"
  shows "\<exists>k. n = 2 ^ k"
proof -
  obtain k m where n: "n = 2 ^ k * m" "odd m" using odd_part [OF assms(1)] by blast
  then obtain q where q: "m = 2 * q + 1" by (auto elim: oddE)
  have n1: "n - 1 = 2 ^ Suc k * q + (2 ^ k - 1)" using n q by (simp add: algebra_simps)
  have n0: "n = 2 ^ Suc k * q + 2 ^ k" using n q by (simp add: algebra_simps)
  have "n div 2 ^ Suc k = q" unfolding n0 by (simp add: div_mult_self3)
  moreover
  have "(2 ^ k - 1) div 2 ^ Suc k = (0 :: nat)" by (simp add: less_imp_diff_less)
  then have "(n - 1) div 2 ^ Suc k = q" unfolding n1 by (simp only: div_mult_self4 [OF power_not_zero])
  ultimately have "drop_bit (Suc k) (n AND (n - 1)) = q" by (simp only: drop_bit_and) (simp add: drop_bit_eq_div)
  with assms(2) have "q = 0" by simp
  with n q show ?thesis by auto
qed

lemma pow2_test:
  assumes "v AND (v - 1) = 0" "(v :: u64) \<noteq> 0"
  shows "\<exists>k. unat v = 2 ^ k"
proof (rule pow2_nat)
  have "unat (v - 1) = unat v - 1" using assms(2) by (simp add: unat_minus_one)
  then have "unat v AND (unat v - 1) = unat (v AND (v - 1))" by (simp only: unsigned_and_eq)
  then show "unat v AND (unat v - 1) = 0" using assms(1) by simp
  show "0 < unat v" using assms(2) by (simp add: unat_gt_0)
qed

lemma env_pow2_pow2:
  assumes "def AND (def - 1) = 0" "0 < lo" "lo \<le> def" "def \<le> hi"
  shows "\<exists>k. unat (env_pow2 ev name def lo hi) = 2 ^ k"
proof (rule pow2_test)
  show "env_pow2 ev name def lo hi AND (env_pow2 ev name def lo hi - 1) = 0"
    using assms(1) by (auto simp: env_pow2_def Let_def split: option.split)
  show "env_pow2 ev name def lo hi \<noteq> 0" using env_pow2_range [OF assms(3,4), of ev name] assms(2) by (metis word_le_0_iff not_le)
qed

lemma unat_narrow: "(x :: u64) \<le> 65536 \<Longrightarrow> unat (ucast x :: u32) = unat x"
  by (simp add: unsigned_ucast_eq word_le_unat take_bit_nat_eq_self)

lemma pow2_narrow:
  assumes "\<exists>k. unat (x :: u64) = 2 ^ k" "x \<le> 65536"
  shows "pow2 (ucast x)"
proof -
  obtain k where k: "unat x = 2 ^ k" using assms(1) by blast
  then have "(2 :: nat) ^ k \<le> 2 ^ 16" using assms(2) by (simp add: word_le_unat)
  then have "k \<le> 16" by (rule power_le_imp_le_exp [rotated]) simp
  then show ?thesis using k unat_narrow [OF assms(2)] by (auto simp: pow2_def)
qed

lemma page_dvd:
  assumes "\<exists>k. unat (x :: u64) = 2 ^ k" "4096 \<le> x"
  shows "unat SG_PAGE_SIZE dvd unat x"
proof -
  obtain k where k: "unat x = 2 ^ k" using assms(1) by blast
  then have "(2 :: nat) ^ 12 \<le> 2 ^ k" using assms(2) by (simp add: word_le_unat)
  then have "12 \<le> k" by (rule power_le_imp_le_exp [rotated]) simp
  then have "(2 :: nat) ^ 12 dvd 2 ^ k" by (rule le_imp_power_dvd)
  then show ?thesis using k by (simp add: SG_PAGE_SIZE_def)
qed

lemma knob_defaults: "(ucast kDefaultRingDepth :: u64) = 1024" "(ucast SG_STAGING_SLOTS :: u64) = 8" "SG_STAGING_CHUNK = 262144"
  "push_bit 20 64 = (67108864 :: u64)" "(ucast SG_COPY_ENGINES :: u64) = 1" "(ucast (SG_MAX_ENGINES - 1) :: u64) = 3" "(ucast SG_CHANNELS :: u64) = 8"
  "(ucast SG_MAX_CHANNELS :: u64) = 8"
  by (simp_all add: kDefaultRingDepth_def SG_STAGING_SLOTS_def SG_STAGING_CHUNK_def SG_COPY_ENGINES_def SG_MAX_ENGINES_def
      SG_CHANNELS_def SG_MAX_CHANNELS_def push_bit_eq_mult)

lemma ring_knobs: "pow2 (ring_depth_from_env ev)" "2 \<le> ring_depth_from_env ev" "ring_depth_from_env ev \<le> 65536"
proof -
  define depth where "depth = env_pow2 ev ''SG_RING_DEPTH'' 1024 2 65536"
  have dr: "2 \<le> depth" "depth \<le> 65536" "\<exists>k. unat depth = 2 ^ k"
    using env_pow2_range [of 2 1024 65536] env_pow2_pow2 [of 1024 2 65536] by (simp_all add: depth_def)
  have e: "ring_depth_from_env ev = ucast depth" by (simp add: ring_depth_from_env_def knob_defaults depth_def)
  show "pow2 (ring_depth_from_env ev)" unfolding e by (rule pow2_narrow [OF dr(3,2)])
  show "2 \<le> ring_depth_from_env ev" "ring_depth_from_env ev \<le> 65536" unfolding e using dr unat_narrow [OF dr(2)] by (simp_all add: word_le_unat)
qed

lemma engine_knobs: "1 \<le> copy_engines_from_env ev" "1 + copy_engines_from_env ev \<le> SG_MAX_ENGINES" "1 \<le> channels_from_env ev"
  "channels_from_env ev \<le> SG_MAX_CHANNELS" "copy_engines_from_env ev \<le> 3"
proof -
  define ces where "ces = env_int ev ''SG_COPY_ENGINES'' 1 1 3"
  define chans where "chans = env_int ev ''SG_CHANNELS'' 8 1 8"
  have er: "1 \<le> ces" "ces \<le> 3" "1 \<le> chans" "chans \<le> 8"
    using env_int_range [of 1 1 3] env_int_range [of 1 8 8] by (simp_all add: ces_def chans_def)
  have s64: "ces \<le> 65536" "chans \<le> 65536" using er by (auto intro: order_trans)
  note u = unat_narrow [OF s64(1)] unat_narrow [OF s64(2)]
  have e: "copy_engines_from_env ev = ucast ces" "channels_from_env ev = ucast chans"
    by (simp_all add: copy_engines_from_env_def channels_from_env_def knob_defaults ces_def chans_def)
  show "1 \<le> copy_engines_from_env ev" "1 \<le> channels_from_env ev" "channels_from_env ev \<le> SG_MAX_CHANNELS" "copy_engines_from_env ev \<le> 3"
    unfolding e using er u by (simp_all add: word_le_unat SG_MAX_CHANNELS_def)
  show "1 + copy_engines_from_env ev \<le> SG_MAX_ENGINES"
    unfolding e using er(2) u(1) by (simp add: word_le_unat SG_MAX_ENGINES_def unat_word_ariths)
qed

lemma staging_knobs: "pow2 (staging_slots_from_env ev)" "staging_slots_from_env ev \<le> 64" "unat SG_PAGE_SIZE dvd unat (staging_chunk_from_env ev)"
  "staging_chunk_from_env ev \<le> push_bit 20 64" "staging_chunk_from_env ev \<noteq> 0"
proof -
  define slots where "slots = env_pow2 ev ''SG_STAGING_SLOTS'' 8 1 64"
  define chunk where "chunk = env_pow2 ev ''SG_STAGING_CHUNK'' 262144 4096 67108864"
  have sr: "1 \<le> slots" "slots \<le> 64" "\<exists>k. unat slots = 2 ^ k"
    using env_pow2_range [of 1 8 64] env_pow2_pow2 [of 8 1 64] by (simp_all add: slots_def)
  have cr: "4096 \<le> chunk" "chunk \<le> 67108864" "\<exists>k. unat chunk = 2 ^ k"
    using env_pow2_range [of 4096 262144 67108864] env_pow2_pow2 [of 262144 4096 67108864] by (simp_all add: chunk_def)
  have s64: "slots \<le> 65536" using sr(2) by (auto intro: order_trans)
  have e: "staging_slots_from_env ev = ucast slots" "staging_chunk_from_env ev = chunk"
    by (simp_all add: staging_slots_from_env_def staging_chunk_from_env_def knob_defaults slots_def chunk_def)
  show "pow2 (staging_slots_from_env ev)" unfolding e by (rule pow2_narrow [OF sr(3) s64])
  show "staging_slots_from_env ev \<le> 64" unfolding e using sr(2) unat_narrow [OF s64] by (simp add: word_le_unat)
  show "unat SG_PAGE_SIZE dvd unat (staging_chunk_from_env ev)" unfolding e by (rule page_dvd [OF cr(3,1)])
  show "staging_chunk_from_env ev \<le> push_bit 20 64" "staging_chunk_from_env ev \<noteq> 0" unfolding e knob_defaults using cr(1,2) by auto
qed

text \<open>C38: Whatever the environment holds, the configuration is one the driver and the device can run with: the ring depth
  is a power of two between 2 and 65536 (slot indices are masked with the depth minus one), the staging pool has a
  power of two of slots and chunks of whole pages, there are between 2 and 4 engines and between 1 and 8
  channels, and every time fits its bound.\<close>

theorem knobs_in_range:
  "pow2 (ring_depth_from_env ev) \<and> 2 \<le> ring_depth_from_env ev \<and> ring_depth_from_env ev \<le> 65536 \<and>
   pow2 (staging_slots_from_env ev) \<and> staging_slots_from_env ev \<le> 64 \<and>
   unat SG_PAGE_SIZE dvd unat (staging_chunk_from_env ev) \<and> staging_chunk_from_env ev \<le> push_bit 20 64 \<and> staging_chunk_from_env ev \<noteq> 0 \<and>
   1 \<le> copy_engines_from_env ev \<and> 1 + copy_engines_from_env ev \<le> SG_MAX_ENGINES \<and>
   1 \<le> channels_from_env ev \<and> channels_from_env ev \<le> SG_MAX_CHANNELS \<and>
   spin_ns_from_env ev \<le> 1000000000 \<and> idle_ns_from_env ev \<le> 10000000000 \<and> timeslice_from_env ev \<le> 10000000000 \<and>
   prefetch_from_env ev \<le> 4096"
  using ring_knobs [of ev] engine_knobs [of ev] staging_knobs [of ev] env_int_range
  by (simp add: spin_ns_from_env_def idle_ns_from_env_def timeslice_from_env_def prefetch_from_env_def
      kDefaultSpinNs_def kDefaultIdleNs_def kDefaultPrefetchPages_def)

end
