(* ===== verification/Std_Map.thy ===== *)
theory Std_Map
  imports Prelude
begin

text \<open>
  \<^verbatim>\<open>std::map\<close> and \<^verbatim>\<open>std::unordered_map\<close> as the sources use them. An ordered map is an association
  list with strictly increasing keys, so iteration order, \<^verbatim>\<open>lower_bound\<close>, \<^verbatim>\<open>upper_bound\<close> and
  \<^verbatim>\<open>std::prev\<close> are functions on it; \<^verbatim>\<open>emplace\<close> does not overwrite. The locale \<open>dictionary\<close> states
  what the clients rely on; both kinds of map are interpreted.
\<close>

type_synonym ('k, 'v) omap = "('k \<times> 'v) list"

section \<open>Operations\<close>

definition om_ok :: "('k :: linorder, 'v) omap \<Rightarrow> bool" where
  "om_ok m \<longleftrightarrow> sorted_wrt (<) (map fst m)"

fun om_emplace :: "'k :: linorder \<Rightarrow> 'v \<Rightarrow> ('k, 'v) omap \<Rightarrow> ('k, 'v) omap" where
  "om_emplace k v [] = [(k, v)]"
| "om_emplace k v ((a, b) # m) =
     (if k < a then (k, v) # (a, b) # m
      else if k = a then (a, b) # m
      else (a, b) # om_emplace k v m)"

definition om_erase :: "'k \<Rightarrow> ('k, 'v) omap \<Rightarrow> ('k, 'v) omap" where
  "om_erase k m = filter (\<lambda>p. fst p \<noteq> k) m"

definition om_head :: "('k, 'v) omap \<Rightarrow> ('k \<times> 'v) option" where
  "om_head m = (case m of [] \<Rightarrow> None | p # _ \<Rightarrow> Some p)"

definition om_lower_bound :: "'k :: linorder \<Rightarrow> ('k, 'v) omap \<Rightarrow> ('k \<times> 'v) option" where
  "om_lower_bound k m = om_head (dropWhile (\<lambda>p. fst p < k) m)"

definition om_upper_bound :: "'k :: linorder \<Rightarrow> ('k, 'v) omap \<Rightarrow> ('k \<times> 'v) option" where
  "om_upper_bound k m = om_head (dropWhile (\<lambda>p. fst p \<le> k) m)"

text \<open>\<^verbatim>\<open>std::prev(lower_bound(k))\<close> and \<^verbatim>\<open>std::prev(upper_bound(k))\<close>; \<^const>\<open>None\<close> where the iterator is
  \<^verbatim>\<open>begin()\<close> and the sources do not decrement it.\<close>

definition om_before :: "'k :: linorder \<Rightarrow> ('k, 'v) omap \<Rightarrow> ('k \<times> 'v) option" where
  "om_before k m = (case takeWhile (\<lambda>p. fst p < k) m of [] \<Rightarrow> None | ps \<Rightarrow> Some (last ps))"

definition om_upto :: "'k :: linorder \<Rightarrow> ('k, 'v) omap \<Rightarrow> ('k \<times> 'v) option" where
  "om_upto k m = (case takeWhile (\<lambda>p. fst p \<le> k) m of [] \<Rightarrow> None | ps \<Rightarrow> Some (last ps))"

text \<open>\<^verbatim>\<open>unordered_map::emplace\<close>: keep an entry that is there.\<close>

definition um_emplace :: "'k \<Rightarrow> 'v \<Rightarrow> ('k \<times> 'v) list \<Rightarrow> ('k \<times> 'v) list" where
  "um_emplace k v m = (if map_of m k = None then (k, v) # m else m)"

section \<open>Facts about splits of an ordered map\<close>

text \<open>Every use splits the map at the key it looks for: \<open>xs\<close> below, \<open>ys\<close> at or above.\<close>

lemma om_ok_append: "om_ok (xs @ ys) \<longleftrightarrow> om_ok xs \<and> om_ok ys \<and>
    (\<forall>p \<in> set xs. \<forall>q \<in> set ys. fst p < fst q)"
  by (auto simp: om_ok_def sorted_wrt_append)

lemma om_ok_Nil [simp]: "om_ok []"
  by (simp add: om_ok_def)

lemma om_ok_Cons: "om_ok (p # m) \<longleftrightarrow> (\<forall>q \<in> set m. fst p < fst q) \<and> om_ok m"
  by (auto simp: om_ok_def)

lemma om_ok_distinct: "om_ok m \<Longrightarrow> distinct (map fst m)"
  by (auto simp: om_ok_def strict_sorted_iff)

lemma om_split:
  "om_ok m \<Longrightarrow> \<exists>xs ys. m = xs @ ys \<and> (\<forall>p \<in> set xs. fst p < k) \<and> (\<forall>p \<in> set ys. k \<le> fst p)"
proof (induction m)
  case (Cons p m)
  show ?case
  proof (cases "fst p < k")
    case True
    from Cons obtain xs ys where "m = xs @ ys" "\<forall>p \<in> set xs. fst p < k" "\<forall>p \<in> set ys. k \<le> fst p"
      by (auto simp: om_ok_Cons)
    with True have "p # m = (p # xs) @ ys \<and> (\<forall>p \<in> set (p # xs). fst p < k) \<and>
        (\<forall>p \<in> set ys. k \<le> fst p)" by auto
    then show ?thesis by blast
  next
    case False
    with Cons.prems have "p # m = [] @ (p # m) \<and> (\<forall>p \<in> set []. fst p < k) \<and>
        (\<forall>p \<in> set (p # m). k \<le> fst p)" by (auto simp: om_ok_Cons)
    then show ?thesis by blast
  qed
qed simp

lemma om_emplace_split:
  assumes "\<forall>p \<in> set xs. fst p < k" "\<forall>p \<in> set ys. k < fst p"
  shows "om_emplace k v (xs @ ys) = xs @ (k, v) # ys"
  using assms
proof (induction xs)
  case Nil
  then show ?case by (cases ys) auto
next
  case (Cons p xs)
  then show ?case by (cases p) auto
qed

lemma om_lower_bound_split:
  assumes "\<forall>p \<in> set xs. fst p < k" "\<forall>p \<in> set ys. k \<le> fst p"
  shows "om_lower_bound k (xs @ ys) = om_head ys"
proof -
  have "dropWhile (\<lambda>p. fst p < k) ys = ys" using assms(2) by (cases ys) auto
  with assms(1) show ?thesis by (simp add: om_lower_bound_def)
qed

lemma om_before_split:
  assumes "\<forall>p \<in> set xs. fst p < k" "\<forall>p \<in> set ys. k \<le> fst p"
  shows "om_before k (xs @ ys) = (if xs = [] then None else Some (last xs))"
proof -
  have "takeWhile (\<lambda>p. fst p < k) ys = []" using assms(2) by (cases ys) auto
  with assms(1) have "takeWhile (\<lambda>p. fst p < k) (xs @ ys) = xs" by simp
  then show ?thesis by (cases xs) (auto simp: om_before_def)
qed

lemma om_upto_split:
  assumes "\<forall>p \<in> set xs. fst p \<le> k" "\<forall>p \<in> set ys. k < fst p"
  shows "om_upto k (xs @ ys) = (if xs = [] then None else Some (last xs))"
proof -
  have "takeWhile (\<lambda>p. fst p \<le> k) ys = []" using assms(2) by (cases ys) auto
  with assms(1) have "takeWhile (\<lambda>p. fst p \<le> k) (xs @ ys) = xs" by simp
  then show ?thesis by (cases xs) (auto simp: om_upto_def)
qed

lemma om_erase_distinct:
  assumes "distinct (map fst (xs @ (k, v) # ys))"
  shows "om_erase k (xs @ (k, v) # ys) = xs @ ys"
proof -
  have "filter (\<lambda>p. fst p \<noteq> k) xs = xs" "filter (\<lambda>p. fst p \<noteq> k) ys = ys"
    using assms by (force intro!: filter_True)+
  then show ?thesis by (simp add: om_erase_def)
qed

lemma om_erase_mid:
  "om_ok (xs @ (k, v) # ys) \<Longrightarrow> om_erase k (xs @ (k, v) # ys) = xs @ ys"
  by (rule om_erase_distinct) (rule om_ok_distinct)

lemma om_erase_Cons: "om_erase k (p # m) = (if fst p = k then om_erase k m else p # om_erase k m)"
  by (simp add: om_erase_def)

lemma om_erase_absent: "k \<notin> fst ` set m \<Longrightarrow> om_erase k m = m"
  by (auto simp: om_erase_def intro!: filter_True)

lemma set_om_erase [simp]: "set (om_erase k m) = {p \<in> set m. fst p \<noteq> k}"
  by (auto simp: om_erase_def)

lemma om_ok_erase: "om_ok m \<Longrightarrow> om_ok (om_erase k m)"
  by (induction m) (auto simp: om_erase_def om_ok_Cons)

lemma set_om_emplace_subset: "set (om_emplace k v m) \<subseteq> insert (k, v) (set m)"
  by (induction k v m rule: om_emplace.induct) auto

lemma om_ok_emplace: "om_ok m \<Longrightarrow> om_ok (om_emplace k v m)"
proof (induction k v m rule: om_emplace.induct)
  case (2 k v a b m)
  then show ?case using set_om_emplace_subset [of k v m] by (auto simp: om_ok_Cons)
qed (simp add: om_ok_Cons)

section \<open>What a client relies on\<close>

text \<open>The interface shared by the two maps: a lookup after an \<^verbatim>\<open>emplace\<close> or an \<^verbatim>\<open>erase\<close>.\<close>

locale dictionary =
  fixes emplace :: "'k \<Rightarrow> 'v \<Rightarrow> 'm \<Rightarrow> 'm"
    and erase :: "'k \<Rightarrow> 'm \<Rightarrow> 'm"
    and look :: "'m \<Rightarrow> 'k \<Rightarrow> 'v option"
    and ok :: "'m \<Rightarrow> bool"
  assumes look_emplace: "ok m \<Longrightarrow>
      look (emplace k v m) = (look m)(k := (case look m k of None \<Rightarrow> Some v | Some w \<Rightarrow> Some w))"
    and look_erase: "ok m \<Longrightarrow> look (erase k m) = (look m)(k := None)"
    and ok_emplace: "ok m \<Longrightarrow> ok (emplace k v m)"
    and ok_erase: "ok m \<Longrightarrow> ok (erase k m)"
begin

lemma look_emplace_new: "ok m \<Longrightarrow> look m k = None \<Longrightarrow> look (emplace k v m) k = Some v"
  by (simp add: look_emplace)

lemma erase_emplace: "ok m \<Longrightarrow> look m k = None \<Longrightarrow> look (erase k (emplace k v m)) = look m"
  by (auto simp: look_erase ok_emplace look_emplace)

end

lemma map_of_om_emplace: "om_ok m \<Longrightarrow>
   map_of (om_emplace k v m) = (map_of m)(k := (case map_of m k of None \<Rightarrow> Some v | Some w \<Rightarrow> Some w))"
proof (induction k v m rule: om_emplace.induct)
  case (2 k v a b m)
  have absent: "map_of m k = None" if "k < a"
    using that "2.prems" by (auto simp: om_ok_Cons map_of_eq_None_iff)
  show ?case
  proof (cases "k < a")
    case True
    with absent show ?thesis by (auto simp: fun_eq_iff)
  next
    case False
    show ?thesis
    proof (cases "k = a")
      case True
      then show ?thesis by (auto simp: fun_eq_iff)
    next
      case False
      with \<open>\<not> k < a\<close> "2" show ?thesis by (auto simp: om_ok_Cons fun_eq_iff)
    qed
  qed
qed (auto simp: fun_eq_iff)

lemma map_of_om_erase: "map_of (om_erase k m) = (map_of m)(k := None)"
  by (induction m) (auto simp: om_erase_def fun_eq_iff)

interpretation om: dictionary om_emplace om_erase map_of "om_ok :: ('k :: linorder, 'v) omap \<Rightarrow> bool"
  by unfold_locales (simp_all add: map_of_om_emplace map_of_om_erase om_ok_emplace om_ok_erase)

interpretation um: dictionary um_emplace om_erase map_of "\<lambda>_. True"
  by unfold_locales (auto simp: um_emplace_def map_of_om_erase fun_eq_iff split: option.splits)

end
