(* ===== verification/Vram_Alloc.thy ===== *)
theory Vram_Alloc
  imports Std_Map
begin

text \<open>
  The first-fit free-list allocator of \<^verbatim>\<open>src/src/driver/vram_alloc.cpp\<close>. The driver keeps two of
  them: VRAM frames and the managed virtual range. The state has the class's four fields; \<open>free_\<close>
  is the ordered map of \<^verbatim>\<open>Std_Map\<close>, \<open>live_\<close> an unordered one. Addresses and lengths stay 64-bit
  words, so the round-up in \<^verbatim>\<open>alloc\<close> wraps where the code's does.

  The invariant \<open>va_inv lo hi A D\<close> says that free blocks, live blocks and the blocks \<open>D\<close> that are
  detached but not yet released tile \<open>{lo ..< hi}\<close>, that free blocks are coalesced, that all is
  aligned, and that \<open>live_bytes_\<close> is the sum of the live sizes. Every operation keeps it.
\<close>

section \<open>State and operations\<close>

record vram_allocator =
  va_align :: u64
  va_free :: "(u64, u64) omap"
  va_live :: "(u64 \<times> u64) list"
  va_live_bytes :: u64

definition va_new :: "u64 \<Rightarrow> u64 \<Rightarrow> u64 \<Rightarrow> vram_allocator" where
  "va_new base sz align =
     \<lparr>va_align = align, va_free = om_emplace base sz [], va_live = [], va_live_bytes = 0\<rparr>"

definition va_need :: "vram_allocator \<Rightarrow> u64 \<Rightarrow> u64" where
  "va_need A bytes = (bytes + va_align A - 1) div va_align A * va_align A"

definition va_alloc :: "vram_allocator \<Rightarrow> u64 \<Rightarrow> u64 option \<times> vram_allocator" where
  "va_alloc A bytes =
     (if bytes = 0 then (None, A)
      else let need = va_need A bytes in
        (case find (\<lambda>b. \<not> snd b < need) (va_free A) of
           None \<Rightarrow> (None, A)
         | Some (addr, len) \<Rightarrow>
             (let remain = len - need;
                  fr = om_erase addr (va_free A);
                  fr' = (if remain \<noteq> 0 then om_emplace (addr + need) remain fr else fr)
              in (Some addr, A\<lparr>va_free := fr', va_live := um_emplace addr need (va_live A),
                               va_live_bytes := va_live_bytes A + need\<rparr>))))"

definition va_detach :: "vram_allocator \<Rightarrow> u64 \<Rightarrow> (u64 \<times> vram_allocator) option" where
  "va_detach A addr =
     (case map_of (va_live A) addr of
        None \<Rightarrow> None
      | Some sz \<Rightarrow> Some (sz, A\<lparr>va_live := om_erase addr (va_live A),
                                  va_live_bytes := va_live_bytes A - sz\<rparr>))"

text \<open>Coalesce with the following block, then with the preceding one. After the first step the
  block before \<^verbatim>\<open>next\<close> is the last one that starts below \<open>addr\<close>.\<close>

definition join_next :: "u64 \<Rightarrow> u64 \<Rightarrow> (u64, u64) omap \<Rightarrow> u64 \<times> (u64, u64) omap" where
  "join_next start len fr =
     (case om_lower_bound start fr of
        Some (b, m) \<Rightarrow> if b = start + len then (len + m, om_erase b fr) else (len, fr)
      | None \<Rightarrow> (len, fr))"

definition join_prev :: "u64 \<Rightarrow> u64 \<Rightarrow> (u64, u64) omap \<Rightarrow> u64 \<times> u64 \<times> (u64, u64) omap" where
  "join_prev start len fr =
     (case om_before start fr of
        Some (p, q) \<Rightarrow> if p + q = start then (p, len + q, om_erase p fr) else (start, len, fr)
      | None \<Rightarrow> (start, len, fr))"

definition va_release :: "vram_allocator \<Rightarrow> u64 \<Rightarrow> u64 \<Rightarrow> vram_allocator" where
  "va_release A addr len =
     (let (len', fr) = join_next addr len (va_free A);
          (start, len'', fr') = join_prev addr len' fr
      in A\<lparr>va_free := om_emplace start len'' fr'\<rparr>)"

definition va_dealloc :: "vram_allocator \<Rightarrow> u64 \<Rightarrow> bool \<times> vram_allocator" where
  "va_dealloc A addr =
     (case va_detach A addr of
        None \<Rightarrow> (False, A)
      | Some (sz, A') \<Rightarrow> (True, va_release A' addr sz))"

definition va_owns_range :: "vram_allocator \<Rightarrow> u64 \<Rightarrow> u64 \<Rightarrow> bool" where
  "va_owns_range A addr len =
     list_ex (\<lambda>(start, sz). addr \<ge> start \<and> addr - start \<le> sz \<and> len \<le> sz - (addr - start))
       (va_live A)"

section \<open>Invariant\<close>

definition gap :: "u64 \<times> u64 \<Rightarrow> u64 \<times> u64 \<Rightarrow> bool" where
  "gap b c \<longleftrightarrow> unat (fst b) + unat (snd b) < unat (fst c)"

definition aligned :: "u64 \<Rightarrow> u64 \<times> u64 \<Rightarrow> bool" where
  "aligned al b \<longleftrightarrow> unat al dvd unat (fst b) \<and> unat al dvd unat (snd b)"

abbreviation va_blocks :: "vram_allocator \<Rightarrow> (u64 \<times> u64) list \<Rightarrow> (u64 \<times> u64) list" where
  "va_blocks A D \<equiv> va_free A @ va_live A @ D"

definition tiled :: "nat \<Rightarrow> nat \<Rightarrow> (u64 \<times> u64) list \<Rightarrow> bool" where
  "tiled lo hi bs \<longleftrightarrow> (\<forall>x. cover bs x = (if lo \<le> x \<and> x < hi then 1 else 0))"

definition live_sum :: "(u64 \<times> u64) list \<Rightarrow> nat" where
  "live_sum bs = (\<Sum>b \<leftarrow> bs. unat (snd b))"

definition va_inv :: "nat \<Rightarrow> nat \<Rightarrow> vram_allocator \<Rightarrow> (u64 \<times> u64) list \<Rightarrow> bool" where
  "va_inv lo hi A D \<longleftrightarrow>
     hi < 2 ^ 64 \<and> 0 < va_align A \<and>
     tiled lo hi (va_blocks A D) \<and>
     (\<forall>b \<in> set (va_blocks A D). snd b \<noteq> 0 \<and> aligned (va_align A) b) \<and>
     sorted_wrt gap (va_free A) \<and>
     unat (va_live_bytes A) = live_sum (va_live A)"

subsection \<open>Consequences of tiling\<close>

lemma tiled_bounds:
  assumes "tiled lo hi bs" "b \<in> set bs" "snd b \<noteq> 0"
  shows "lo \<le> unat (fst b)" "unat (fst b) + unat (snd b) \<le> hi"
proof -
  have pos: "0 < unat (snd b)" using assms(3) by (simp add: unat_gt_0)
  have "unat (fst b) \<in> ivl b" using pos by (simp add: ivl_def)
  with assms(1,2) have "cover bs (unat (fst b)) = 1"
    using cover_pos [of b bs "unat (fst b)"] unfolding tiled_def by (metis less_numeral_extra(3))
  then show "lo \<le> unat (fst b)" using assms(1) unfolding tiled_def by (metis zero_neq_one)
  let ?e = "unat (fst b) + unat (snd b) - 1"
  have "?e \<in> ivl b" using pos by (auto simp: ivl_def)
  with assms(1,2) have "?e < hi"
    using cover_pos [of b bs ?e] unfolding tiled_def by (metis less_numeral_extra(3))
  with pos show "unat (fst b) + unat (snd b) \<le> hi" by linarith
qed

lemma tiled_disjoint:
  assumes "tiled lo hi bs" "b \<in> set bs" "c \<in> set bs" "b \<noteq> c"
  shows "ivl b \<inter> ivl c = {}"
proof (rule ccontr)
  assume "ivl b \<inter> ivl c \<noteq> {}"
  then obtain x where "x \<in> ivl b" "x \<in> ivl c" by blast
  with assms(2-4) have "1 < cover bs x" by (rule cover_two)
  moreover have "cover bs x \<le> 1" using assms(1) unfolding tiled_def by simp
  ultimately show False by simp
qed

lemma tiled_append_disjoint:
  assumes "tiled lo hi (us @ vs)" "b \<in> set us" "c \<in> set vs"
  shows "ivl b \<inter> ivl c = {}"
proof (rule ccontr)
  assume "ivl b \<inter> ivl c \<noteq> {}"
  then obtain x where x: "x \<in> ivl b" "x \<in> ivl c" by blast
  have "0 < cover us x" "0 < cover vs x" using assms(2,3) x by (auto intro: cover_pos)
  moreover have "cover (us @ vs) x \<le> 1" using assms(1) unfolding tiled_def by simp
  ultimately show False by simp
qed

lemma tiled_cong: "(\<And>x. cover bs x = cover cs x) \<Longrightarrow> tiled lo hi bs \<longleftrightarrow> tiled lo hi cs"
  by (simp add: tiled_def)

lemma gap_sorted_om_ok: "sorted_wrt gap bs \<Longrightarrow> om_ok bs"
  by (induction bs) (auto simp: om_ok_Cons gap_def word_less_unat)

lemma disjoint_order:
  assumes "ivl (a, l) \<inter> ivl (b, m) = {}" "m \<noteq> 0" "a \<le> b"
  shows "unat a + unat l \<le> unat b"
proof -
  have "unat b \<in> ivl (b, m)" using assms(2) by (rule start_in_ivl)
  with assms(1) have "unat b \<notin> ivl (a, l)" by blast
  with assms(3) show ?thesis by (auto simp: mem_ivl word_le_unat)
qed

lemma unat_block_end:
  "unat (a :: u64) + unat l \<le> hi \<Longrightarrow> hi < 2 ^ 64 \<Longrightarrow> unat (a + l) = unat a + unat l"
  by (simp add: word_nat)

lemma ivl_split:
  assumes "unat (a :: u64) + unat l < 2 ^ 64" "n \<le> l"
  shows "(if x \<in> ivl (a, l) then 1 else 0) =
    (if x \<in> ivl (a, n) then 1 else 0) + (if x \<in> ivl (a + n, l - n) then 1 else (0 :: nat))"
proof -
  have "unat (l - n) = unat l - unat n" "unat n \<le> unat l"
    using assms(2) by (simp_all add: unat_sub_64 word_le_unat)
  moreover have "unat (a + n) = unat a + unat n"
    using assms calculation(2) by (intro unat_add_64) linarith
  ultimately show ?thesis by (auto simp: mem_ivl)
qed

lemma va_inv_blockD:
  assumes "va_inv lo hi A D" "b \<in> set (va_blocks A D)"
  shows "snd b \<noteq> 0" "aligned (va_align A) b" "lo \<le> unat (fst b)"
    "unat (fst b) + unat (snd b) \<le> hi"
proof -
  from assms show nz: "snd b \<noteq> 0" and "aligned (va_align A) b" unfolding va_inv_def by blast+
  have "tiled lo hi (va_blocks A D)" using assms(1) by (simp add: va_inv_def)
  from tiled_bounds [OF this assms(2) nz]
  show "lo \<le> unat (fst b)" "unat (fst b) + unat (snd b) \<le> hi" .
qed

lemma live_sum_Nil [simp]: "live_sum [] = 0"
  by (simp add: live_sum_def)

lemma live_sum_Cons [simp]: "live_sum (b # bs) = unat (snd b) + live_sum bs"
  by (simp add: live_sum_def)

lemma live_sum_append [simp]: "live_sum (bs @ cs) = live_sum bs + live_sum cs"
  by (simp add: live_sum_def)

lemma sum_cover:
  "\<forall>b \<in> set bs. unat (fst b) + unat (snd b) \<le> hi \<Longrightarrow> (\<Sum>x < hi. cover bs x) = live_sum bs"
proof (induction bs)
  case (Cons b bs)
  have "{..<hi} \<inter> ivl b = ivl b" using Cons.prems by (auto simp: ivl_def)
  then have "(\<Sum>x < hi. if x \<in> ivl b then 1 else (0 :: nat)) = card (ivl b)"
    by (simp add: sum.If_cases)
  with Cons show ?case by (simp add: sum.distrib ivl_def)
qed simp

text \<open>Every byte of the range is accounted for.\<close>

lemma va_inv_total:
  assumes "va_inv lo hi A D"
  shows "live_sum (va_free A) + live_sum (va_live A) + live_sum D = hi - lo"
proof -
  have "(\<Sum>x < hi. cover (va_blocks A D) x) = live_sum (va_blocks A D)"
    by (rule sum_cover) (use va_inv_blockD(4) [OF assms] in blast)
  moreover have "(\<Sum>x < hi. cover (va_blocks A D) x) = (\<Sum>x < hi. if lo \<le> x then 1 else 0)"
    using assms by (intro sum.cong) (auto simp: va_inv_def tiled_def)
  moreover have "{..<hi} \<inter> {x. lo \<le> x} = {lo ..< hi}" by auto
  ultimately show ?thesis by (simp add: sum.If_cases)
qed

section \<open>Rounding up\<close>

definition va_fits :: "vram_allocator \<Rightarrow> u64 \<Rightarrow> bool" where
  "va_fits A bytes \<longleftrightarrow> unat bytes + unat (va_align A) \<le> 2 ^ 64"

lemma unat_va_need:
  assumes "0 < va_align A" "va_fits A bytes"
  shows "unat (va_need A bytes) =
    (unat bytes + unat (va_align A) - 1) div unat (va_align A) * unat (va_align A)"
proof -
  let ?al = "unat (va_align A)"
  have al: "0 < ?al" using assms(1) by (simp add: word_less_unat)
  have "unat (va_align A - 1) = ?al - 1"
    using assms(1) by (simp add: unat_sub_64 word_le_unat word_less_unat)
  then have sum: "unat (bytes + (va_align A - 1)) = unat bytes + ?al - 1"
    using assms(2) al by (subst unat_add_64) (auto simp: va_fits_def)
  have le: "(unat bytes + ?al - 1) div ?al * ?al \<le> unat bytes + ?al - 1" by simp
  then have "(unat bytes + ?al - 1) div ?al * ?al < 2 ^ 64"
    using assms(2) al unfolding va_fits_def by linarith
  then show ?thesis
    using sum by (simp add: va_need_def unat_mult_64 unat_div add_diff_eq)
qed

lemma va_need_bounds:
  assumes "0 < va_align A" "va_fits A bytes"
  shows "unat bytes \<le> unat (va_need A bytes)"
    and "unat (va_need A bytes) < unat bytes + unat (va_align A)"
    and "unat (va_align A) dvd unat (va_need A bytes)"
    and "bytes \<noteq> 0 \<Longrightarrow> va_need A bytes \<noteq> 0"
proof -
  let ?al = "unat (va_align A)" and ?n = "unat bytes"
  have al: "0 < ?al" using assms(1) by (simp add: word_less_unat)
  have eq: "unat (va_need A bytes) = ?n + ?al - 1 - (?n + ?al - 1) mod ?al"
    using unat_va_need [OF assms] by (simp add: minus_mod_eq_div_mult)
  have "(?n + ?al - 1) mod ?al < ?al" using al by simp
  with eq al show ge: "?n \<le> unat (va_need A bytes)" and "unat (va_need A bytes) < ?n + ?al"
    by linarith+
  show "?al dvd unat (va_need A bytes)" using unat_va_need [OF assms] by simp
  show "va_need A bytes \<noteq> 0" if "bytes \<noteq> 0"
    using ge that by (metis le_zero_eq unat_eq_0_iff)
qed

section \<open>Allocation\<close>

lemma va_inv_live_distinct:
  assumes "va_inv lo hi A D"
  shows "distinct (map fst (va_free A @ va_live A @ D))"
proof -
  have "distinct (map fst bs)" if "\<forall>x. cover bs x \<le> 1" "\<forall>b \<in> set bs. snd b \<noteq> 0" for bs
    using that
  proof (induction bs)
    case (Cons b bs)
    have "fst b \<notin> fst ` set bs"
    proof
      assume "fst b \<in> fst ` set bs"
      then obtain c where c: "c \<in> set bs" "fst c = fst b" by auto
      have "unat (fst b) \<in> ivl b" "unat (fst b) \<in> ivl c"
        using Cons.prems(2) c by (auto simp: ivl_def unat_gt_0)
      with c(1) have "1 < cover (b # bs) (unat (fst b))" using cover_pos [of c bs] by simp
      with Cons.prems(1) show False by (metis linorder_not_le)
    qed
    moreover have "\<forall>x. cover bs x \<le> 1"
      using Cons.prems(1) by (metis add.commute cover_Cons le_trans le_add1)
    ultimately show ?case using Cons by auto
  qed simp
  moreover have "\<forall>x. cover (va_blocks A D) x \<le> 1"
    using assms unfolding va_inv_def tiled_def by simp
  ultimately show ?thesis using assms unfolding va_inv_def by blast
qed

text \<open>What a successful \<^verbatim>\<open>alloc\<close> does, in terms of the block it took.\<close>

lemma va_alloc_SomeE:
  assumes "va_inv lo hi A D" "va_fits A bytes" "va_alloc A bytes = (Some addr, A')"
  obtains us len vs where
    "va_free A = us @ (addr, len) # vs" "va_need A bytes \<le> len"
    "\<forall>b \<in> set us. snd b < va_need A bytes" "bytes \<noteq> 0"
    "va_free A' = us @ (if len - va_need A bytes = 0 then []
        else [(addr + va_need A bytes, len - va_need A bytes)]) @ vs"
    "va_live A' = (addr, va_need A bytes) # va_live A"
    "va_live_bytes A' = va_live_bytes A + va_need A bytes"
    "va_align A' = va_align A"
proof -
  let ?n = "va_need A bytes"
  from assms(3) have nz: "bytes \<noteq> 0" by (auto simp: va_alloc_def)
  from assms(3) nz obtain len where
    f: "find (\<lambda>b. \<not> snd b < ?n) (va_free A) = Some (addr, len)"
    by (auto simp: va_alloc_def Let_def split: option.splits)
  from find_split [OF f] obtain us vs where fr: "va_free A = us @ (addr, len) # vs"
    and le: "?n \<le> len" and us: "\<forall>b \<in> set us. snd b < ?n" by auto
  have gap: "sorted_wrt gap (us @ (addr, len) # vs)" using assms(1) fr by (simp add: va_inv_def)
  then have ok: "om_ok (us @ (addr, len) # vs)" by (rule gap_sorted_om_ok)
  have al: "0 < va_align A" using assms(1) by (simp add: va_inv_def)
  have "unat addr + unat len \<le> hi"
    using va_inv_blockD(4) [OF assms(1), of "(addr, len)"] fr by simp
  then have e: "unat addr + unat len < 2 ^ 64" using assms(1) by (simp add: va_inv_def)
  have an: "unat (addr + ?n) = unat addr + unat ?n"
    using e le by (intro unat_add_64) (auto simp: word_le_unat)
  have np: "0 < unat ?n"
    using va_need_bounds(4) [OF al assms(2) nz] by (simp add: unat_gt_0)
  have split: "om_emplace (addr + ?n) v (us @ vs) = us @ (addr + ?n, v) # vs" for v
  proof (rule om_emplace_split)
    show "\<forall>p \<in> set us. fst p < addr + ?n"
      using gap np an by (auto simp: sorted_wrt_append gap_def word_less_unat)
    show "\<forall>p \<in> set vs. addr + ?n < fst p"
      using gap an le by (fastforce simp: sorted_wrt_append gap_def word_less_unat word_le_unat)
  qed
  have absent: "map_of (va_live A) addr = None"
    using va_inv_live_distinct [OF assms(1)] fr by (auto simp: map_of_eq_None_iff)
  have er: "om_erase addr (va_free A) = us @ vs" using om_erase_mid [OF ok] fr by simp
  have A': "A' = A\<lparr>va_free := (if len - ?n \<noteq> 0 then us @ (addr + ?n, len - ?n) # vs else us @ vs),
      va_live := (addr, ?n) # va_live A, va_live_bytes := va_live_bytes A + ?n\<rparr>"
    using assms(3) nz f er split absent
    by (auto simp: va_alloc_def Let_def um_emplace_def split: if_splits)
  show ?thesis
    by (rule that [OF fr le us nz]) (simp_all add: A')
qed

lemma va_alloc_inv:
  assumes inv: "va_inv lo hi A D" and "va_fits A bytes" "va_alloc A bytes = (Some addr, A')"
  shows "va_inv lo hi A' D"
  using assms
proof (rule va_alloc_SomeE)
  fix us len vs
  let ?n = "va_need A bytes" and ?r = "len - va_need A bytes"
  let ?rest = "if ?r = 0 then [] else [(addr + ?n, ?r)]"
  assume fr: "va_free A = us @ (addr, len) # vs" and le: "?n \<le> len" and nz: "bytes \<noteq> 0"
    and fr': "va_free A' = us @ ?rest @ vs" and live: "va_live A' = (addr, ?n) # va_live A"
    and bytes: "va_live_bytes A' = va_live_bytes A + ?n" and al': "va_align A' = va_align A"
  have al: "0 < va_align A" and hi: "hi < 2 ^ 64" using inv by (simp_all add: va_inv_def)
  note need = va_need_bounds [OF al assms(2)]
  have blk: "(addr, len) \<in> set (va_blocks A D)" using fr by simp
  note b = va_inv_blockD [OF inv this, simplified]
  have e: "unat addr + unat len \<le> hi" and a: "aligned (va_align A) (addr, len)" using b by simp_all
  have le': "unat ?n \<le> unat len" using le by (simp add: word_le_unat)
  have r: "unat ?r = unat len - unat ?n" using le by (rule unat_sub_64)
  have an: "unat (addr + ?n) = unat addr + unat ?n"
    using e hi le' by (intro unat_add_64) linarith
  have "cover (va_blocks A' D) x = cover (va_blocks A D) x" for x
    using ivl_split [of addr len ?n x] e hi le fr fr' live
    by (auto simp: mem_ivl r)
  then have "tiled lo hi (va_blocks A' D) \<longleftrightarrow> tiled lo hi (va_blocks A D)" by (rule tiled_cong)
  then have "tiled lo hi (va_blocks A' D)" using inv by (simp add: va_inv_def)
  moreover have "\<forall>b \<in> set (va_blocks A' D). snd b \<noteq> 0 \<and> aligned (va_align A') b"
    using inv a need(3) need(4) [OF nz] fr fr' live al' r an
    by (auto simp: va_inv_def aligned_def split: if_splits)
  moreover have "sorted_wrt gap (va_free A')"
    using inv fr fr' an r le' by (auto simp: va_inv_def sorted_wrt_append gap_def)
  moreover have "unat (va_live_bytes A') = live_sum (va_live A')"
  proof -
    have "live_sum (va_live A) + unat ?n \<le> hi"
      using va_inv_total [OF inv] fr le' by simp
    then have "unat (va_live_bytes A) + unat ?n < 2 ^ 64" using inv hi by (simp add: va_inv_def)
    then show ?thesis using inv bytes live by (simp add: unat_add_64 va_inv_def)
  qed
  ultimately show ?thesis using al hi al' by (simp add: va_inv_def)
qed

lemma va_alloc_disjoint:
  assumes "va_inv lo hi A D" "va_fits A bytes" "va_alloc A bytes = (Some addr, A')"
  shows "\<forall>b \<in> set (va_live A @ D). ivl (addr, va_need A bytes) \<inter> ivl b = {}"
proof -
  let ?n = "va_need A bytes"
  have "va_live A' = (addr, ?n) # va_live A" using assms by (rule va_alloc_SomeE)
  with va_alloc_inv [OF assms]
  have "tiled lo hi ((va_free A' @ [(addr, ?n)]) @ (va_live A @ D))" by (simp add: va_inv_def)
  from tiled_append_disjoint [OF this, of "(addr, ?n)"] show ?thesis by simp
qed

section \<open>Detach and release\<close>

lemma va_detach_inv:
  assumes inv: "va_inv lo hi A D" and det: "va_detach A addr = Some (sz, A')"
  shows "va_inv lo hi A' ((addr, sz) # D)"
proof -
  from det have mo: "map_of (va_live A) addr = Some sz"
    and A': "A' = A\<lparr>va_live := om_erase addr (va_live A), va_live_bytes := va_live_bytes A - sz\<rparr>"
    by (auto simp: va_detach_def split: option.splits)
  from map_of_SomeD [OF mo] obtain us vs where live: "va_live A = us @ (addr, sz) # vs"
    by (meson split_list)
  have "distinct (map fst (va_live A))" using va_inv_live_distinct [OF inv] by simp
  then have "om_erase addr (va_live A) = us @ vs"
    using live om_erase_distinct [of us addr sz vs] by simp
  then have live': "va_live A' = us @ vs" using A' by simp
  have "tiled lo hi (va_blocks A' ((addr, sz) # D)) \<longleftrightarrow> tiled lo hi (va_blocks A D)"
    using live live' A' by (intro tiled_cong) simp
  moreover have "unat (va_live_bytes A') = live_sum (va_live A')"
  proof -
    have "sz \<le> va_live_bytes A" using inv live by (simp add: va_inv_def word_le_unat)
    then show ?thesis using inv A' live live' by (simp add: unat_sub_64 va_inv_def)
  qed
  ultimately show ?thesis using inv A' live live' by (auto simp: va_inv_def)
qed

lemma va_detach_None: "va_detach A addr = None \<longleftrightarrow> addr \<notin> fst ` set (va_live A)"
  by (cases "map_of (va_live A) addr")
    (simp_all add: va_detach_def map_of_eq_None_iff [symmetric])

text \<open>Joining a block that touches none of the free ones with its right neighbour. \<open>R\<close> bounds
  the addresses, so the sums do not wrap.\<close>

lemma join_next_split:
  assumes xs: "\<forall>p \<in> set xs. fst p < addr" and ys: "\<forall>p \<in> set ys. unat addr + unat len \<le> unat (fst p)"
    and gap: "sorted_wrt gap ys" and hi: "hi < 2 ^ 64"
    and le: "\<forall>p \<in> set ((addr, len) # ys). unat (fst p) + unat (snd p) \<le> hi"
    and ok: "om_ok (xs @ ys)"
  obtains len' ys' where "join_next addr len (xs @ ys) = (len', xs @ ys')"
    "\<And>x. cover ((addr, len') # ys') x = cover ((addr, len) # ys) x"
    "\<forall>p \<in> set ys'. gap (addr, len') p" "set ys' \<subseteq> set ys" "sorted_wrt gap ys'"
    "unat addr + unat len' \<le> hi" "len \<le> len'"
    "\<And>al. unat al dvd unat len \<Longrightarrow> \<forall>p \<in> set ys. aligned al p \<Longrightarrow> unat al dvd unat len'"
proof -
  have ge: "\<forall>p \<in> set ys. addr \<le> fst p" using ys by (auto simp: word_le_unat)
  have jn: "join_next addr len (xs @ ys) = (case om_head ys of
        Some (b, m) \<Rightarrow> if b = addr + len then (len + m, om_erase b (xs @ ys)) else (len, xs @ ys)
      | None \<Rightarrow> (len, xs @ ys))"
    using om_lower_bound_split [OF xs ge] by (simp add: join_next_def)
  have end_eq: "unat (addr + len) = unat addr + unat len"
    using le hi by (intro unat_block_end) auto
  show ?thesis
  proof (cases ys)
    case Nil
    with jn le show ?thesis by (intro that [of len "[]"]) (auto simp: om_head_def)
  next
    case (Cons q zs)
    obtain b m where q: "q = (b, m)" by (cases q)
    show ?thesis
    proof (cases "b = addr + len")
      case True
      have ub: "unat b = unat addr + unat len" using True end_eq by simp
      have bm: "unat b + unat m \<le> hi" using le Cons q by simp
      have lm: "unat (len + m) = unat len + unat m"
        using bm ub hi by (intro unat_add_64) linarith
      have er: "om_erase b (xs @ ys) = xs @ zs" using om_erase_mid ok Cons q by metis
      show ?thesis
      proof (rule that [of "len + m" zs])
        show "join_next addr len (xs @ ys) = (len + m, xs @ zs)"
          using jn Cons q True er by (simp add: om_head_def)
        show "cover ((addr, len + m) # zs) x = cover ((addr, len) # ys) x" for x
          using Cons q lm ub by (auto simp: mem_ivl)
        show "\<forall>p \<in> set zs. gap (addr, len + m) p"
          using gap Cons q lm ub by (auto simp: gap_def)
        show "len \<le> len + m" using lm by (simp add: word_le_unat)
      qed (use Cons q gap lm ub bm in \<open>auto simp: aligned_def\<close>)
    next
      case False
      then have "unat addr + unat len < unat b"
        using ys Cons q end_eq by (simp add: word_eq_unat le_less)
      then have "\<forall>p \<in> set ys. gap (addr, len) p"
        using gap Cons q by (auto simp: gap_def)
      with False Cons q jn gap le show ?thesis
        by (intro that [of len ys]) (auto simp: om_head_def)
    qed
  qed
qed

lemma join_prev_split:
  assumes xs: "\<forall>p \<in> set xs. fst p < addr" and ys: "\<forall>p \<in> set ys. gap (addr, len) p"
    and gap: "sorted_wrt gap (xs @ ys)" and hi: "hi < 2 ^ 64"
    and le: "\<forall>p \<in> set ((addr, len) # xs). unat (fst p) + unat (snd p) \<le> hi"
    and sep: "\<forall>p \<in> set xs. unat (fst p) + unat (snd p) \<le> unat addr" and nz: "len \<noteq> 0"
  obtains st len' xs' where "join_prev addr len (xs @ ys) = (st, len', xs' @ ys)"
    "\<And>x. cover ((st, len') # xs') x = cover ((addr, len) # xs) x"
    "\<forall>p \<in> set xs'. gap p (st, len')" "set xs' \<subseteq> set xs" "sorted_wrt gap (xs' @ (st, len') # ys)"
    "unat st + unat len' = unat addr + unat len" "st \<le> addr" "len' \<noteq> 0"
    "\<And>al. aligned al (addr, len) \<Longrightarrow> \<forall>p \<in> set xs. aligned al p \<Longrightarrow> aligned al (st, len')"
proof -
  have ge: "\<forall>p \<in> set ys. addr \<le> fst p" using ys by (auto simp: gap_def word_le_unat)
  have jp: "join_prev addr len (xs @ ys) = (case (if xs = [] then None else Some (last xs)) of
        Some (p, q) \<Rightarrow> if p + q = addr then (p, len + q, om_erase p (xs @ ys)) else (addr, len, xs @ ys)
      | None \<Rightarrow> (addr, len, xs @ ys))"
    using om_before_split [OF xs ge] by (simp add: join_prev_def)
  show ?thesis
  proof (cases xs rule: rev_cases)
    case Nil
    with jp gap ys nz show ?thesis by (intro that [of addr len "[]"]) auto
  next
    case (snoc ws w)
    obtain p q where w: "w = (p, q)" by (cases w)
    have pq: "unat p + unat q \<le> unat addr" using sep snoc w by simp
    have upq: "unat (p + q) = unat p + unat q"
      by (rule unat_add_64) (use le_less_trans [OF pq unat_less_64] in simp)
    show ?thesis
    proof (cases "p + q = addr")
      case True
      have ua: "unat addr = unat p + unat q" using True upq by simp
      have "unat addr + unat len \<le> hi" using le by simp
      then have lq: "unat (len + q) = unat len + unat q"
        using ua hi by (intro unat_add_64) linarith
      have er: "om_erase p (xs @ ys) = ws @ ys"
        using gap_sorted_om_ok [OF gap] snoc w om_erase_mid [of ws p q ys] by simp
      show ?thesis
      proof (rule that [of p "len + q" ws])
        show "join_prev addr len (xs @ ys) = (p, len + q, ws @ ys)"
          using jp snoc w True er by simp
        show "cover ((p, len + q) # ws) x = cover ((addr, len) # xs) x" for x
          using snoc w lq ua by (auto simp: mem_ivl)
        show "sorted_wrt gap (ws @ (p, len + q) # ys)"
          using gap ys snoc w lq ua by (auto simp: sorted_wrt_append gap_def)
        show "len + q \<noteq> 0" using lq nz by (metis add_is_0 unat_eq_0_iff)
      qed (use gap snoc w lq ua in \<open>auto simp: sorted_wrt_append gap_def aligned_def word_le_unat\<close>)
    next
      case False
      then have "unat p + unat q < unat addr" using pq upq by (simp add: word_eq_unat le_less)
      then have g: "\<forall>r \<in> set xs. gap r (addr, len)"
        using gap snoc w by (auto simp: sorted_wrt_append gap_def)
      with gap ys have "sorted_wrt gap (xs @ (addr, len) # ys)" by (auto simp: sorted_wrt_append)
      with False snoc w jp g nz show ?thesis by (intro that [of addr len xs]) auto
    qed
  qed
qed

lemma va_release_inv:
  assumes inv: "va_inv lo hi A D" and mem: "(addr, len) \<in> set D"
  shows "va_inv lo hi (va_release A addr len) (remove1 (addr, len) D)"
proof -
  let ?D = "remove1 (addr, len) D"
  have hi: "hi < 2 ^ 64" and gap: "sorted_wrt gap (va_free A)" using inv by (simp_all add: va_inv_def)
  have tile: "tiled lo hi (va_free A @ (va_live A @ D))" using inv by (simp add: va_inv_def)
  note blk = va_inv_blockD [OF inv, of "(addr, len)", simplified] 
  have nz: "len \<noteq> 0" and al: "aligned (va_align A) (addr, len)" and e: "unat addr + unat len \<le> hi"
    using blk mem by auto
  have dis: "ivl b \<inter> ivl (addr, len) = {}" if "b \<in> set (va_free A)" for b
    using tiled_append_disjoint [OF tile that] mem by simp
  from om_split [OF gap_sorted_om_ok [OF gap], of addr] obtain xs ys where
    fr: "va_free A = xs @ ys" and xs: "\<forall>p \<in> set xs. fst p < addr" and ys: "\<forall>p \<in> set ys. addr \<le> fst p"
    by blast
  have freeD: "snd b \<noteq> 0 \<and> aligned (va_align A) b \<and> unat (fst b) + unat (snd b) \<le> hi"
    if "b \<in> set (va_free A)" for b using va_inv_blockD [OF inv, of b] that by simp
  have ys': "\<forall>p \<in> set ys. unat addr + unat len \<le> unat (fst p)"
    using disjoint_order [of addr len] dis freeD ys fr by (metis Int_commute Un_iff prod.collapse set_append)
  have xs': "\<forall>p \<in> set xs. unat (fst p) + unat (snd p) \<le> unat addr"
    using disjoint_order [of _ _ addr len] dis nz xs fr
    by (metis Un_iff less_imp_le prod.collapse set_append)
  obtain len' zs where j1: "join_next addr len (xs @ ys) = (len', xs @ zs)"
    and c1: "\<And>x. cover ((addr, len') # zs) x = cover ((addr, len) # ys) x"
    and g1: "\<forall>p \<in> set zs. gap (addr, len') p" and sub1: "set zs \<subseteq> set ys" and s1: "sorted_wrt gap zs"
    and e1: "unat addr + unat len' \<le> hi" and le1: "len \<le> len'"
    and a1: "unat (va_align A) dvd unat len'"
  proof (rule join_next_split [OF xs ys' _ hi])
    show "sorted_wrt gap ys" "om_ok (xs @ ys)"
      using gap fr gap_sorted_om_ok by (auto simp: sorted_wrt_append)
    show "\<forall>p \<in> set ((addr, len) # ys). unat (fst p) + unat (snd p) \<le> hi" using e freeD fr by auto
  qed (use that al freeD fr in \<open>auto simp: aligned_def\<close>)
  have nz1: "len' \<noteq> 0" using nz le1 by (metis word_le_0_iff)
  have gap1: "sorted_wrt gap (xs @ zs)"
    using gap fr s1 sub1 by (auto simp: sorted_wrt_append)
  have le1': "\<forall>p \<in> set ((addr, len') # xs). unat (fst p) + unat (snd p) \<le> hi"
    using e1 freeD fr by auto
  obtain st len2 ws where j2: "join_prev addr len' (xs @ zs) = (st, len2, ws @ zs)"
    and c2: "\<And>x. cover ((st, len2) # ws) x = cover ((addr, len') # xs) x"
    and g2: "\<forall>p \<in> set ws. gap p (st, len2)" and sub2: "set ws \<subseteq> set xs"
    and s2: "sorted_wrt gap (ws @ (st, len2) # zs)" and nz2: "len2 \<noteq> 0"
    and a2: "aligned (va_align A) (st, len2)"
    using al a1 freeD fr
    by (rule_tac join_prev_split [OF xs g1 gap1 hi le1' xs' nz1]) (auto simp: aligned_def)
  have "om_emplace st len2 (ws @ zs) = ws @ (st, len2) # zs"
    by (rule om_emplace_split)
      (use gap_sorted_om_ok [OF s2] in \<open>auto simp: om_ok_append om_ok_Cons\<close>)
  then have A': "va_release A addr len = A\<lparr>va_free := ws @ (st, len2) # zs\<rparr>"
    using j1 j2 fr by (simp add: va_release_def)
  have "tiled lo hi (va_blocks (va_release A addr len) ?D) \<longleftrightarrow> tiled lo hi (va_blocks A D)"
  proof (rule tiled_cong)
    fix x
    show "cover (va_blocks (va_release A addr len) ?D) x = cover (va_blocks A D) x"
      using c1 [of x] c2 [of x] cover_remove1 [OF mem, of x] A' fr by simp
  qed
  moreover have "\<forall>b \<in> set (ws @ (st, len2) # zs). snd b \<noteq> 0 \<and> aligned (va_align A) b"
    using freeD sub1 sub2 fr nz2 a2 by auto
  moreover have "set ?D \<subseteq> set D" by (rule set_remove1_subset)
  ultimately show ?thesis using inv A' s2 by (auto simp: va_inv_def)
qed

lemma va_dealloc_inv:
  assumes "va_inv lo hi A D"
  shows "va_inv lo hi (snd (va_dealloc A addr)) D"
proof (cases "va_detach A addr")
  case None
  with assms show ?thesis by (simp add: va_dealloc_def)
next
  case (Some p)
  obtain sz A1 where p: "p = (sz, A1)" by (cases p)
  have "va_inv lo hi A1 ((addr, sz) # D)" using va_detach_inv assms Some p by blast
  from va_release_inv [OF this, of addr sz] show ?thesis using Some p by (simp add: va_dealloc_def)
qed

section \<open>The allocator's contract\<close>

text \<open>What the driver relies on: an allocation is a fresh range, owned ranges are disjoint and in
  bounds, and freeing gives back exactly the range that starts at the address.\<close>

locale range_allocator =
  fixes alloc :: "'s \<Rightarrow> u64 \<Rightarrow> u64 option \<times> 's"
    and dealloc :: "'s \<Rightarrow> u64 \<Rightarrow> bool \<times> 's"
    and owned :: "'s \<Rightarrow> (u64 \<times> u64) list"
    and fits :: "'s \<Rightarrow> u64 \<Rightarrow> bool"
    and ok :: "'s \<Rightarrow> bool"
    and lo hi :: nat
  assumes alloc_ok: "ok s \<Longrightarrow> fits s n \<Longrightarrow> alloc s n = (Some a, s') \<Longrightarrow> ok s'"
    and alloc_owned: "ok s \<Longrightarrow> fits s n \<Longrightarrow> alloc s n = (Some a, s') \<Longrightarrow>
          \<exists>l. owned s' = (a, l) # owned s \<and> n \<le> l"
    and alloc_fail: "alloc s n = (None, s') \<Longrightarrow> s' = s"
    and dealloc_ok: "ok s \<Longrightarrow> ok (snd (dealloc s a))"
    and dealloc_found: "fst (dealloc s a) \<longleftrightarrow> a \<in> fst ` set (owned s)"
    and dealloc_owned: "owned (snd (dealloc s a)) = om_erase a (owned s)"
    and owned_distinct: "ok s \<Longrightarrow> distinct (map fst (owned s))"
    and owned_disjoint: "ok s \<Longrightarrow> b \<in> set (owned s) \<Longrightarrow> c \<in> set (owned s) \<Longrightarrow> b \<noteq> c \<Longrightarrow>
          ivl b \<inter> ivl c = {}"
    and owned_bounds: "ok s \<Longrightarrow> b \<in> set (owned s) \<Longrightarrow>
          lo \<le> unat (fst b) \<and> unat (fst b) + unat (snd b) \<le> hi"
begin

lemma alloc_fresh:
  assumes "ok s" "fits s n" "alloc s n = (Some a, s')" "(a, l) \<in> set (owned s')" "b \<in> set (owned s)"
  shows "ivl (a, l) \<inter> ivl b = {}"
proof -
  obtain l' where o: "owned s' = (a, l') # owned s" using alloc_owned assms(1-3) by blast
  have ok': "ok s'" using alloc_ok assms(1-3) by blast
  have d: "a \<notin> fst ` set (owned s)" using owned_distinct [OF ok'] o by simp
  with assms(5) have "b \<noteq> (a, l)" by force
  with owned_disjoint [OF ok' assms(4), of b] o assms(5) show ?thesis by simp
qed

lemma dealloc_alloc_owned:
  assumes "ok s" "fits s n" "alloc s n = (Some a, s')"
  shows "owned (snd (dealloc s' a)) = owned s"
proof -
  obtain l where o: "owned s' = (a, l) # owned s" using alloc_owned assms by blast
  have "a \<notin> fst ` set (owned s)" using owned_distinct [OF alloc_ok [OF assms]] o by simp
  then show ?thesis using o by (simp add: dealloc_owned om_erase_Cons om_erase_absent)
qed

end

lemma va_live_release [simp]: "va_live (va_release A addr len) = va_live A"
  by (simp add: va_release_def split: prod.splits)

lemma va_alloc_None: "va_alloc A n = (None, A') \<Longrightarrow> A' = A"
  by (auto simp: va_alloc_def Let_def split: option.splits if_splits)

lemma va_live_dealloc: "va_live (snd (va_dealloc A a)) = om_erase a (va_live A)"
proof (cases "map_of (va_live A) a")
  case None
  then have "a \<notin> fst ` set (va_live A)" by (simp add: map_of_eq_None_iff)
  with None show ?thesis by (simp add: va_dealloc_def va_detach_def om_erase_absent)
next
  case (Some sz)
  then show ?thesis by (simp add: va_dealloc_def va_detach_def)
qed

interpretation va: range_allocator va_alloc va_dealloc va_live va_fits "\<lambda>A. va_inv lo hi A []" lo hi
  for lo hi
proof
  fix s s' n a assume ok: "va_inv lo hi s []" and fits: "va_fits s n" and al: "va_alloc s n = (Some a, s')"
  show "va_inv lo hi s' []" using ok fits al by (rule va_alloc_inv)
  have "0 < va_align s" using ok by (simp add: va_inv_def)
  note need = va_need_bounds(1) [OF this fits]
  show "\<exists>l. va_live s' = (a, l) # va_live s \<and> n \<le> l"
    using ok fits al by (rule va_alloc_SomeE) (use need in \<open>simp add: word_le_unat\<close>)
next
  fix s a
  show "fst (va_dealloc s a) \<longleftrightarrow> a \<in> fst ` set (va_live s)"
    using va_detach_None [of s a] by (cases "va_detach s a") (auto simp: va_dealloc_def)
next
  fix s b c assume ok: "va_inv lo hi s []" and bc: "b \<in> set (va_live s)" "c \<in> set (va_live s)" "b \<noteq> c"
  have "tiled lo hi (va_blocks s [])" using ok by (simp add: va_inv_def)
  then show "ivl b \<inter> ivl c = {}" by (rule tiled_disjoint) (use bc in auto)
next
  fix s b assume "va_inv lo hi s []" "b \<in> set (va_live s)"
  then show "lo \<le> unat (fst b) \<and> unat (fst b) + unat (snd b) \<le> hi"
    using va_inv_blockD(3,4) [of lo hi s "[]" b] by simp
next
  fix s assume "va_inv lo hi s []"
  from va_inv_live_distinct [OF this] show "distinct (map fst (va_live s))" by simp
next
  show "va_alloc s n = (None, s') \<Longrightarrow> s' = s" for s s' n by (rule va_alloc_None)
  show "va_inv lo hi s [] \<Longrightarrow> va_inv lo hi (snd (va_dealloc s a)) []" for s a by (rule va_dealloc_inv)
  show "va_live (snd (va_dealloc s a)) = om_erase a (va_live s)" for s a by (rule va_live_dealloc)
qed

lemma va_new_inv:
  assumes "unat base + unat sz < 2 ^ 64" "sz \<noteq> 0" "0 < al" "unat al dvd unat base" "unat al dvd unat sz"
  shows "va_inv (unat base) (unat base + unat sz) (va_new base sz al) []"
  using assms by (auto simp: va_inv_def va_new_def tiled_def mem_ivl aligned_def)

section \<open>Properties\<close>


text \<open>A run of bytes that no live or detached block touches lies in one free block, because free
  blocks are coalesced.\<close>

lemma free_run_in_block:
  assumes inv: "va_inv lo hi A D" and n: "0 < n" and run: "lo \<le> a" "a + n \<le> hi"
    and free: "\<forall>b \<in> set (va_live A @ D). {a ..< a + n} \<inter> ivl b = {}"
  shows "\<exists>b \<in> set (va_free A). {a ..< a + n} \<subseteq> ivl b"
proof -
  have gap: "sorted_wrt gap (va_free A)" using inv by (simp add: va_inv_def)
  have tile: "tiled lo hi (va_blocks A D)" using inv by (simp add: va_inv_def)
  have each: "\<exists>b \<in> set (va_free A). x \<in> ivl b" if "a \<le> x" "x < a + n" for x
  proof -
    have "cover (va_blocks A D) x = 1" using tile that run by (simp add: tiled_def)
    moreover have "cover (va_live A @ D) x = 0"
      unfolding cover_zero_iff using free that by (meson atLeastLessThan_iff disjoint_iff)
    ultimately have "cover (va_free A) x \<noteq> 0" by simp
    then show ?thesis by (auto simp: cover_zero_iff)
  qed
  have "\<exists>b \<in> set (va_free A). a \<in> ivl b" using n by (intro each) simp_all
  then obtain b where b: "b \<in> set (va_free A)" "a \<in> ivl b" ..
  have "x \<in> ivl b" if "a \<le> x" "x < a + n" for x
    using that
  proof (induction x rule: dec_induct)
    case base
    then show ?case using b by simp
  next
    case (step x)
    then have x: "x \<in> ivl b" by simp
    obtain c where c: "c \<in> set (va_free A)" "Suc x \<in> ivl c" using each [of "Suc x"] step by auto
    have "b = c"
    proof (rule ccontr)
      assume "b \<noteq> c"
      with gap b(1) c(1) have "gap b c \<or> gap c b" by (rule sorted_wrt_compare)
      then show False using x c(2) by (auto simp: gap_def ivl_def)
    qed
    then show ?case using c by simp
  qed
  then show ?thesis using b by (auto intro!: bexI [of _ b])
qed

text \<open>C29: First-fit never fails spuriously: \<^verbatim>\<open>alloc\<close> returns \<^verbatim>\<open>nullopt\<close> exactly when no run of bytes of
  the rounded-up size anywhere in the range is free of live and detached blocks. Coalescing in
  \<^verbatim>\<open>release\<close> is what makes the direction from left to right true.\<close>

theorem va_alloc_complete:
  assumes inv: "va_inv lo hi A D" and fits: "va_fits A bytes" and nz: "bytes \<noteq> 0"
  shows "fst (va_alloc A bytes) = None \<longleftrightarrow>
    \<not> (\<exists>a. lo \<le> a \<and> a + unat (va_need A bytes) \<le> hi \<and>
          (\<forall>b \<in> set (va_live A @ D). {a ..< a + unat (va_need A bytes)} \<inter> ivl b = {}))"
    (is "_ \<longleftrightarrow> \<not> (\<exists>a. ?run a)")
proof -
  let ?n = "va_need A bytes"
  have "0 < va_align A" using inv by (simp add: va_inv_def)
  from va_need_bounds(4) [OF this fits nz] have np: "0 < unat ?n" by (simp add: unat_gt_0)
  have fit: "fst (va_alloc A bytes) = None \<longleftrightarrow> (\<forall>b \<in> set (va_free A). snd b < ?n)"
    using nz find_None_iff [of "\<lambda>b. \<not> snd b < ?n" "va_free A"]
    by (cases "find (\<lambda>b. \<not> snd b < ?n) (va_free A)") (auto simp: va_alloc_def Let_def)
  have "(\<exists>b \<in> set (va_free A). ?n \<le> snd b) \<longleftrightarrow> (\<exists>a. ?run a)"
  proof
    assume "\<exists>b \<in> set (va_free A). ?n \<le> snd b"
    then obtain b where b: "b \<in> set (va_free A)" "?n \<le> snd b" by blast
    have tile: "tiled lo hi (va_free A @ (va_live A @ D))" using inv by (simp add: va_inv_def)
    have sub: "{unat (fst b) ..< unat (fst b) + unat ?n} \<subseteq> ivl b"
      using b(2) by (auto simp: ivl_def word_le_unat)
    have "{unat (fst b) ..< unat (fst b) + unat ?n} \<inter> ivl c = {}" if "c \<in> set (va_live A @ D)" for c
      using tiled_append_disjoint [OF tile b(1) that] sub by blast
    with va_inv_blockD(3,4) [OF inv, of b] b have "?run (unat (fst b))"
      by (simp add: word_le_unat)
    then show "\<exists>a. ?run a" ..
  next
    assume "\<exists>a. ?run a"
    then obtain a where "?run a" ..
    with free_run_in_block [OF inv np] obtain b where
      b: "b \<in> set (va_free A)" "{a ..< a + unat ?n} \<subseteq> ivl b" by blast
    then have "unat ?n \<le> card (ivl b)"
      using card_mono [of "ivl b" "{a ..< a + unat ?n}"] by (simp add: ivl_def)
    then show "\<exists>b \<in> set (va_free A). ?n \<le> snd b"
      using b by (auto simp: ivl_def word_le_unat intro!: bexI [of _ b])
  qed
  moreover have "(\<forall>b \<in> set (va_free A). snd b < ?n) \<longleftrightarrow> \<not> (\<exists>b \<in> set (va_free A). ?n \<le> snd b)"
    by (simp add: not_le)
  ultimately show ?thesis using fit by (simp only: simp_thms)
qed

text \<open>C30: Deferred frees are sound: detaching a live block and later releasing it keeps the invariant
  at each step, and any two different blocks among the free, live and still-detached ones stay
  disjoint, so a detached block is never handed out before it is released.\<close>

theorem va_detach_release_safe:
  assumes "va_inv lo hi A D" "va_detach A addr = Some (sz, A')"
  shows "va_inv lo hi A' ((addr, sz) # D) \<and>
    (\<forall>bytes a A''. va_fits A' bytes \<longrightarrow> va_alloc A' bytes = (Some a, A'') \<longrightarrow>
       ivl (a, va_need A' bytes) \<inter> ivl (addr, sz) = {}) \<and>
    va_inv lo hi (va_release A' addr sz) D"
proof -
  have inv': "va_inv lo hi A' ((addr, sz) # D)" using assms by (rule va_detach_inv)
  have "ivl (a, va_need A' bytes) \<inter> ivl (addr, sz) = {}"
    if "va_fits A' bytes" "va_alloc A' bytes = (Some a, A'')" for bytes a A''
    using va_alloc_disjoint [OF inv' that] by simp
  moreover have "va_inv lo hi (va_release A' addr sz) D"
    using va_release_inv [OF inv', of addr sz] by simp
  ultimately show ?thesis using inv' by blast
qed

text \<open>A block between gaps is not merged with the one below it.\<close>

lemma join_prev_gap:
  assumes "sorted_wrt gap (us @ (addr, len) # vs)"
  shows "join_prev addr len (us @ vs) = (addr, len, us @ vs)"
proof -
  have us: "\<forall>p \<in> set us. fst p < addr" and vs: "\<forall>p \<in> set vs. addr \<le> fst p"
    using assms by (fastforce simp: sorted_wrt_append gap_def word_less_unat word_le_unat)+
  have "p + q \<noteq> addr" if "(p, q) \<in> set us" for p q
  proof -
    have lt: "unat p + unat q < unat addr" using assms that by (auto simp: sorted_wrt_append gap_def)
    then have "unat (p + q) = unat p + unat q"
      by (intro unat_add_64) (use less_trans [OF lt unat_less_64] in simp)
    with lt show ?thesis by auto
  qed
  then show ?thesis
    using om_before_split [OF us vs] last_in_set [of us]
    by (cases "last us") (auto simp: join_prev_def)
qed

text \<open>C31: Freeing a block right after it was allocated restores the allocator exactly: the free list
  (its split undone by coalescing), the live map and the byte count.\<close>

theorem va_alloc_dealloc_roundtrip:
  assumes inv: "va_inv lo hi A D" and fits: "va_fits A bytes" and al: "va_alloc A bytes = (Some addr, A')"
  shows "va_dealloc A' addr = (True, A)"
proof -
  let ?n = "va_need A bytes"
  obtain us len vs where fr: "va_free A = us @ (addr, len) # vs" and le: "?n \<le> len"
    and fr': "va_free A' = us @ (if len - ?n = 0 then [] else [(addr + ?n, len - ?n)]) @ vs"
    and live': "va_live A' = (addr, ?n) # va_live A"
    and by': "va_live_bytes A' = va_live_bytes A + ?n" and al': "va_align A' = va_align A"
    using assms by (rule va_alloc_SomeE)
  have gap: "sorted_wrt gap (us @ (addr, len) # vs)" using inv fr by (simp add: va_inv_def)
  have absent: "addr \<notin> fst ` set (va_live A)"
    using va_inv_live_distinct [OF inv] fr by auto
  have det: "va_detach A' addr = Some (?n, A'\<lparr>va_live := va_live A, va_live_bytes := va_live_bytes A\<rparr>)"
    using live' by' absent by (simp add: va_detach_def om_erase_Cons om_erase_absent)
  have e: "unat addr + unat len < 2 ^ 64"
    using va_inv_blockD(4) [OF inv, of "(addr, len)"] fr inv by (simp add: va_inv_def)
  have an: "unat (addr + ?n) = unat addr + unat ?n"
    using e le by (intro unat_add_64) (simp add: word_le_unat)
  have us: "\<forall>p \<in> set us. fst p < addr" and vs: "\<forall>p \<in> set vs. addr < fst p"
    using gap by (fastforce simp: sorted_wrt_append gap_def word_less_unat)+
  have after: "\<forall>p \<in> set ((addr + ?n, len - ?n) # vs). addr \<le> fst p"
    using vs an by (auto simp: word_le_unat word_less_unat)
  have nx: "join_next addr ?n (va_free A') = (len, us @ vs)"
  proof (cases "len - ?n = 0")
    case True
    then have n: "?n = len" by simp
    have "\<forall>p \<in> set vs. fst p \<noteq> addr + len"
      using gap an n by (auto simp: sorted_wrt_append gap_def word_eq_unat)
    then show ?thesis
      using True n fr' om_lower_bound_split [OF us, of vs] after
      by (cases vs) (auto simp: join_next_def om_head_def)
  next
    case False
    have "om_ok (us @ (addr + ?n, len - ?n) # vs)"
      using gap_sorted_om_ok va_alloc_inv [OF assms] fr' False by (simp add: va_inv_def)
    then show ?thesis
      using False fr' om_lower_bound_split [OF us after]
      by (simp add: join_next_def om_head_def om_erase_mid)
  qed
  have pv: "join_prev addr len (us @ vs) = (addr, len, us @ vs)" using gap by (rule join_prev_gap)
  have "om_emplace addr len (us @ vs) = va_free A" using om_emplace_split [OF us vs] fr by simp
  then show ?thesis using det nx pv al' by (simp add: va_dealloc_def va_release_def)
qed

text \<open>The ownership test of the device-address checks: \<^verbatim>\<open>owns_range(addr, len)\<close> is true exactly when
  one live block contains the whole range, without wrap-around in the comparison.\<close>

theorem va_owns_range_iff:
  "va_owns_range A addr len \<longleftrightarrow>
     (\<exists>b \<in> set (va_live A). unat (fst b) \<le> unat addr \<and>
        unat addr + unat len \<le> unat (fst b) + unat (snd b))"
proof -
  have "start \<le> addr \<and> addr - start \<le> sz \<and> len \<le> sz - (addr - start) \<longleftrightarrow>
      unat start \<le> unat addr \<and> unat addr + unat len \<le> unat start + unat sz" for start sz
  proof (cases "start \<le> addr \<and> addr - start \<le> sz")
    case True
    then have "unat (sz - (addr - start)) = unat sz - (unat addr - unat start)"
      by (simp add: unat_sub_64)
    with True show ?thesis by (auto simp: word_le_unat unat_sub_64)
  qed (auto simp: word_le_unat unat_sub_64)
  then show ?thesis by (force simp: va_owns_range_def list_ex_iff)
qed

text \<open>A request within one alignment unit of \<open>2 ^ 64\<close> wraps in the round-up: \<^verbatim>\<open>alloc\<close> then hands out
  the first free block's address as a block of size 0 instead of failing. The caller's
  \<^verbatim>\<open>free\<close> of that address puts the allocator back exactly as it was.\<close>

theorem va_alloc_wraps:
  assumes inv: "va_inv lo hi A D" and wrap: "\<not> va_fits A bytes" and fr: "va_free A = (a, l) # fs"
  shows "\<exists>A'. va_alloc A bytes = (Some a, A') \<and> map_of (va_live A') a = Some 0 \<and>
     va_dealloc A' a = (True, A)"
proof -
  let ?al = "unat (va_align A)"
  have al: "0 < ?al" using inv by (simp add: va_inv_def word_less_unat)
  have "unat (va_align A - 1) = ?al - 1"
    using al by (simp add: unat_sub_64 word_le_unat)
  with unat_word_ariths(1) [of bytes "va_align A - 1"]
  have "unat (bytes + va_align A - 1) = (unat bytes + (?al - 1)) mod 2 ^ 64"
    by (simp add: add_diff_eq)
  also have "\<dots> = unat bytes + (?al - 1) - 2 ^ 64"
    using wrap al unat_less_64 [of bytes] unat_less_64 [of "va_align A"]
    by (subst mod_if, subst mod_less) (auto simp: va_fits_def)
  also have "\<dots> < ?al" using unat_less_64 [of bytes] al by simp
  finally have "unat ((bytes + va_align A - 1) div va_align A) = 0" by (simp add: unat_div)
  then have need: "va_need A bytes = 0" by (simp add: va_need_def)
  have nz: "bytes \<noteq> 0" using wrap unat_le_64 [of "va_align A"] by (auto simp: va_fits_def)
  have absent: "a \<notin> fst ` set (va_live A)" using va_inv_live_distinct [OF inv] fr by auto
  have gap: "sorted_wrt gap ((a, l) # fs)" using inv fr by (simp add: va_inv_def)
  then have fs: "\<forall>p \<in> set fs. a < fst p" by (auto simp: gap_def word_less_unat)
  have er: "om_erase a ((a, l) # fs) = fs" using om_erase_mid [of "[]" a l fs] gap_sorted_om_ok [OF gap] by simp
  have em: "om_emplace a l fs = (a, l) # fs" using om_emplace_split [of "[]" a fs l] fs by simp
  have l: "l \<noteq> 0" using va_inv_blockD(1) [OF inv, of "(a, l)"] fr by simp
  have bf: "om_before a fs = None" using om_before_split [of "[]" a fs] fs by (auto intro: less_imp_le)
  let ?A' = "A\<lparr>va_live := (a, 0) # va_live A\<rparr>"
  have "va_alloc A bytes = (Some a, ?A')"
    using nz need fr er em l absent
    by (simp add: va_alloc_def um_emplace_def map_of_eq_None_iff)
  moreover have "va_dealloc ?A' a = (True, A)"
    using fr absent er em bf l
    by (simp add: va_dealloc_def va_detach_def va_release_def join_next_def join_prev_def
        om_lower_bound_def om_head_def om_erase_Cons om_erase_absent)
  ultimately show ?thesis by auto
qed

section \<open>Witnesses\<close>

text \<open>A 16 KiB range with 4 KiB alignment; two blocks are live, the first is then detached.\<close>

definition ex_va :: vram_allocator where
  "ex_va = va_new 0 16384 4096"

definition ex_va2 :: vram_allocator where
  "ex_va2 = snd (va_alloc (snd (va_alloc ex_va 4096)) 5000)"

lemma ex_va_inv: "va_inv 0 16384 ex_va []"
  using va_new_inv [of 0 16384 4096] by (simp add: ex_va_def)

lemma ex_va2_eq: "ex_va2 = \<lparr>va_align = 4096, va_free = [(12288, 4096)],
    va_live = [(4096, 8192), (0, 4096)], va_live_bytes = 12288\<rparr>"
  by (simp add: ex_va2_def ex_va_def va_new_def va_alloc_def va_need_def om_erase_def um_emplace_def)

lemma ex_va2_inv: "va_inv 0 16384 ex_va2 []"
proof -
  obtain A1 where A1: "va_alloc ex_va 4096 = (Some 0, A1)" "A1 = snd (va_alloc ex_va 4096)"
    by (simp add: ex_va_def va_new_def va_alloc_def va_need_def om_erase_def um_emplace_def)
  have inv1: "va_inv 0 16384 A1 []"
    by (rule va_alloc_inv [OF ex_va_inv _ A1(1)]) (simp add: va_fits_def ex_va_def va_new_def)
  have A2: "va_alloc A1 5000 = (Some 4096, ex_va2)"
    by (simp add: A1(2) ex_va2_def ex_va_def va_new_def va_alloc_def va_need_def om_erase_def um_emplace_def)
  show ?thesis
    by (rule va_alloc_inv [OF inv1 _ A2])
      (simp add: A1(2) va_fits_def ex_va_def va_new_def va_alloc_def va_need_def)
qed

lemma ex_va2_fits: "va_fits ex_va2 4096"
  by (simp add: va_fits_def ex_va2_eq)

lemma ex_va2_alloc: "va_alloc ex_va2 4096 = (Some 12288, \<lparr>va_align = 4096, va_free = [],
    va_live = [(12288, 4096), (4096, 8192), (0, 4096)], va_live_bytes = 16384\<rparr>)"
  by (simp add: ex_va2_eq va_alloc_def va_need_def om_erase_def um_emplace_def)


theorem va_alloc_complete_witness:
  "fst (va_alloc ex_va2 8192) = None \<and>
   \<not> (\<exists>a. 0 \<le> a \<and> a + 8192 \<le> 16384 \<and>
         (\<forall>b \<in> set [(4096, 8192), (0, 4096)]. {a ..< a + 8192} \<inter> ivl b = {}))"
proof -
  have "fst (va_alloc ex_va2 8192) = None"
    by (simp add: ex_va2_eq va_alloc_def va_need_def)
  then show ?thesis
    using va_alloc_complete [OF ex_va2_inv, of 8192] by (simp add: va_fits_def ex_va2_eq va_need_def)
qed

theorem va_detach_release_safe_witness:
  "\<exists>A'. va_detach ex_va2 4096 = Some (8192, A') \<and> va_inv 0 16384 A' [(4096, 8192)] \<and>
     va_inv 0 16384 (va_release A' 4096 8192) [] \<and>
     va_free (va_release A' 4096 8192) = [(4096, 12288)]"
proof -
  let ?A' = "ex_va2\<lparr>va_live := [(0, 4096)], va_live_bytes := 4096\<rparr>"
  have "va_detach ex_va2 4096 = Some (8192, ?A')"
    by (simp add: va_detach_def ex_va2_eq om_erase_def)
  moreover have "va_free (va_release ?A' 4096 8192) = [(4096, 12288)]"
    by (simp add: va_release_def ex_va2_eq join_next_def join_prev_def om_lower_bound_def om_head_def
        om_before_def om_erase_def)
  ultimately show ?thesis using va_detach_release_safe [OF ex_va2_inv] by blast
qed

theorem va_alloc_dealloc_roundtrip_witness:
  "va_dealloc (snd (va_alloc ex_va2 4096)) 12288 = (True, ex_va2)"
  using va_alloc_dealloc_roundtrip [OF ex_va2_inv ex_va2_fits ex_va2_alloc]
  by (simp add: ex_va2_alloc)

theorem va_alloc_wraps_witness:
  "\<exists>A'. va_alloc ex_va2 0xFFFFFFFFFFFFFFFF = (Some 12288, A') \<and> map_of (va_live A') 12288 = Some 0 \<and>
     va_dealloc A' 12288 = (True, ex_va2)"
  by (rule va_alloc_wraps [OF ex_va2_inv, where l = 4096 and fs = "[]"])
    (simp_all add: va_fits_def ex_va2_eq)

end
