(* ===== verification/Managed.thy ===== *)
theory Managed
  imports Commands Vram_Alloc
begin

text \<open>
  Managed memory (\<^verbatim>\<open>src/src/driver/driver.cpp\<close>, the part that runs under \<^verbatim>\<open>mem_lock\<close>): migration of a faulting
  page into VRAM, CLOCK eviction, write-back with and without \<^verbatim>\<open>userfaultfd\<close>, prefetch, the release of a
  freed range, and the handlers of device and host faults. \<^verbatim>\<open>quiesce\<close> has no effect here: these are the
  steps between the commands of the engines.

  The kernel's part of \<^verbatim>\<open>userfaultfd\<close> is the argument \<open>os\<close>: which \<^verbatim>\<open>UFFDIO_COPY\<close> calls fail and which
  \<^verbatim>\<open>madvise\<close> calls succeed. The invariant \<open>mgr_inv\<close> ties the page table, the frame allocator and the CLOCK
  list together, and every operation keeps it and keeps the contents of memory.
\<close>

section \<open>State\<close>

record managed_span =
  ms_end :: u64
  ms_host :: u64

record fault_stream =
  fs_next :: u64
  fs_used :: u64

definition kFaultStreams :: nat where "kFaultStreams = 4"

datatype pending_kind = kVram | kManaged | kPin

record pending =
  pd_kind :: pending_kind
  pd_addr :: u64
  pd_size :: u64
  pd_host :: u64
  pd_fence :: "u32 \<Rightarrow> u32 \<Rightarrow> u64"

record mem_mgr =
  mm_mem :: dev_mem
  mm_vram :: vram_allocator
  mm_managed_va :: vram_allocator
  mm_resident :: "u64 list"
  mm_ranges :: "(u64, managed_span) omap"
  mm_uffd :: bool
  mm_prefetch_pages :: u64
  mm_streams :: "u32 \<Rightarrow> u32 \<Rightarrow> fault_stream list"
  mm_stream_clock :: u64
  mm_migrations :: u64
  mm_prefetches :: u64
  mm_evictions :: u64
  mm_writebacks :: u64
  mm_bytes_migrated :: u64
  mm_host_faults :: u64

abbreviation mm_mmu :: "mem_mgr \<Rightarrow> mmu" where
  "mm_mmu s \<equiv> dm_mmu (mm_mem s)"

definition put_mmu :: "mmu \<Rightarrow> mem_mgr \<Rightarrow> mem_mgr" where
  "put_mmu m s = s\<lparr>mm_mem := (mm_mem s)\<lparr>dm_mmu := m\<rparr>\<rparr>"

record uffd_os =
  uo_copy :: "u64 \<Rightarrow> errno option"
  uo_dontneed :: "u64 \<Rightarrow> bool"

section \<open>Operations\<close>

text \<open>\<^verbatim>\<open>UFFDIO_COPY\<close> fills a missing page and reports \<^verbatim>\<open>EEXIST\<close> for one that has contents; the driver takes
  \<^verbatim>\<open>EEXIST\<close> as success.\<close>

definition uffd_copy_page :: "uffd_os \<Rightarrow> u64 \<Rightarrow> (u64 \<Rightarrow> u8) \<Rightarrow> dev_mem \<Rightarrow> errno option \<times> dev_mem" where
  "uffd_copy_page os to bytes d =
     (case (if dm_missing d to then uo_copy os to else Some EEXIST) of
        Some err \<Rightarrow> (if err = EEXIST then None else Some err, d)
      | None \<Rightarrow> (None, d\<lparr>dm_host := blit to 0 SG_PAGE_SIZE bytes (dm_host d),
                          dm_missing := (dm_missing d)(to := False)\<rparr>))"

definition count_writeback :: "bool \<Rightarrow> mem_mgr \<Rightarrow> mem_mgr" where
  "count_writeback dirty s =
     s\<lparr>mm_writebacks := (if dirty then mm_writebacks s + 1 else mm_writebacks s),
       mm_bytes_migrated := mm_bytes_migrated s + SG_PAGE_SIZE\<rparr>"

definition publish_host :: "uffd_os \<Rightarrow> u64 \<Rightarrow> u64 \<Rightarrow> bool \<Rightarrow> mem_mgr \<Rightarrow> errno option \<times> mem_mgr" where
  "publish_host os hp pa dirty s =
     (if \<not> mm_uffd s then
        if \<not> dirty then (None, s)
        else case copy_out pa hp (mm_mem s) of
            (Some er, _) \<Rightarrow> (Some er, s)
          | (None, d) \<Rightarrow> (None, count_writeback True (s\<lparr>mm_mem := d\<rparr>))
      else if page_offset pa \<noteq> 0 \<or> pa \<ge> dm_vram_size (mm_mem s) then (Some EFAULT, s)
      else case uffd_copy_page os hp (\<lambda>i. dm_vram (mm_mem s) (pa + i)) (mm_mem s) of
          (Some er, _) \<Rightarrow> (Some er, s)
        | (None, d) \<Rightarrow> (None, count_writeback dirty (s\<lparr>mm_mem := d\<rparr>)))"

definition forget_resident :: "u64 \<Rightarrow> mem_mgr \<Rightarrow> mem_mgr" where
  "forget_resident va s = s\<lparr>mm_resident := remove1 va (mm_resident s)\<rparr>"

definition evict_locked :: "uffd_os \<Rightarrow> u64 \<Rightarrow> mem_mgr \<Rightarrow> u64 option \<times> mem_mgr" where
  "evict_locked os va s =
     (let pg = page va (mm_mmu s);
          (old, m1) = begin_evict va (mm_mmu s)
      in if old AND PTE_IN_VRAM = 0 \<or> pi_host pg = 0 then (None, put_mmu m1 s)
         else let (late, m2) = end_evict va m1;
                  pa = pte_pa old;
                  dirty = (old OR late) AND PTE_DIRTY \<noteq> 0
              in case publish_host os (pi_host pg) pa dirty (put_mmu m2 s) of
                   (Some er, s1) \<Rightarrow> (None, put_mmu (snd (make_resident va pa (mm_mmu s1))) s1)
                 | (None, s1) \<Rightarrow>
                     (Some pa, forget_resident va (s1\<lparr>mm_evictions := mm_evictions s1 + 1\<rparr>)))"

text \<open>CLOCK: at most one turn over the list, clearing reference bits and moving referenced pages to the
  back.\<close>

fun clock_scan :: "nat \<Rightarrow> u64 list \<Rightarrow> mmu \<Rightarrow> u64 list \<times> mmu" where
  "clock_scan 0 rs m = (rs, m)"
| "clock_scan (Suc chances) [] m = ([], m)"
| "clock_scan (Suc chances) (va # rs) m =
     (let (accessed, m1) = test_and_clear_accessed va m
      in if accessed then clock_scan chances (rs @ [va]) m1 else (va # rs, m1))"

definition evict_one_locked :: "uffd_os \<Rightarrow> mem_mgr \<Rightarrow> u64 option \<times> mem_mgr" where
  "evict_one_locked os s =
     (if mm_resident s = [] then (None, s)
      else let (rs, m) = clock_scan (length (mm_resident s)) (mm_resident s) (mm_mmu s)
           in evict_locked os (hd rs) (put_mmu m (s\<lparr>mm_resident := rs\<rparr>)))"

definition free_frame :: "u64 \<Rightarrow> mem_mgr \<Rightarrow> mem_mgr" where
  "free_frame pa s = s\<lparr>mm_vram := snd (va_dealloc (mm_vram s) pa)\<rparr>"

lemma put_mmu_sel [simp]:
  "mm_resident (put_mmu m s) = mm_resident s" "mm_vram (put_mmu m s) = mm_vram s"
  "mm_mem (put_mmu m s) = (mm_mem s)\<lparr>dm_mmu := m\<rparr>" "mm_uffd (put_mmu m s) = mm_uffd s"
  "mm_ranges (put_mmu m s) = mm_ranges s" "mm_managed_va (put_mmu m s) = mm_managed_va s"
  by (simp_all add: put_mmu_def)

lemma publish_host_sel:
  assumes "publish_host os hp pa dirty s = (rc, s')"
  shows "mm_resident s' = mm_resident s" "mm_vram s' = mm_vram s" "mm_uffd s' = mm_uffd s" "mm_ranges s' = mm_ranges s"
    "mm_managed_va s' = mm_managed_va s" "mm_mmu s' = mm_mmu s"
  using assms
  by (auto simp: publish_host_def count_writeback_def copy_out_def uffd_copy_page_def split: if_splits option.splits prod.splits)

lemma evict_locked_Some_resident:
  "evict_locked os va s = (Some pa, s') \<Longrightarrow> mm_resident s' = remove1 va (mm_resident s)"
  by (auto simp: evict_locked_def Let_def forget_resident_def split: if_splits option.splits prod.splits dest: publish_host_sel(1))

function evict_all_locked :: "uffd_os \<Rightarrow> mem_mgr \<Rightarrow> mem_mgr" where
  "evict_all_locked os s =
     (case mm_resident s of
        [] \<Rightarrow> s
      | va # rs \<Rightarrow>
          (case evict_locked os va s of
             (None, s1) \<Rightarrow> s1
           | (Some pa, s1) \<Rightarrow> evict_all_locked os (free_frame pa s1)))"
  by pat_completeness auto

termination
  by (relation "measure (\<lambda>(os, s). length (mm_resident s))")
    (auto simp: free_frame_def dest!: evict_locked_Some_resident [OF sym])

declare evict_all_locked.simps [simp del]

text \<open>\<^verbatim>\<open>MADV_DONTNEED\<close> on the host copy of a page that is now in VRAM.\<close>

definition drop_host :: "uffd_os \<Rightarrow> u64 \<Rightarrow> mem_mgr \<Rightarrow> mem_mgr" where
  "drop_host os hp s =
     (if mm_uffd s \<and> uo_dontneed os hp
      then s\<lparr>mm_mem := (mm_mem s)\<lparr>dm_host := memset_bytes hp 0 SG_PAGE_SIZE (dm_host (mm_mem s)),
              dm_missing := (dm_missing (mm_mem s))(hp := True)\<rparr>\<rparr>
      else s)"

definition take_frame :: "uffd_os \<Rightarrow> mem_mgr \<Rightarrow> u64 option \<times> mem_mgr" where
  "take_frame os s =
     (case va_alloc (mm_vram s) SG_PAGE_SIZE of
        (Some pa, A) \<Rightarrow> (Some pa, s\<lparr>mm_vram := A\<rparr>)
      | (None, A) \<Rightarrow> evict_one_locked os (s\<lparr>mm_vram := A\<rparr>))"

definition note_migrated :: "u64 \<Rightarrow> mem_mgr \<Rightarrow> mem_mgr" where
  "note_migrated va s =
     s\<lparr>mm_resident := mm_resident s @ [va], mm_migrations := mm_migrations s + 1,
       mm_bytes_migrated := mm_bytes_migrated s + SG_PAGE_SIZE\<rparr>"

text \<open>\<^verbatim>\<open>migrate_locked\<close> returns its error and whether a page moved.\<close>

definition migrate_locked :: "uffd_os \<Rightarrow> u64 \<Rightarrow> mem_mgr \<Rightarrow> (errno option \<times> bool) \<times> mem_mgr" where
  "migrate_locked os va s =
     (let pg = page va (mm_mmu s) in
      if pi_kind pg = Vram then ((None, False), s)
      else if pi_kind pg \<noteq> Host \<or> pi_host pg = 0 then ((Some EFAULT, False), s)
      else case take_frame os s of
          (None, s1) \<Rightarrow> ((Some ENOMEM, False), s1)
        | (Some pa, s1) \<Rightarrow>
            (case copy_in pa (pi_host pg) (mm_mem s1) of
               (Some er, _) \<Rightarrow> ((Some er, False), free_frame pa s1)
             | (None, d) \<Rightarrow>
                 (case make_resident va pa (dm_mmu d) of
                    (Some er, m) \<Rightarrow> ((Some er, False), free_frame pa (s1\<lparr>mm_mem := d\<lparr>dm_mmu := m\<rparr>\<rparr>))
                  | (None, m) \<Rightarrow>
                      ((None, True), note_migrated va (drop_host os (pi_host pg) (s1\<lparr>mm_mem := d\<lparr>dm_mmu := m\<rparr>\<rparr>))))))"

text \<open>\<^verbatim>\<open>match_stream\<close>: the index of the stream whose next page this is, or of the least recently used one.\<close>

fun find_stream :: "u64 \<Rightarrow> fault_stream list \<Rightarrow> nat \<Rightarrow> nat \<Rightarrow> u64 \<Rightarrow> nat \<times> bool" where
  "find_stream va [] i lru lru_used = (lru, False)"
| "find_stream va (f # fs) i lru lru_used =
     (if fs_used f \<noteq> 0 \<and> fs_next f = va then (i, True)
      else if fs_used f < lru_used then find_stream va fs (Suc i) i (fs_used f)
      else find_stream va fs (Suc i) lru lru_used)"

definition set_stream :: "u32 \<Rightarrow> u32 \<Rightarrow> nat \<Rightarrow> fault_stream \<Rightarrow> mem_mgr \<Rightarrow> mem_mgr" where
  "set_stream e c i f s =
     s\<lparr>mm_streams := (mm_streams s)(e := (mm_streams s e)(c := (mm_streams s e c)[i := f]))\<rparr>"

definition match_stream :: "u32 \<Rightarrow> u32 \<Rightarrow> u64 \<Rightarrow> mem_mgr \<Rightarrow> (nat \<times> bool) \<times> mem_mgr" where
  "match_stream e c va s =
     (let fs = mm_streams s e c;
          (i, sequential) = find_stream va fs 0 0 (fs_used (fs ! 0));
          clk = mm_stream_clock s + 1
      in ((i, sequential), set_stream e c i ((fs ! i)\<lparr>fs_used := clk\<rparr>) (s\<lparr>mm_stream_clock := clk\<rparr>)))"

fun prefetch_loop :: "uffd_os \<Rightarrow> u64 \<Rightarrow> nat \<Rightarrow> u64 \<Rightarrow> mem_mgr \<Rightarrow> u64 \<times> mem_mgr" where
  "prefetch_loop os end_va 0 va s = (va, s)"
| "prefetch_loop os end_va (Suc budget) va s =
     (if va < end_va then
        case migrate_locked os va s of
          ((Some er, moved), s1) \<Rightarrow> (va, s1)
        | ((None, moved), s1) \<Rightarrow> prefetch_loop os end_va budget (va + SG_PAGE_SIZE)
            (if moved then s1\<lparr>mm_prefetches := mm_prefetches s1 + 1\<rparr> else s1)
      else (va, s))"

definition prefetch_budget :: "mem_mgr \<Rightarrow> u64" where
  "prefetch_budget s =
     (let capacity = (SG_VRAM_SIZE - va_live_bytes (mm_vram s)) div SG_PAGE_SIZE + of_nat (length (mm_resident s))
      in min (mm_prefetch_pages s) (if capacity div 2 > 0 then capacity div 2 - 1 else 0))"

definition prefetch_locked :: "uffd_os \<Rightarrow> u64 \<Rightarrow> mem_mgr \<Rightarrow> u64 \<times> mem_mgr" where
  "prefetch_locked os va s =
     (case om_upto va (mm_ranges s) of
        None \<Rightarrow> (va, s)
      | Some (start, sp) \<Rightarrow> prefetch_loop os (ms_end sp) (unat (prefetch_budget s)) va s)"

text \<open>\<^verbatim>\<open>recycle\<close>: unmap the range, then return its frames, then its host memory and its addresses.\<close>

fun collect_frames :: "u64 list \<Rightarrow> mem_mgr \<Rightarrow> u64 list \<times> mem_mgr" where
  "collect_frames [] s = ([], s)"
| "collect_frames (va # vas) s =
     (let pg = page va (mm_mmu s) in
      if pi_kind pg \<noteq> Vram then collect_frames vas s
      else let (frames, s1) = collect_frames vas (forget_resident va s) in (pi_pa pg # frames, s1))"

definition page_addrs :: "u64 \<Rightarrow> u64 \<Rightarrow> u64 list" where
  "page_addrs addr pages = map (\<lambda>i. addr + of_nat i * SG_PAGE_SIZE) [0 ..< unat pages]"

definition release_host :: "u64 \<Rightarrow> u64 \<Rightarrow> mem_mgr \<Rightarrow> mem_mgr" where
  "release_host hp bytes s =
     (if mm_uffd s then s\<lparr>mm_mem := (mm_mem s)\<lparr>dm_missing := (\<lambda>a. dm_missing (mm_mem s) a \<and> \<not> a - hp < bytes)\<rparr>\<rparr> else s)"

definition recycle :: "pending \<Rightarrow> mem_mgr \<Rightarrow> mem_mgr" where
  "recycle p s =
     (let pages = pd_size p div SG_PAGE_SIZE in
      case pd_kind p of
        kPin \<Rightarrow> s
      | kVram \<Rightarrow> free_frame (pd_addr p) (put_mmu (snd (unmap (pd_addr p) pages (mm_mmu s))) s)
      | kManaged \<Rightarrow>
          (let s0 = s\<lparr>mm_ranges := om_erase (pd_addr p) (mm_ranges s)\<rparr>;
               (frames, s1) = collect_frames (page_addrs (pd_addr p) pages) s0;
               s2 = put_mmu (snd (unmap (pd_addr p) pages (mm_mmu s1))) s1;
               s3 = release_host (pd_host p) (pd_size p) (fold free_frame frames s2)
           in s3\<lparr>mm_managed_va := snd (va_dealloc (mm_managed_va s3) (pd_addr p))\<rparr>))"

definition va_for_host :: "u64 \<Rightarrow> mem_mgr \<Rightarrow> u64 option" where
  "va_for_host hp s =
     (case find (\<lambda>(va, sp). ms_host sp \<le> hp \<and> hp - ms_host sp < ms_end sp - va) (mm_ranges s) of
        None \<Rightarrow> None
      | Some (va, sp) \<Rightarrow> Some (va + (hp - ms_host sp)))"

text \<open>The body of \<^verbatim>\<open>service_host_faults\<close> for one fault message: the flag says whether the handler issued a
  \<^verbatim>\<open>UFFDIO_WAKE\<close> (a successful copy wakes the thread by itself).\<close>

definition service_host_fault :: "uffd_os \<Rightarrow> u64 \<Rightarrow> mem_mgr \<Rightarrow> bool \<times> mem_mgr" where
  "service_host_fault os address s0 =
     (let hp = page_floor address;
          s = s0\<lparr>mm_host_faults := mm_host_faults s0 + 1\<rparr>
      in case va_for_host hp s of
           None \<Rightarrow> (True, s)
         | Some va \<Rightarrow>
             if pi_kind (page va (mm_mmu s)) = Vram then
               case evict_locked os va s of
                 (Some pa, s1) \<Rightarrow> (False, free_frame pa s1)
               | (None, s1) \<Rightarrow> (True, s1)
             else (True, s))"

text \<open>The body of \<^verbatim>\<open>service_faults\<close> for one fault of the device. The result is what is stored in the channel's
  \<^verbatim>\<open>fault_fail\<close>; the channel is unparked in every case.\<close>

definition service_fault :: "uffd_os \<Rightarrow> u32 \<Rightarrow> u32 \<Rightarrow> u64 \<Rightarrow> mem_mgr \<Rightarrow> errno option \<times> mem_mgr" where
  "service_fault os e c fva s =
     (let va = page_floor fva;
          ((rc, moved), s1) = migrate_locked os va s
      in if \<not> moved then (rc, s1)
         else let ((i, sequential), s2) = match_stream e c va s1;
                  s3 = set_stream e c i ((mm_streams s2 e c ! i)\<lparr>fs_next := va + SG_PAGE_SIZE\<rparr>) s2
              in if sequential \<and> mm_prefetch_pages s3 \<noteq> 0 then
                   let (nx, s4) = prefetch_locked os (va + SG_PAGE_SIZE) s3
                   in (rc, set_stream e c i ((mm_streams s4 e c ! i)\<lparr>fs_next := nx\<rparr>) s4)
                 else (rc, s3))"

section \<open>Invariant\<close>

definition managed_pages :: "mmu \<Rightarrow> u64 set" where
  "managed_pages m = {a. page_offset a = 0 \<and> resident m (vpn_of a) \<and> hosted m (vpn_of a)}"

definition clock_ok :: "mem_mgr \<Rightarrow> bool" where
  "clock_ok s \<longleftrightarrow> distinct (mm_resident s) \<and> set (mm_resident s) = managed_pages (mm_mmu s)"

abbreviation frame :: "mem_mgr \<Rightarrow> u64 \<Rightarrow> u64" where
  "frame s v \<equiv> pte_pa (mmu_pte (mm_mmu s) v)"

definition frames_live :: "mem_mgr \<Rightarrow> bool" where
  "frames_live s \<longleftrightarrow> (\<forall>v. resident (mm_mmu s) v \<longrightarrow>
     (if hosted (mm_mmu s) v then (frame s v, SG_PAGE_SIZE) \<in> set (va_live (mm_vram s))
      else \<exists>b \<in> set (va_live (mm_vram s)). unat (frame s v) \<in> ivl b))"

definition missing_ok :: "mem_mgr \<Rightarrow> bool" where
  "missing_ok s \<longleftrightarrow> (\<forall>v. hosted (mm_mmu s) v \<longrightarrow>
     dm_missing (mm_mem s) (mmu_host (mm_mmu s) v) = (mm_uffd s \<and> resident (mm_mmu s) v))"

text \<open>Memory is consistent, the frame allocator tiles VRAM, the CLOCK list holds exactly the managed pages in
  VRAM, every frame in use is a live block of the allocator (its own page-sized block for a managed page), and
  with \<^verbatim>\<open>userfaultfd\<close> the host pages without contents are exactly those of managed pages in VRAM.\<close>

definition mgr_inv :: "mem_mgr \<Rightarrow> bool" where
  "mgr_inv s \<longleftrightarrow> mem_inv (mm_mem s) \<and> va_inv 0 (unat (dm_vram_size (mm_mem s))) (mm_vram s) [] \<and>
     va_align (mm_vram s) = SG_PAGE_SIZE \<and> clock_ok s \<and> frames_live s \<and> missing_ok s"

text \<open>What the memory manager never changes while commands are parked.\<close>

definition keeps :: "mem_mgr \<Rightarrow> mem_mgr \<Rightarrow> bool" where
  "keeps s s' \<longleftrightarrow> mgr_inv s' \<and> env (mm_mem s) (mm_mem s') \<and> mmu_host (mm_mmu s') = mmu_host (mm_mmu s) \<and>
     mmu_npages (mm_mmu s') = mmu_npages (mm_mmu s) \<and> hosted (mm_mmu s') = hosted (mm_mmu s) \<and>
     dm_vram_size (mm_mem s') = dm_vram_size (mm_mem s) \<and> mm_uffd s' = mm_uffd s \<and>
     mm_ranges s' = mm_ranges s \<and> mm_managed_va s' = mm_managed_va s"

lemma env_trans: "env a b \<Longrightarrow> env b c \<Longrightarrow> env a c"
  by (simp add: env_def)

lemma env_refl: "mem_inv a \<Longrightarrow> env a a"
  by (simp add: env_def)

lemma keeps_trans [trans]: "keeps s t \<Longrightarrow> keeps t u \<Longrightarrow> keeps s u"
  unfolding keeps_def using env_trans [of "mm_mem s" "mm_mem t" "mm_mem u"] by simp

lemma keeps_refl: "mgr_inv s \<Longrightarrow> keeps s s"
  by (simp add: keeps_def env_refl mgr_inv_def)

lemma keeps_inv: "keeps s s' \<Longrightarrow> mgr_inv s'"
  by (simp add: keeps_def)

text \<open>The kernel as documented: \<^verbatim>\<open>EEXIST\<close> only for pages that have contents, and dropping a private anonymous
  page works.\<close>

definition uffd_sane :: "uffd_os \<Rightarrow> bool" where
  "uffd_sane os \<longleftrightarrow> (\<forall>a. uo_copy os a \<noteq> Some EEXIST) \<and> (\<forall>a. uo_dontneed os a)"

section \<open>Pages and frames\<close>

lemma page_eq:
  "page va m = (if resident m (vpn_of va) then \<lparr>pi_kind = Vram, pi_host = mmu_host m (vpn_of va), pi_pa = pte_pa (mmu_pte m (vpn_of va))\<rparr>
     else if vpn_of va < mmu_npages m \<and> presentp (mmu_pte m (vpn_of va))
     then \<lparr>pi_kind = Host, pi_host = mmu_host m (vpn_of va), pi_pa = 0\<rparr> else no_page)"
  by (auto simp: page_def Let_def resident_def vpn_of_def flag_test)

lemma vpn_page_inj: "page_offset a = 0 \<Longrightarrow> page_offset b = 0 \<Longrightarrow> vpn_of a = vpn_of b \<Longrightarrow> a = b"
  using page_recompose [of a] page_recompose [of b] by simp

lemma pte_pa_aligned: "page_offset (pte_pa p) = 0"
  by (simp add: page_offset_0_iff pte_pa_frame push_bit_eq_mult unat_word_ariths mod_mod_cancel)

lemma entry_views:
  assumes "\<And>u. u \<noteq> v \<Longrightarrow> mmu_pte m' u = mmu_pte m u" "mmu_host m' = mmu_host m" "mmu_npages m' = mmu_npages m"
    "presentp (mmu_pte m v)" "presentp (mmu_pte m' v)"
  shows "hosted m' = hosted m" "resident m' = (resident m)(v := v < mmu_npages m \<and> in_vramp (mmu_pte m' v))"
proof -
  have "hosted m' u = hosted m u" for u using assms by (cases "u = v") (simp_all add: hosted_def)
  then show "hosted m' = hosted m" by (rule ext)
  have "resident m' u = ((resident m)(v := v < mmu_npages m \<and> in_vramp (mmu_pte m' v))) u" for u
    using assms by (cases "u = v") (auto simp: resident_def)
  then show "resident m' = (resident m)(v := v < mmu_npages m \<and> in_vramp (mmu_pte m' v))" by (rule ext)
qed

lemma mem_inv_missing:
  assumes "mem_inv d" "\<And>v. resident (dm_mmu d) v \<Longrightarrow> hosted (dm_mmu d) v \<Longrightarrow> dm_missing d (mmu_host (dm_mmu d) v) \<Longrightarrow>
    mis (mmu_host (dm_mmu d) v)"
  shows "mem_inv (d\<lparr>dm_missing := mis\<rparr>)" "logical (d\<lparr>dm_missing := mis\<rparr>) = logical d"
  using assms by (auto simp: mem_inv_def clean_ok_def logical_def cong: translate_status.case_cong)

lemma frame_in_vram:
  assumes "mem_inv d" "resident (dm_mmu d) v"
  shows "pte_pa (mmu_pte (dm_mmu d) v) < dm_vram_size d"
proof -
  have "v < 2 ^ 52" using assms by (auto simp: resident_def mem_inv_def mmu_inv_def frames_ok_def intro: less_le_trans)
  from frame_base [OF this, of 0] have "vpn_of (push_bit 12 v) = v" "page_offset (push_bit 12 v) = 0"
    by (simp_all add: SG_PAGE_SIZE_def)
  with assms(2) have "phys (dm_mmu d) (push_bit 12 v) = Some (pte_pa (mmu_pte (dm_mmu d) v))" by (simp add: phys_iff)
  from phys_bound [OF _ this] assms(1) show ?thesis by (simp add: mem_inv_def)
qed

lemma unused_frame:
  assumes "mgr_inv s" "resident (mm_mmu s) v" "resident (mm_mmu s) u" "frame s v = frame s u"
  shows "u = v"
proof -
  have "frame_of (mmu_pte (mm_mmu s) v) = frame_of (mmu_pte (mm_mmu s) u)"
    using assms(4) frame_base(1) [OF frame_bound(2), of "mm_mmu s" v 0] frame_base(1) [OF frame_bound(2), of "mm_mmu s" u 0] assms(1-3)
    by (simp add: pte_pa_frame SG_PAGE_SIZE_def mgr_inv_def mem_inv_def)
  with assms show ?thesis by (simp add: mgr_inv_def mem_inv_def frames_inj_def)
qed


section \<open>Eviction\<close>

text \<open>Writing back a page that has just been taken out of the page table.\<close>

lemma publish_host_ok:
  assumes inv: "mgr_inv s" and sane: "uffd_sane os" and v: "resident (mm_mmu s) v" "hosted (mm_mmu s) v"
    and h: "h = mmu_host (mm_mmu s) v" and pa: "pa = frame s v" and dirty: "dirty \<longleftrightarrow> dirtyp (mmu_pte (mm_mmu s) v)"
    and pub: "publish_host os h pa dirty (put_mmu m2 s) = (rc, s1)"
  shows "rc = None \<Longrightarrow> \<exists>g mis. mm_mem s1 = (mm_mem s)\<lparr>dm_mmu := m2, dm_host := g, dm_missing := mis\<rparr> \<and>
      (\<forall>off < SG_PAGE_SIZE. g (h + off) = dm_vram (mm_mem s) (pa + off)) \<and>
      (\<forall>x. \<not> x - h < SG_PAGE_SIZE \<longrightarrow> g x = dm_host (mm_mem s) x) \<and>
      \<not> mis h \<and> (\<forall>a. a \<noteq> h \<longrightarrow> mis a = dm_missing (mm_mem s) a)"
    and "rc \<noteq> None \<Longrightarrow> s1 = put_mmu m2 s \<and> dm_missing (mm_mem s) h \<and> uo_copy os h \<noteq> None"
proof -
  let ?d = "mm_mem s"
  have mi: "mem_inv ?d" and mis: "dm_missing ?d h = mm_uffd s"
    using inv v h by (simp_all add: mgr_inv_def missing_ok_def)
  have ok: "page_offset pa = 0" "pa < dm_vram_size ?d" "h \<noteq> 0"
    using frame_in_vram [OF mi v(1)] v(2) by (simp_all add: pa pte_pa_aligned h hosted_def)
  have clean: "dm_host ?d (h + off) = dm_vram ?d (pa + off)" if "off < SG_PAGE_SIZE" "\<not> dirty" "\<not> mm_uffd s" for off
    using evict_clean [OF mi v] that mis dirty by (simp add: pa h)
  let ?ub = "blit h 0 SG_PAGE_SIZE (\<lambda>i. dm_vram ?d (pa + i)) (dm_host ?d)"
  have le: "\<not> dm_vram_size ?d \<le> pa" using ok(2) by (simp add: not_le)
  have u: "publish_host os h pa dirty (put_mmu m2 s) = (case uo_copy os h of
      None \<Rightarrow> (None, count_writeback dirty ((put_mmu m2 s)\<lparr>mm_mem := ?d\<lparr>dm_mmu := m2, dm_host := ?ub, dm_missing := (dm_missing ?d)(h := False)\<rparr>\<rparr>))
    | Some er \<Rightarrow> (Some er, put_mmu m2 s))" if "mm_uffd s"
    using that ok(1) le mis sane
    by (cases "uo_copy os h") (auto simp: publish_host_def uffd_copy_page_def uffd_sane_def)
  have n: "publish_host os h pa dirty (put_mmu m2 s) = (None, if dirty then count_writeback True ((put_mmu m2 s)\<lparr>mm_mem :=
      ?d\<lparr>dm_mmu := m2, dm_host := blit h pa SG_PAGE_SIZE (dm_vram ?d) (dm_host ?d)\<rparr>\<rparr>) else put_mmu m2 s)" if "\<not> mm_uffd s"
    using that ok(1,3) le by (simp add: publish_host_def copy_out_def)
  show "s1 = put_mmu m2 s \<and> dm_missing (mm_mem s) h \<and> uo_copy os h \<noteq> None" if "rc \<noteq> None"
    using pub that u n mis by (cases "mm_uffd s"; cases "uo_copy os h") simp_all
  show "\<exists>g mis. mm_mem s1 = ?d\<lparr>dm_mmu := m2, dm_host := g, dm_missing := mis\<rparr> \<and>
      (\<forall>off < SG_PAGE_SIZE. g (h + off) = dm_vram ?d (pa + off)) \<and>
      (\<forall>x. \<not> x - h < SG_PAGE_SIZE \<longrightarrow> g x = dm_host ?d x) \<and> \<not> mis h \<and> (\<forall>a. a \<noteq> h \<longrightarrow> mis a = dm_missing ?d a)"
    (is "\<exists>g mis. ?P g mis") if "rc = None"
  proof (cases "mm_uffd s")
    case True
    with pub that u have "mm_mem s1 = ?d\<lparr>dm_mmu := m2, dm_host := ?ub, dm_missing := (dm_missing ?d)(h := False)\<rparr>"
      by (cases "uo_copy os h") (auto simp: count_writeback_def)
    then have "?P ?ub ((dm_missing ?d)(h := False))" by (simp add: blit_def)
    then show ?thesis by blast
  next
    case False
    let ?g = "if dirty then blit h pa SG_PAGE_SIZE (dm_vram ?d) (dm_host ?d) else dm_host ?d"
    have "mm_mem s1 = ?d\<lparr>dm_mmu := m2, dm_host := ?g, dm_missing := dm_missing ?d\<rparr>"
      using pub n False by (auto simp: count_writeback_def)
    then have "?P ?g (dm_missing ?d)" using mis False clean by (simp add: blit_def)
    then show ?thesis by blast
  qed
qed


text \<open>A page put back into its frame after a failed write-back.\<close>

lemma repark_page:
  assumes inv: "mem_inv d" and v: "resident (dm_mmu d) v" "dm_missing d (mmu_host (dm_mmu d) v)"
    and m3: "mmu_inv m3" "\<And>u. u \<noteq> v \<Longrightarrow> mmu_pte m3 u = mmu_pte (dm_mmu d) u" "mmu_host m3 = mmu_host (dm_mmu d)"
      "mmu_npages m3 = mmu_npages (dm_mmu d)" "mmu_vram_pages m3 = mmu_vram_pages (dm_mmu d)"
    and q: "presentp (mmu_pte m3 v)" "in_vramp (mmu_pte m3 v)" "frame_of (mmu_pte m3 v) = frame_of (mmu_pte (dm_mmu d) v)"
  shows "mem_inv (d\<lparr>dm_mmu := m3\<rparr>)" "logical (d\<lparr>dm_mmu := m3\<rparr>) = logical d"
    "resident m3 = resident (dm_mmu d)" "hosted m3 = hosted (dm_mmu d)"
proof -
  let ?m = "dm_mmu d"
  have at: "presentp (mmu_pte ?m v)" "in_vramp (mmu_pte ?m v)" using v by (auto simp: resident_def)
  have eq: "presentp (mmu_pte m3 u) = presentp (mmu_pte ?m u)" "in_vramp (mmu_pte m3 u) = in_vramp (mmu_pte ?m u)"
    "frame_of (mmu_pte m3 u) = frame_of (mmu_pte ?m u)" for u
    using q at m3(2) by (cases "u = v"; simp)+
  show r: "resident m3 = resident ?m" and hs: "hosted m3 = hosted ?m"
    by (simp_all add: fun_eq_iff resident_def hosted_def eq m3)
  have pa: "pte_pa (mmu_pte m3 u) = pte_pa (mmu_pte ?m u)" for u by (simp add: pte_pa_frame eq)
  have "dirtyp (mmu_pte m3 u) = dirtyp (mmu_pte ?m u) \<or> dm_missing d (mmu_host ?m u)" for u
    using v(2) m3(2) by (cases "u = v") simp_all
  then have "clean_ok (d\<lparr>dm_mmu := m3\<rparr>)"
    using inv unfolding mem_inv_def clean_ok_def by (simp add: r hs pa m3(3)) metis
  moreover have "backing_ok m3" using inv by (simp add: mem_inv_def backing_ok_def eq hs m3)
  ultimately show "mem_inv (d\<lparr>dm_mmu := m3\<rparr>)"
    using inv m3(1,5) by (simp add: mem_inv_def frames_inj_def r eq)
  have "pt_lookup m3 x = pt_lookup ?m x" for x
    by (simp add: pt_lookup_def Let_def eq m3(4) pa)
  then show "logical (d\<lparr>dm_mmu := m3\<rparr>) = logical d" by (simp add: fun_eq_iff logical_def m3(3) cong: translate_status.case_cong)
qed

lemma evict_locked_absent:
  assumes "\<not> resident (mm_mmu s) (vpn_of va)"
  shows "evict_locked os va s = (None, s)"
proof -
  have "begin_evict va (mm_mmu s) = (0, mm_mmu s)"
    using assms by (auto simp: begin_evict_def Let_def resident_def vpn_of_def and_eq_resident flag_test not_less)
  then show ?thesis by (simp add: evict_locked_def put_mmu_def)
qed

text \<open>The two ends of an eviction, in terms of the page table.\<close>

definition evicts :: "u64 \<Rightarrow> mem_mgr \<Rightarrow> mem_mgr \<Rightarrow> bool" where
  "evicts v s s' \<longleftrightarrow> resident (mm_mmu s') = (resident (mm_mmu s))(v := False) \<and>
     (\<forall>u. u \<noteq> v \<longrightarrow> mmu_pte (mm_mmu s') u = mmu_pte (mm_mmu s) u)"

lemma evict_tables:
  assumes mi: "mem_inv d" and v: "v = vpn_of va" "hosted (dm_mmu d) v" "resident (dm_mmu d) v"
    and be: "begin_evict va (dm_mmu d) = (old, m1)" and ee: "end_evict va m1 = (late, m2)"
  shows "old = mmu_pte (dm_mmu d) v" "late = 0" "mmu_pte m2 v = PTE_PRESENT" "\<And>u. u \<noteq> v \<Longrightarrow> mmu_pte m2 u = mmu_pte (dm_mmu d) u"
    "mmu_host m2 = mmu_host (dm_mmu d)" "mmu_npages m2 = mmu_npages (dm_mmu d)" "mmu_inv m2"
    "mmu_vram_pages m2 = mmu_vram_pages (dm_mmu d)" "resident m2 = (resident (dm_mmu d))(v := False)" "hosted m2 = hosted (dm_mmu d)"
proof -
  let ?m = "dm_mmu d"
  let ?g0 = "blit (mmu_host ?m v) (pte_pa old) SG_PAGE_SIZE (dm_vram d) (dm_host d)"
  have g0: "\<And>off. off < SG_PAGE_SIZE \<Longrightarrow> ?g0 (mmu_host ?m v + off) = dm_vram d (pte_pa old + off)"
    "\<And>x. \<not> x - mmu_host ?m v < SG_PAGE_SIZE \<Longrightarrow> ?g0 x = dm_host d x" by (simp_all add: blit_def)
  note E0 = evict_page [OF mi v be ee, of ?g0]
  show B: "old = mmu_pte ?m v" "late = 0" "mmu_pte m2 v = PTE_PRESENT" "\<And>u. u \<noteq> v \<Longrightarrow> mmu_pte m2 u = mmu_pte ?m u"
    "mmu_host m2 = mmu_host ?m" "mmu_npages m2 = mmu_npages ?m"
    using E0(3-8) g0 by blast+
  have "mem_inv (d\<lparr>dm_mmu := m2, dm_host := ?g0\<rparr>)" using E0(1) g0 by blast
  then show "mmu_inv m2" "mmu_vram_pages m2 = mmu_vram_pages ?m" using mi by (simp_all add: mem_inv_def)
  have "presentp (mmu_pte ?m v)" "presentp (mmu_pte m2 v)" "\<not> in_vramp (mmu_pte m2 v)"
    using v(2) B(3) by (simp_all add: hosted_def pte_simps)
  with entry_views [of v m2 ?m] B(4-6) show "resident m2 = (resident ?m)(v := False)" "hosted m2 = hosted ?m" by simp_all
qed

lemma evict_done:
  assumes inv: "mgr_inv s" and va: "page_offset va = 0" "v = vpn_of va" and v: "hosted (mm_mmu s) v" "resident (mm_mmu s) v"
    and be: "begin_evict va (mm_mmu s) = (old, m1)" and ee: "end_evict va m1 = (late, m2)"
    and s': "mm_mem s' = (mm_mem s)\<lparr>dm_mmu := m2, dm_host := g, dm_missing := mis\<rparr>" "mm_vram s' = mm_vram s"
      "mm_resident s' = remove1 va (mm_resident s)" "mm_uffd s' = mm_uffd s" "mm_ranges s' = mm_ranges s" "mm_managed_va s' = mm_managed_va s"
    and g: "\<And>off. off < SG_PAGE_SIZE \<Longrightarrow> g (mmu_host (mm_mmu s) v + off) = dm_vram (mm_mem s) (frame s v + off)"
      "\<And>x. \<not> x - mmu_host (mm_mmu s) v < SG_PAGE_SIZE \<Longrightarrow> g x = dm_host (mm_mem s) x"
    and mis: "\<not> mis (mmu_host (mm_mmu s) v)" "\<And>a. a \<noteq> mmu_host (mm_mmu s) v \<Longrightarrow> mis a = dm_missing (mm_mem s) a"
  shows "keeps s s' \<and> evicts v s s'"
proof -
  let ?d = "mm_mem s" and ?m = "mm_mmu s"
  have mi: "mem_inv ?d" using inv by (simp add: mgr_inv_def)
  note B = evict_tables [OF mi va(2) v be ee]
  have E: "mem_inv (?d\<lparr>dm_mmu := m2, dm_host := g\<rparr>)" "logical (?d\<lparr>dm_mmu := m2, dm_host := g\<rparr>) = logical ?d"
    using evict_page(1,2) [OF mi va(2) v be ee, of g] g B(1) by blast+
  have other: "mmu_host ?m u \<noteq> mmu_host ?m v" if "hosted ?m u" "u \<noteq> v" for u
    using backing_okD(4) [OF _ that(1) v(1)] that(2) mi by (auto simp: mem_inv_def)
  let ?d2 = "?d\<lparr>dm_mmu := m2, dm_host := g\<rparr>"
  have keep: "mis (mmu_host m2 u)" if "resident m2 u" "hosted m2 u" "dm_missing ?d2 (mmu_host m2 u)" for u
    using that mis other [of u] by (auto simp: B(5,9,10) split: if_splits)
  have M: "mem_inv (mm_mem s')" "logical (mm_mem s') = logical ?d"
    using mem_inv_missing [of ?d2 mis] E keep by (simp_all add: s')
  have mm: "mm_mmu s' = m2" by (simp add: s')
  have mp: "managed_pages m2 = managed_pages ?m - {va}"
    using va vpn_page_inj [of _ va] by (auto simp: managed_pages_def B(9,10))
  have "clock_ok s'" using inv by (auto simp: clock_ok_def s' mp mgr_inv_def)
  moreover have "frames_live s'"
    using inv B(4) by (auto simp: frames_live_def s' mgr_inv_def B(9,10))
  moreover have "missing_ok s'"
    using inv mis other by (auto simp: missing_ok_def s' mgr_inv_def B(5,9,10))
  ultimately have "mgr_inv s'" using inv M by (simp add: mgr_inv_def s')
  moreover have "backs m2 = backs ?m" by (simp add: backs_def fun_eq_iff B(5,10))
  moreover have "g x = dm_host ?d x" if "\<not> backs ?m x" for x
    using that v(1) g(2) [of x] by (auto simp: backs_def)
  ultimately have "keeps s s'" using M B(5,6,10) by (simp add: keeps_def env_def s')
  then show ?thesis using B(4,9) by (simp add: evicts_def mm)
qed

lemma evict_rollback:
  assumes inv: "mgr_inv s" and va: "page_offset va = 0" "v = vpn_of va" and v: "hosted (mm_mmu s) v" "resident (mm_mmu s) v"
    and be: "begin_evict va (mm_mmu s) = (old, m1)" and ee: "end_evict va m1 = (late, m2)"
    and mh: "dm_missing (mm_mem s) (mmu_host (mm_mmu s) v)"
    and s': "s' = put_mmu (snd (make_resident va (frame s v) m2)) (put_mmu m2 s)"
  shows "keeps s s' \<and> resident (mm_mmu s') = resident (mm_mmu s) \<and> (\<forall>u. frame s' u = frame s u)"
proof -
  let ?d = "mm_mem s" and ?m = "mm_mmu s" and ?pa = "frame s v"
  let ?mr = "make_resident va ?pa m2"
  have mi: "mem_inv ?d" using inv by (simp add: mgr_inv_def)
  note B = evict_tables [OF mi va(2) v be ee]
  have "vpn_of ?pa = frame_of (mmu_pte ?m v)" "frame_of (mmu_pte ?m v) < mmu_vram_pages ?m"
    using frame_base(1) [OF frame_bound(2), of ?m v 0] frame_bound(1) [of ?m v] mi v(2)
    by (simp_all add: pte_pa_frame SG_PAGE_SIZE_def mem_inv_def)
  then have fr: "vpn_of ?pa = frame_of (mmu_pte ?m v)" "\<not> mmu_vram_pages m2 \<le> vpn_of ?pa" using B(8) by simp_all
  define q where "q = PTE_PRESENT OR PTE_IN_VRAM OR PTE_ACCESSED OR push_bit PTE_FRAME_SHIFT (vpn_of ?pa)"
  have al: "(va OR ?pa) AND (SG_PAGE_SIZE - 1) = 0"
    using va(1) pte_pa_aligned [of "mmu_pte ?m v"] by (simp add: or_and_eq_0 page_offset_def)
  have np: "\<not> mmu_npages m2 \<le> v" using v(2) B(6) by (simp add: resident_def not_le)
  have mr: "snd ?mr = tlb_invalidate_vpn v (bump_gen (set_pte v q m2))"
    using al fr(2) np B(3)
    by (simp add: make_resident_def Let_def q_def vpn_of_def [symmetric] va(2) [symmetric] pte_simps flag_test)
  have q: "presentp q" "in_vramp q" "frame_of q = frame_of (mmu_pte ?m v)"
    using vpn_of_less [of ?pa] fr(1) by (simp_all add: q_def pte_simps PTE_FRAME_SHIFT_def)
  have m3: "mmu_inv (snd ?mr)" by (rule make_resident_inv [OF B(7)])
  have R: "mem_inv (?d\<lparr>dm_mmu := snd ?mr\<rparr>)" "logical (?d\<lparr>dm_mmu := snd ?mr\<rparr>) = logical ?d"
    "resident (snd ?mr) = resident ?m" "hosted (snd ?mr) = hosted ?m"
    using repark_page [OF mi v(2) mh m3] B(4-6,8) q by (simp_all add: mr)
  have sel: "mm_mem s' = ?d\<lparr>dm_mmu := snd ?mr\<rparr>" "mm_vram s' = mm_vram s" "mm_resident s' = mm_resident s" "mm_uffd s' = mm_uffd s"
    "mm_ranges s' = mm_ranges s" "mm_managed_va s' = mm_managed_va s" "mm_mmu s' = snd ?mr" by (simp_all add: s')
  have fr': "frame s' u = frame s u" for u
    unfolding sel(7) mr using q B(4) by (cases "u = v") (simp_all add: pte_pa_frame)
  have hsel: "mmu_host (snd ?mr) = mmu_host ?m" "mmu_npages (snd ?mr) = mmu_npages ?m" using B(5,6) by (simp_all add: mr)
  have "mgr_inv s'"
    using inv R fr' hsel(1) by (simp add: mgr_inv_def clock_ok_def managed_pages_def frames_live_def missing_ok_def sel)
  then have "keeps s s'" using R hsel by (simp add: keeps_def env_def sel backs_def fun_eq_iff)
  then show ?thesis using fr' R(3) by (simp add: sel)
qed

lemma evict_locked_cases:
  assumes inv: "mgr_inv s" and sane: "uffd_sane os" and va: "page_offset va = 0" "v = vpn_of va"
    and v: "resident (mm_mmu s) v" "hosted (mm_mmu s) v" and ev: "evict_locked os va s = (r, s')"
  shows "keeps s s' \<and> mm_vram s' = mm_vram s \<and>
    (case r of
       Some pa \<Rightarrow> pa = frame s v \<and> evicts v s s' \<and> mm_resident s' = remove1 va (mm_resident s)
     | None \<Rightarrow> resident (mm_mmu s') = resident (mm_mmu s) \<and> mm_resident s' = mm_resident s \<and> (\<forall>u. frame s' u = frame s u))"
proof -
  let ?m = "mm_mmu s"
  let ?h = "mmu_host ?m v" and ?pa = "frame s v"
  have mi: "mem_inv (mm_mem s)" using inv by (simp add: mgr_inv_def)
  obtain old m1 where be: "begin_evict va ?m = (old, m1)" by fastforce
  obtain late m2 where ee: "end_evict va m1 = (late, m2)" by fastforce
  note B = evict_tables [OF mi va(2) v(2,1) be ee]
  have pg: "page va ?m = \<lparr>pi_kind = Vram, pi_host = ?h, pi_pa = ?pa\<rparr>" using v(1) by (simp add: page_eq va(2))
  have h0: "?h \<noteq> 0" "in_vramp (mmu_pte ?m v)" using v by (auto simp: hosted_def resident_def)
  obtain rc s1 where pub: "publish_host os ?h ?pa (dirtyp (mmu_pte ?m v)) (put_mmu m2 s) = (rc, s1)" by fastforce
  note P = publish_host_ok [OF inv sane v refl refl refl pub] and psel = publish_host_sel [OF pub, simplified]
  have ev': "(r, s') = (case rc of None \<Rightarrow> (Some ?pa, forget_resident va (s1\<lparr>mm_evictions := mm_evictions s1 + 1\<rparr>))
      | Some er \<Rightarrow> (None, put_mmu (snd (make_resident va ?pa (mm_mmu s1))) s1))"
    using ev pub h0 B(1,2) by (auto simp: evict_locked_def pg be ee flag_test Let_def split: option.splits)
  show ?thesis
  proof (cases rc)
    case None
    then obtain g mis where s1: "mm_mem s1 = (mm_mem s)\<lparr>dm_mmu := m2, dm_host := g, dm_missing := mis\<rparr>"
      and g: "\<And>off. off < SG_PAGE_SIZE \<Longrightarrow> g (?h + off) = dm_vram (mm_mem s) (?pa + off)" "\<And>x. \<not> x - ?h < SG_PAGE_SIZE \<Longrightarrow> g x = dm_host (mm_mem s) x"
      and mis: "\<not> mis ?h" "\<And>a. a \<noteq> ?h \<Longrightarrow> mis a = dm_missing (mm_mem s) a" using P(1) by blast
    have r: "r = Some ?pa" and s': "s' = forget_resident va (s1\<lparr>mm_evictions := mm_evictions s1 + 1\<rparr>)" using ev' None by simp_all
    have sel: "mm_mem s' = (mm_mem s)\<lparr>dm_mmu := m2, dm_host := g, dm_missing := mis\<rparr>" "mm_vram s' = mm_vram s"
      "mm_resident s' = remove1 va (mm_resident s)" "mm_uffd s' = mm_uffd s" "mm_ranges s' = mm_ranges s" "mm_managed_va s' = mm_managed_va s"
      using psel s1 by (simp_all add: s' forget_resident_def)
    have "keeps s s' \<and> evicts v s s'" by (rule evict_done [OF inv va v(2,1) be ee sel]) (use g mis in blast)+
    then show ?thesis using r sel by simp
  next
    case (Some er)
    then have s1: "s1 = put_mmu m2 s" and mh: "dm_missing (mm_mem s) ?h" using P(2) by simp_all
    have r: "r = None" and s': "s' = put_mmu (snd (make_resident va ?pa m2)) (put_mmu m2 s)" using ev' Some s1 by simp_all
    from evict_rollback [OF inv va v(2,1) be ee mh s'] show ?thesis by (simp add: r) (simp add: s')
  qed
qed

section \<open>Choosing a victim\<close>

lemma clock_scan_props:
  "clock_scan n rs m = (rs', m') \<Longrightarrow> mmu_inv m \<Longrightarrow> same_map m m' \<and> mmu_inv m' \<and> set rs' = set rs \<and> distinct rs' = distinct rs"
proof (induction n rs m arbitrary: rs' m' rule: clock_scan.induct)
  case (3 n va rs m)
  obtain acc m1 where t: "test_and_clear_accessed va m = (acc, m1)" by fastforce
  have m1: "same_map m m1" "mmu_inv m1"
    using test_and_clear_accessed_same [of m va] test_and_clear_accessed_inv [of m va] "3.prems"(2) t by auto
  show ?case
  proof (cases acc)
    case True
    with "3.prems"(1) t have "clock_scan n (rs @ [va]) m1 = (rs', m')" by simp
    from "3.IH" [OF t [symmetric] refl True this m1(2)] m1(1) show ?thesis by (auto intro: same_map_trans)
  next
    case False
    with "3.prems"(1) t m1 show ?thesis by auto
  qed
qed (auto intro: same_map_refl)

lemma keeps_same_map:
  assumes inv: "mgr_inv s" and m: "same_map (mm_mmu s) m'" "mmu_inv m'" and rs: "set rs = set (mm_resident s)" "distinct rs = distinct (mm_resident s)"
  shows "keeps s (put_mmu m' (s\<lparr>mm_resident := rs\<rparr>))"
proof -
  let ?d = "(mm_mem s)\<lparr>dm_mmu := m'\<rparr>"
  have mi: "mem_inv (mm_mem s)" using inv by (simp add: mgr_inv_def)
  note V = same_map_views [OF m(1)]
  have pa: "pte_pa (mmu_pte m' v) = frame s v" for v using m(1) by (simp add: pte_pa_frame same_map_def)
  have h: "mmu_host m' = mmu_host (mm_mmu s)" "mmu_npages m' = mmu_npages (mm_mmu s)" using m(1) by (simp_all add: same_map_def)
  have M: "mem_inv ?d" "logical ?d = logical (mm_mem s)" "backs m' = backs (mm_mmu s)"
    using mem_inv_same_map [OF mi m] logical_same_map [OF m(1)] backs_same_map [OF m(1)] by simp_all
  show ?thesis
    using inv M h rs by (simp add: keeps_def env_def mgr_inv_def clock_ok_def managed_pages_def frames_live_def missing_ok_def V(1,2) pa)
qed

definition unused :: "mem_mgr \<Rightarrow> u64 \<Rightarrow> bool" where
  "unused s pa \<longleftrightarrow> (\<forall>u. resident (mm_mmu s) u \<longrightarrow> frame s u \<noteq> pa)"

lemma evicted_unused:
  assumes "mgr_inv s" "resident (mm_mmu s) v" "evicts v s s'"
  shows "unused s' (frame s v)"
  using assms unused_frame [of s v] by (auto simp: unused_def evicts_def)

lemma clock_front:
  assumes "mgr_inv s" "va \<in> set (mm_resident s)"
  shows "page_offset va = 0" "resident (mm_mmu s) (vpn_of va)" "hosted (mm_mmu s) (vpn_of va)"
  using assms by (auto simp: mgr_inv_def clock_ok_def managed_pages_def)

text \<open>What an eviction hands out: the frame of a managed page, still live and used by no page.\<close>

lemma evict_locked_ok:
  assumes inv: "mgr_inv s" and sane: "uffd_sane os" and va: "va \<in> set (mm_resident s)" and ev: "evict_locked os va s = (r, s')"
  shows "keeps s s'" "\<And>u. resident (mm_mmu s') u \<Longrightarrow> resident (mm_mmu s) u"
    "\<And>pa. r = Some pa \<Longrightarrow> unused s' pa \<and> (pa, SG_PAGE_SIZE) \<in> set (va_live (mm_vram s')) \<and> page_offset pa = 0 \<and>
       pa < dm_vram_size (mm_mem s') \<and> \<not> resident (mm_mmu s') (vpn_of va)"
proof -
  note c = clock_front [OF inv va]
  note E = evict_locked_cases [OF inv sane c(1) refl c(2,3) ev]
  show "keeps s s'" using E by simp
  show "resident (mm_mmu s) u" if "resident (mm_mmu s') u" for u
    using E that by (cases r) (auto simp: evicts_def split: if_splits)
  show "unused s' pa \<and> (pa, SG_PAGE_SIZE) \<in> set (va_live (mm_vram s')) \<and> page_offset pa = 0 \<and>
      pa < dm_vram_size (mm_mem s') \<and> \<not> resident (mm_mmu s') (vpn_of va)" if "r = Some pa" for pa
  proof -
    have e: "pa = frame s (vpn_of va)" "evicts (vpn_of va) s s'" "mm_vram s' = mm_vram s" using E that by simp_all
    have "(pa, SG_PAGE_SIZE) \<in> set (va_live (mm_vram s))" using inv c e by (auto simp: mgr_inv_def frames_live_def)
    moreover have "pa < dm_vram_size (mm_mem s')"
      using frame_in_vram [OF _ c(2)] inv E e by (simp add: mgr_inv_def keeps_def)
    ultimately show ?thesis
      using evicted_unused [OF inv c(2) e(2)] e by (auto simp: pte_pa_aligned evicts_def)
  qed
qed

lemma evict_one_ok:
  assumes inv: "mgr_inv s" and sane: "uffd_sane os" and ev: "evict_one_locked os s = (r, s')"
  shows "keeps s s'" "\<And>u. resident (mm_mmu s') u \<Longrightarrow> resident (mm_mmu s) u"
    "\<And>pa. r = Some pa \<Longrightarrow> unused s' pa \<and> (pa, SG_PAGE_SIZE) \<in> set (va_live (mm_vram s')) \<and> page_offset pa = 0 \<and> pa < dm_vram_size (mm_mem s')"
proof -
  have "keeps s s' \<and> (\<forall>u. resident (mm_mmu s') u \<longrightarrow> resident (mm_mmu s) u) \<and>
    (\<forall>pa. r = Some pa \<longrightarrow> unused s' pa \<and> (pa, SG_PAGE_SIZE) \<in> set (va_live (mm_vram s')) \<and> page_offset pa = 0 \<and> pa < dm_vram_size (mm_mem s'))"
  proof (cases "mm_resident s = []")
    case True
    with ev inv show ?thesis by (simp add: evict_one_locked_def keeps_refl)
  next
    case False
    obtain rs m where cs: "clock_scan (length (mm_resident s)) (mm_resident s) (mm_mmu s) = (rs, m)" by fastforce
    have "mmu_inv (mm_mmu s)" using inv by (simp add: mgr_inv_def mem_inv_def)
    note C = clock_scan_props [OF cs this]
    let ?s1 = "put_mmu m (s\<lparr>mm_resident := rs\<rparr>)"
    have k: "keeps s ?s1" using keeps_same_map [OF inv] C by blast
    have "rs \<noteq> []" using C False by (metis set_empty)
    then have hd: "hd rs \<in> set (mm_resident ?s1)" by simp
    have ev1: "evict_locked os (hd rs) ?s1 = (r, s')" using ev False cs by (simp add: evict_one_locked_def)
    note E = evict_locked_ok [OF keeps_inv [OF k] sane hd ev1]
    have "resident m = resident (mm_mmu s)" using C same_map_views(1) by blast
    then show ?thesis using keeps_trans [OF k E(1)] E(2,3) by simp
  qed
  then show "keeps s s'" "\<And>u. resident (mm_mmu s') u \<Longrightarrow> resident (mm_mmu s) u"
    "\<And>pa. r = Some pa \<Longrightarrow> unused s' pa \<and> (pa, SG_PAGE_SIZE) \<in> set (va_live (mm_vram s')) \<and> page_offset pa = 0 \<and> pa < dm_vram_size (mm_mem s')"
    by blast+
qed

section \<open>Frames\<close>

lemma free_frame_sel [simp]:
  "mm_mem (free_frame pa s) = mm_mem s" "mm_resident (free_frame pa s) = mm_resident s" "mm_uffd (free_frame pa s) = mm_uffd s"
  "mm_ranges (free_frame pa s) = mm_ranges s" "mm_managed_va (free_frame pa s) = mm_managed_va s"
  "mm_vram (free_frame pa s) = snd (va_dealloc (mm_vram s) pa)"
  by (simp_all add: free_frame_def)

text \<open>Freeing a block of VRAM that no page is mapped to.\<close>

lemma va_align_dealloc [simp]: "va_align (snd (va_dealloc A a)) = va_align A"
  by (simp add: va_dealloc_def va_detach_def va_release_def split: option.splits prod.splits)

lemma free_block_inv:
  assumes inv: "mgr_inv s" and un: "\<And>u n. resident (mm_mmu s) u \<Longrightarrow> (pa, n) \<in> set (va_live (mm_vram s)) \<Longrightarrow> unat (frame s u) \<notin> ivl (pa, n)"
  shows "keeps s (free_frame pa s)"
proof -
  let ?A = "mm_vram s"
  have live: "set (va_live (snd (va_dealloc ?A pa))) = {b \<in> set (va_live ?A). fst b \<noteq> pa}"
    by (auto simp: va_live_dealloc om_erase_def)
  have "frames_live (free_frame pa s)"
    unfolding frames_live_def
  proof (intro allI impI)
    fix u assume r: "resident (mm_mmu (free_frame pa s)) u"
    then have r': "resident (mm_mmu s) u" by simp
    have start: "unat (frame s u) \<in> ivl (frame s u, SG_PAGE_SIZE)" by (simp add: mem_ivl SG_PAGE_SIZE_def)
    have "if hosted (mm_mmu s) u then (frame s u, SG_PAGE_SIZE) \<in> set (va_live ?A) else \<exists>b \<in> set (va_live ?A). unat (frame s u) \<in> ivl b"
      using inv r' by (auto simp: mgr_inv_def frames_live_def)
    then show "if hosted (mm_mmu (free_frame pa s)) u
        then (frame (free_frame pa s) u, SG_PAGE_SIZE) \<in> set (va_live (mm_vram (free_frame pa s)))
        else \<exists>b \<in> set (va_live (mm_vram (free_frame pa s))). unat (frame (free_frame pa s) u) \<in> ivl b"
      using un [OF r'] start by (auto simp: live split: if_splits)
  qed
  moreover have "va_inv 0 (unat (dm_vram_size (mm_mem s))) (snd (va_dealloc ?A pa)) []"
    using inv by (intro va_dealloc_inv) (simp add: mgr_inv_def)
  ultimately show ?thesis
    using inv by (simp add: keeps_def env_refl mgr_inv_def clock_ok_def missing_ok_def)
qed

lemma ivl_page_frame:
  assumes "page_offset pa = 0" "page_offset q = 0" "unat q \<in> ivl (pa, SG_PAGE_SIZE)"
  shows "q = pa"
proof -
  obtain k l where kl: "unat pa = 4096 * k" "unat q = 4096 * l"
    using assms(1,2) unfolding page_offset_0_iff mod_eq_0_iff_dvd by (auto elim!: dvdE)
  have "unat pa \<le> unat q" "unat q < unat pa + 4096" using assms(3) by (simp_all add: mem_ivl SG_PAGE_SIZE_def)
  then have "l = k" unfolding kl by linarith
  then have "unat q = unat pa" by (simp only: kl)
  then show ?thesis by (simp add: word_eq_unat)
qed

lemma live_block_unique:
  assumes "mgr_inv s" "(pa, n) \<in> set (va_live (mm_vram s))" "(pa, k) \<in> set (va_live (mm_vram s))"
  shows "n = k"
proof -
  have "distinct (map fst (va_live (mm_vram s)))" using va_inv_live_distinct assms(1) by (fastforce simp: mgr_inv_def)
  with assms(2,3) show ?thesis by (metis eq_key_imp_eq_value)
qed

lemma free_frame_keeps:
  assumes inv: "mgr_inv s" and pa: "unused s pa" "(pa, SG_PAGE_SIZE) \<in> set (va_live (mm_vram s))" "page_offset pa = 0"
  shows "keeps s (free_frame pa s)"
proof (rule free_block_inv [OF inv])
  fix u n assume r: "resident (mm_mmu s) u" and n: "(pa, n) \<in> set (va_live (mm_vram s))"
  have "n = SG_PAGE_SIZE" by (rule live_block_unique [OF inv n pa(2)])
  then show "unat (frame s u) \<notin> ivl (pa, n)"
    using ivl_page_frame [OF pa(3) pte_pa_aligned, of "mmu_pte (mm_mmu s) u"] pa(1) r by (auto simp: unused_def)
qed

lemma evict_all_keeps:
  assumes "mgr_inv s" "uffd_sane os"
  shows "keeps s (evict_all_locked os s)"
  using assms
proof (induction os s rule: evict_all_locked.induct)
  case (1 os s)
  show ?case
  proof (cases "mm_resident s")
    case Nil
    with "1.prems" show ?thesis by (simp add: evict_all_locked.simps [of os s] keeps_refl)
  next
    case (Cons va rs)
    obtain r s1 where ev: "evict_locked os va s = (r, s1)" by fastforce
    have "va \<in> set (mm_resident s)" using Cons by simp
    note E = evict_locked_ok [OF "1.prems" this ev]
    show ?thesis
    proof (cases r)
      case None
      with Cons ev E(1) show ?thesis by (simp add: evict_all_locked.simps [of os s])
    next
      case (Some pa)
      have f: "keeps s1 (free_frame pa s1)" using free_frame_keeps [OF keeps_inv [OF E(1)]] E(3) [OF Some] by simp
      have "keeps (free_frame pa s1) (evict_all_locked os (free_frame pa s1))"
        using "1.IH" [OF Cons ev [symmetric]] Some keeps_inv [OF f] "1.prems"(2) by simp
      with E(1) f have "keeps s (evict_all_locked os (free_frame pa s1))" by (blast intro: keeps_trans)
      with Cons ev Some show ?thesis by (simp add: evict_all_locked.simps [of os s])
    qed
  qed
qed

text \<open>Without \<^verbatim>\<open>userfaultfd\<close> no eviction fails, so all managed pages end up in host memory.\<close>

lemma evict_locked_succeeds:
  assumes inv: "mgr_inv s" and sane: "uffd_sane os" and c: "page_offset va = 0" "resident (mm_mmu s) (vpn_of va)" "hosted (mm_mmu s) (vpn_of va)"
    and ok: "\<not> mm_uffd s \<or> uo_copy os (mmu_host (mm_mmu s) (vpn_of va)) = None"
  shows "\<exists>pa s1. evict_locked os va s = (Some pa, s1)"
proof -
  obtain old m1 where be: "begin_evict va (mm_mmu s) = (old, m1)" by fastforce
  obtain late m2 where ee: "end_evict va m1 = (late, m2)" by fastforce
  have mi: "mem_inv (mm_mem s)" using inv by (simp add: mgr_inv_def)
  note B = evict_tables [OF mi refl c(3,2) be ee]
  let ?v = "vpn_of va"
  obtain rc s1 where pub: "publish_host os (mmu_host (mm_mmu s) ?v) (frame s ?v) (dirtyp (mmu_pte (mm_mmu s) ?v)) (put_mmu m2 s) = (rc, s1)"
    by fastforce
  have "\<not> mm_uffd s \<Longrightarrow> \<not> dm_missing (mm_mem s) (mmu_host (mm_mmu s) ?v)" using inv c(3) by (simp add: mgr_inv_def missing_ok_def)
  with publish_host_ok(2) [OF inv sane c(2,3) refl refl refl pub] ok have "rc = None" by (cases "rc = None") auto
  moreover have "mmu_host (mm_mmu s) ?v \<noteq> 0" "in_vramp (mmu_pte (mm_mmu s) ?v)" using c by (auto simp: hosted_def resident_def)
  ultimately show ?thesis using B(1,2) c(2) pub
    by (auto simp: evict_locked_def page_eq be ee flag_test Let_def)
qed

lemma evict_all_empty:
  assumes "mgr_inv s" "uffd_sane os" "\<not> mm_uffd s"
  shows "mm_resident (evict_all_locked os s) = []"
  using assms
proof (induction os s rule: evict_all_locked.induct)
  case (1 os s)
  show ?case
  proof (cases "mm_resident s")
    case Nil
    then show ?thesis by (simp add: evict_all_locked.simps [of os s])
  next
    case (Cons va rs)
    then have va: "va \<in> set (mm_resident s)" by simp
    then obtain pa s1 where ev: "evict_locked os va s = (Some pa, s1)" using evict_locked_succeeds clock_front "1.prems" by blast
    note E = evict_locked_ok [OF "1.prems"(1,2) va ev]
    have f: "keeps s1 (free_frame pa s1)" using free_frame_keeps [OF keeps_inv [OF E(1)]] E(3) by simp
    have "\<not> mm_uffd (free_frame pa s1)" using E(1) "1.prems"(3) by (simp add: keeps_def)
    with "1.IH" [OF Cons ev [symmetric] refl keeps_inv [OF f] "1.prems"(2)] Cons ev show ?thesis
      by (simp add: evict_all_locked.simps [of os s])
  qed
qed

section \<open>Migration\<close>

lemma alloc_frame:
  assumes inv: "mgr_inv s" and al: "va_alloc (mm_vram s) SG_PAGE_SIZE = (Some pa, A)"
  shows "keeps s (s\<lparr>mm_vram := A\<rparr>)" "unused s pa" "(pa, SG_PAGE_SIZE) \<in> set (va_live A)" "page_offset pa = 0"
    "pa < dm_vram_size (mm_mem s)"
proof -
  let ?A = "mm_vram s"
  have vi: "va_inv 0 (unat (dm_vram_size (mm_mem s))) ?A []" and align: "va_align ?A = SG_PAGE_SIZE"
    using inv by (simp_all add: mgr_inv_def)
  have fits: "va_fits ?A SG_PAGE_SIZE" by (simp add: va_fits_def align SG_PAGE_SIZE_def)
  have "unat (va_need ?A SG_PAGE_SIZE) = 4096"
    using unat_va_need [of ?A SG_PAGE_SIZE] fits align by (simp add: SG_PAGE_SIZE_def)
  then have need: "va_need ?A SG_PAGE_SIZE = SG_PAGE_SIZE" by (simp add: word_eq_unat SG_PAGE_SIZE_def)
  have live: "va_live A = (pa, SG_PAGE_SIZE) # va_live ?A" "va_align A = va_align ?A"
    using va_alloc_SomeE [OF vi fits al] need by metis+
  have vi': "va_inv 0 (unat (dm_vram_size (mm_mem s))) A []" by (rule va_alloc_inv [OF vi fits al])
  show mem: "(pa, SG_PAGE_SIZE) \<in> set (va_live A)" by (simp add: live)
  have blk: "aligned SG_PAGE_SIZE (pa, SG_PAGE_SIZE)" "unat pa + 4096 \<le> unat (dm_vram_size (mm_mem s))"
    using va_inv_blockD(2,4) [OF vi', of "(pa, SG_PAGE_SIZE)"] mem align live(2) by (simp_all add: SG_PAGE_SIZE_def)
  then show "page_offset pa = 0" "pa < dm_vram_size (mm_mem s)"
    by (simp_all add: page_offset_0_iff aligned_def SG_PAGE_SIZE_def word_less_unat mod_eq_0_iff_dvd)
  have dis: "ivl (pa, SG_PAGE_SIZE) \<inter> ivl b = {}" if "b \<in> set (va_live ?A)" for b
    using va_alloc_disjoint [OF vi fits al] that need by simp
  show "unused s pa"
    unfolding unused_def
  proof (intro allI impI notI)
    fix u assume r: "resident (mm_mmu s) u" and eq: "frame s u = pa"
    have self: "unat pa \<in> ivl (pa, SG_PAGE_SIZE)" by (simp add: mem_ivl SG_PAGE_SIZE_def)
    have "\<exists>b \<in> set (va_live ?A). unat pa \<in> ivl b"
      using inv r eq self by (auto simp: mgr_inv_def frames_live_def split: if_splits)
    with dis self show False by blast
  qed
  have "frames_live (s\<lparr>mm_vram := A\<rparr>)" using inv by (auto simp: mgr_inv_def frames_live_def live split: if_splits)
  then show "keeps s (s\<lparr>mm_vram := A\<rparr>)"
    using inv vi' align live(2) by (simp add: keeps_def env_refl mgr_inv_def clock_ok_def missing_ok_def)
qed

lemma take_frame_ok:
  assumes inv: "mgr_inv s" and sane: "uffd_sane os" and tf: "take_frame os s = (r, s')"
  shows "keeps s s'" "\<And>u. resident (mm_mmu s') u \<Longrightarrow> resident (mm_mmu s) u"
    "\<And>pa. r = Some pa \<Longrightarrow> unused s' pa \<and> (pa, SG_PAGE_SIZE) \<in> set (va_live (mm_vram s')) \<and> page_offset pa = 0 \<and> pa < dm_vram_size (mm_mem s')"
proof -
  have "keeps s s' \<and> (\<forall>u. resident (mm_mmu s') u \<longrightarrow> resident (mm_mmu s) u) \<and>
    (\<forall>pa. r = Some pa \<longrightarrow> unused s' pa \<and> (pa, SG_PAGE_SIZE) \<in> set (va_live (mm_vram s')) \<and> page_offset pa = 0 \<and> pa < dm_vram_size (mm_mem s'))"
  proof (cases "va_alloc (mm_vram s) SG_PAGE_SIZE")
    case (Pair x A)
    show ?thesis
    proof (cases x)
      case (Some pa)
      with tf Pair have "r = Some pa" "s' = s\<lparr>mm_vram := A\<rparr>" by (simp_all add: take_frame_def)
      with alloc_frame [OF inv, of pa A] Pair Some show ?thesis by (simp add: unused_def)
    next
      case None
      with Pair va_alloc_None have "A = mm_vram s" by blast
      then have "evict_one_locked os s = (r, s')" using tf Pair None by (simp add: take_frame_def)
      from evict_one_ok [OF inv sane this] show ?thesis by blast
    qed
  qed
  then show "keeps s s'" "\<And>u. resident (mm_mmu s') u \<Longrightarrow> resident (mm_mmu s) u"
    "\<And>pa. r = Some pa \<Longrightarrow> unused s' pa \<and> (pa, SG_PAGE_SIZE) \<in> set (va_live (mm_vram s')) \<and> page_offset pa = 0 \<and> pa < dm_vram_size (mm_mem s')"
    by blast+
qed


lemma drop_host_page:
  assumes inv: "mem_inv d" and v: "resident (dm_mmu d) v" "hosted (dm_mmu d) v" and h: "h = mmu_host (dm_mmu d) v"
    and d': "d' = d\<lparr>dm_host := memset_bytes h 0 SG_PAGE_SIZE (dm_host d), dm_missing := (dm_missing d)(h := True)\<rparr>"
  shows "mem_inv d'" "logical d' = logical d" "\<not> backs (dm_mmu d) x \<Longrightarrow> dm_host d' x = dm_host d x"
proof -
  let ?m = "dm_mmu d"
  have bck: "backing_ok ?m" using inv by (simp add: mem_inv_def)
  have keep: "dm_host d' (mmu_host ?m u + off) = dm_host d (mmu_host ?m u + off)"
    if u: "hosted ?m u" "u \<noteq> v" "off < SG_PAGE_SIZE" for u off
  proof -
    have "mmu_host ?m u \<noteq> h" using backing_okD(4) [OF bck u(1) v(2)] u(2) h by blast
    then have "\<not> mmu_host ?m u + off - h < SG_PAGE_SIZE"
      using page_range [OF backing_okD(3) [OF bck u(1)] backing_okD(3) [OF bck v(2)], of "mmu_host ?m u + off"] u(3) h by auto
    then show ?thesis by (simp add: d' memset_bytes_def)
  qed
  have sel: "dm_mmu d' = ?m" "dm_vram d' = dm_vram d" "dm_vram_size d' = dm_vram_size d" by (simp_all add: d')
  have "clean_ok d'"
    unfolding clean_ok_def sel
  proof (intro allI impI)
    fix u off
    assume a: "resident ?m u" "hosted ?m u" "\<not> dirtyp (mmu_pte ?m u)" "off < SG_PAGE_SIZE" "\<not> dm_missing d' (mmu_host ?m u)"
    then have "u \<noteq> v" "\<not> dm_missing d (mmu_host ?m u)" by (auto simp: d' h split: if_splits)
    with a inv keep [of u off] show "dm_vram d (pte_pa (mmu_pte ?m u) + off) = dm_host d' (mmu_host ?m u + off)"
      by (simp add: mem_inv_def clean_ok_def)
  qed
  then show "mem_inv d'" using inv by (simp add: mem_inv_def sel)
  show "logical d' = logical d"
  proof (rule ext)
    fix x
    show "logical d' x = logical d x"
    proof (cases "vpn_of x = v")
      case True
      with v(1) have "phys ?m x = Some (pte_pa (mmu_pte ?m v) + page_offset x)" by (simp add: phys_iff)
      with logical_Ok [of d x] logical_Ok [of d' x] sel show ?thesis by simp
    next
      case False
      then show ?thesis using bck keep [of "vpn_of x"] by (intro logical_cong) (auto simp: sel)
    qed
  qed
  show "dm_host d' x = dm_host d x" if "\<not> backs ?m x"
    using that v(2) h by (auto simp: backs_def d' memset_bytes_def)
qed

lemma migrated_inv:
  assumes inv: "mgr_inv s" and v: "v = vpn_of va" "hosted (mm_mmu s) v" "\<not> resident (mm_mmu s) v" "page_offset va = 0"
    and un: "unused s pa" "(pa, SG_PAGE_SIZE) \<in> set (va_live (mm_vram s))"
    and cp: "copy_in pa (mmu_host (mm_mmu s) v) (mm_mem s) = (None, d)"
    and mr: "make_resident va pa (dm_mmu d) = (None, m)" and os: "uffd_sane os"
    and s': "s' = note_migrated va (drop_host os (mmu_host (mm_mmu s) v) (s\<lparr>mm_mem := d\<lparr>dm_mmu := m\<rparr>\<rparr>))"
  shows "keeps s s' \<and> resident (mm_mmu s') = (resident (mm_mmu s))(v := True)"
proof -
  let ?m = "mm_mmu s" and ?h = "mmu_host (mm_mmu s) v" and ?d1 = "d\<lparr>dm_mmu := m\<rparr>"
  have mi: "mem_inv (mm_mem s)" using inv by (simp add: mgr_inv_def)
  have free: "resident ?m u \<Longrightarrow> pte_pa (mmu_pte ?m u) \<noteq> pa" for u using un by (simp add: unused_def)
  note M = migrate_page [OF mi v(1-3) free cp mr]
  have d: "dm_host d = dm_host (mm_mem s)" "dm_missing d = dm_missing (mm_mem s)" "dm_vram_size d = dm_vram_size (mm_mem s)"
    using cp by (auto simp: copy_in_def split: if_splits)
  have res: "resident m = (resident ?m)(v := True)" and hostd: "hosted m = hosted ?m"
    using entry_views [of v m ?m] M(3,5,6,7) v(2) by (simp_all add: resident_def hosted_def)
  have hs: "mmu_host m = mmu_host ?m" "mmu_npages m = mmu_npages ?m" using M(6,7) by simp_all
  have bk: "backs m = backs ?m" by (simp add: backs_def fun_eq_iff hostd hs)
  define d2 where "d2 = mm_mem s'"
  have d2: "d2 = (if mm_uffd s then ?d1\<lparr>dm_host := memset_bytes ?h 0 SG_PAGE_SIZE (dm_host ?d1), dm_missing := (dm_missing ?d1)(?h := True)\<rparr> else ?d1)"
    using os by (simp add: d2_def s' note_migrated_def drop_host_def uffd_sane_def)
  have vr: "resident (dm_mmu ?d1) v" "hosted (dm_mmu ?d1) v" "?h = mmu_host (dm_mmu ?d1) v"
    using M(3) v(2) by (simp_all add: hostd hs)
  note D = drop_host_page [OF M(1) vr refl]
  have m2: "dm_mmu d2 = m" "dm_vram_size d2 = dm_vram_size (mm_mem s)" using d by (simp_all add: d2)
  have mem: "mem_inv d2" "logical d2 = logical (mm_mem s)" using D M(1,2) by (auto simp: d2)
  have host: "dm_host d2 x = dm_host (mm_mem s) x" if "\<not> backs ?m x" for x using D(3) [of x] that d by (auto simp: d2 bk)
  have sel: "mm_mem s' = d2" "mm_vram s' = mm_vram s" "mm_resident s' = mm_resident s @ [va]" "mm_uffd s' = mm_uffd s"
    "mm_ranges s' = mm_ranges s" "mm_managed_va s' = mm_managed_va s"
    by (simp_all add: d2_def) (simp_all add: s' note_migrated_def drop_host_def)
  have mp: "managed_pages m = insert va (managed_pages ?m)"
    using v vpn_page_inj [of _ va] by (auto simp: managed_pages_def res hostd)
  have "va \<notin> managed_pages ?m" using v by (simp add: managed_pages_def)
  then have "clock_ok s'" using inv by (simp add: clock_ok_def sel m2 mp mgr_inv_def)
  moreover have "frames_live s'"
    using inv M(4,5) un(2) v(2) by (auto simp: frames_live_def sel m2 res hostd mgr_inv_def)
  moreover have "missing_ok s'"
  proof -
    have other: "mmu_host ?m u \<noteq> ?h" if "hosted ?m u" "u \<noteq> v" for u
      using backing_okD(4) [OF _ that(1) v(2)] that(2) mi by (auto simp: mem_inv_def)
    show ?thesis using inv v other d by (auto simp: missing_ok_def sel m2 res hostd hs mgr_inv_def d2)
  qed
  ultimately have "mgr_inv s'" using inv mem by (simp add: mgr_inv_def sel m2)
  then show ?thesis using mem host hs hostd bk by (simp add: keeps_def env_def sel m2 res)
qed

text \<open>The page copy and the page-table update of a migration cannot fail once a frame is found.\<close>

lemma migrate_steps:
  assumes inv: "mgr_inv s" and v: "v = vpn_of va" "hosted (mm_mmu s) v" "\<not> resident (mm_mmu s) v" "page_offset va = 0"
    and pa: "(pa, SG_PAGE_SIZE) \<in> set (va_live (mm_vram s))" "page_offset pa = 0"
  shows "\<exists>d m. copy_in pa (mmu_host (mm_mmu s) v) (mm_mem s) = (None, d) \<and> make_resident va pa (dm_mmu d) = (None, m)"
proof -
  let ?m = "mm_mmu s"
  have b: "unat pa + 4096 \<le> unat (dm_vram_size (mm_mem s))"
    using va_inv_blockD(4) [of 0 _ "mm_vram s" "[]" "(pa, SG_PAGE_SIZE)"] inv pa(1) by (simp add: mgr_inv_def SG_PAGE_SIZE_def)
  have cp: "copy_in pa (mmu_host ?m v) (mm_mem s) =
      (None, (mm_mem s)\<lparr>dm_vram := blit pa (mmu_host ?m v) SG_PAGE_SIZE (dm_host (mm_mem s)) (dm_vram (mm_mem s))\<rparr>)"
    using pa(2) b v(2) by (simp add: copy_in_def hosted_def word_le_unat)
  have al: "(va OR pa) AND (SG_PAGE_SIZE - 1) = 0" using v(4) pa(2) by (simp add: or_and_eq_0 page_offset_def)
  have np: "\<not> mmu_npages ?m \<le> v" using v(2) by (simp add: hosted_def not_le)
  have "unat pa div 4096 < unat (dm_vram_size (mm_mem s)) div 4096"
    using b by (metis add.commute div_add_self1 div_le_mono le_imp_less_Suc not_less_eq plus_1_eq_Suc zero_neq_numeral)
  then have "\<not> mmu_vram_pages ?m \<le> vpn_of pa"
    using inv by (simp add: mgr_inv_def mem_inv_def word_le_unat unat_vpn_of unat_div SG_PAGE_SIZE_def)
  then have "fst (make_resident va pa ?m) = None"
    using al np v(2) by (simp add: make_resident_def Let_def vpn_of_def [symmetric] v(1) [symmetric] hosted_def flag_test)
  then show ?thesis using cp by (cases "make_resident va pa ?m") simp
qed

lemma migrate_locked_ok:
  assumes inv: "mgr_inv s" and sane: "uffd_sane os" and va: "page_offset va = 0" "v = vpn_of va"
    and mg: "migrate_locked os va s = ((rc, moved), s')"
  shows "keeps s s'" "rc = None \<Longrightarrow> resident (mm_mmu s') v" "moved \<longleftrightarrow> rc = None \<and> \<not> resident (mm_mmu s) v"
    "rc = Some EFAULT \<longleftrightarrow> \<not> resident (mm_mmu s) v \<and> \<not> hosted (mm_mmu s) v"
    "rc = None \<or> rc = Some EFAULT \<or> rc = Some ENOMEM \<and> fst (take_frame os s) = None"
proof -
  let ?m = "mm_mmu s"
  have bck: "backing_ok ?m" using inv by (simp add: mgr_inv_def mem_inv_def)
  have P: "keeps s s' \<and> (rc = None \<longrightarrow> resident (mm_mmu s') v) \<and> (moved \<longleftrightarrow> rc = None \<and> \<not> resident ?m v) \<and>
    (rc = Some EFAULT \<longleftrightarrow> \<not> resident ?m v \<and> \<not> hosted ?m v) \<and>
    (rc = None \<or> rc = Some EFAULT \<or> rc = Some ENOMEM \<and> fst (take_frame os s) = None)"
  proof (cases "resident ?m v \<or> \<not> hosted ?m v")
    case True
    then have "resident ?m v \<and> rc = None \<and> \<not> moved \<and> s' = s \<or> \<not> resident ?m v \<and> \<not> hosted ?m v \<and> rc = Some EFAULT \<and> \<not> moved \<and> s' = s"
      using mg by (auto simp: migrate_locked_def page_eq va(2) hosted_def no_page_def Let_def split: if_splits)
    then show ?thesis using keeps_refl [OF inv] by auto
  next
    case False
    then have h: "hosted ?m v" "\<not> resident ?m v" by simp_all
    then have pg: "page va ?m = \<lparr>pi_kind = Host, pi_host = mmu_host ?m v, pi_pa = 0\<rparr>" "mmu_host ?m v \<noteq> 0"
      by (simp_all add: page_eq va(2) [symmetric] hosted_def)
    obtain r s1 where tf: "take_frame os s = (r, s1)" by fastforce
    note T = take_frame_ok [OF inv sane tf]
    have same: "mmu_host (mm_mmu s1) = mmu_host ?m" "hosted (mm_mmu s1) v" "\<not> resident (mm_mmu s1) v"
      using T(1,2) h by (auto simp: keeps_def)
    show ?thesis
    proof (cases r)
      case None
      with mg pg tf T(1) h show ?thesis by (auto simp: migrate_locked_def)
    next
      case (Some pa)
      note pa = T(3) [OF Some]
      obtain d m where st: "copy_in pa (mmu_host (mm_mmu s1) v) (mm_mem s1) = (None, d)" "make_resident va pa (dm_mmu d) = (None, m)"
        using migrate_steps [OF keeps_inv [OF T(1)] va(2) same(2,3) va(1)] pa by blast
      define s2 where "s2 = note_migrated va (drop_host os (mmu_host (mm_mmu s1) v) (s1\<lparr>mm_mem := d\<lparr>dm_mmu := m\<rparr>\<rparr>))"
      have "rc = None" "moved" "s' = s2" using mg pg tf st Some by (simp_all add: migrate_locked_def s2_def same(1))
      moreover have "keeps s1 s2 \<and> resident (mm_mmu s2) = (resident (mm_mmu s1))(v := True)"
        using pa by (intro migrated_inv [OF keeps_inv [OF T(1)] va(2) same(2,3) va(1) _ _ st sane s2_def]) simp_all
      ultimately show ?thesis using T(1) h by (auto intro: keeps_trans)
    qed
  qed
  then show "keeps s s'" "rc = None \<Longrightarrow> resident (mm_mmu s') v" "moved \<longleftrightarrow> rc = None \<and> \<not> resident ?m v"
    "rc = Some EFAULT \<longleftrightarrow> \<not> resident ?m v \<and> \<not> hosted ?m v"
    "rc = None \<or> rc = Some EFAULT \<or> rc = Some ENOMEM \<and> fst (take_frame os s) = None" by blast+
qed

text \<open>Bookkeeping that no invariant reads.\<close>

lemma keeps_count [simp]:
  "keeps s (t\<lparr>mm_prefetches := x\<rparr>) = keeps s t" "keeps s (t\<lparr>mm_streams := y\<rparr>) = keeps s t" "keeps s (t\<lparr>mm_stream_clock := x\<rparr>) = keeps s t"
  "keeps s (t\<lparr>mm_host_faults := x\<rparr>) = keeps s t" "keeps (s\<lparr>mm_host_faults := x\<rparr>) t = keeps s t"
  by (simp_all add: keeps_def mgr_inv_def clock_ok_def frames_live_def missing_ok_def)

lemma mgr_inv_count [simp]:
  "mgr_inv (t\<lparr>mm_prefetches := x\<rparr>) = mgr_inv t" "mgr_inv (t\<lparr>mm_host_faults := x\<rparr>) = mgr_inv t"
  by (simp_all add: mgr_inv_def clock_ok_def frames_live_def missing_ok_def)

lemma page_step: "page_offset va = 0 \<Longrightarrow> page_offset (va + SG_PAGE_SIZE) = 0"
proof -
  assume "page_offset va = 0"
  then have "(unat va + 4096) mod 4096 = 0" by (simp add: page_offset_0_iff)
  then show ?thesis
    unfolding page_offset_0_iff by (simp add: unat_word_ariths SG_PAGE_SIZE_def mod_mod_cancel)
qed

lemma prefetch_loop_keeps:
  "mgr_inv s \<Longrightarrow> uffd_sane os \<Longrightarrow> page_offset va = 0 \<Longrightarrow> prefetch_loop os e n va s = (va', s') \<Longrightarrow> keeps s s'"
proof (induction n arbitrary: va s)
  case 0
  then show ?case by (simp add: keeps_refl)
next
  case (Suc n)
  obtain rc moved s1 where mg: "migrate_locked os va s = ((rc, moved), s1)" by (metis prod.collapse)
  note M = migrate_locked_ok(1) [OF Suc.prems(1,2,3) refl mg]
  let ?s2 = "if moved then s1\<lparr>mm_prefetches := mm_prefetches s1 + 1\<rparr> else s1"
  have k: "keeps s ?s2" using M by simp
  show ?case
  proof (cases "va < e \<and> rc = None")
    case True
    then have "prefetch_loop os e n (va + SG_PAGE_SIZE) ?s2 = (va', s')" using Suc.prems(4) mg by auto
    from Suc.IH [OF keeps_inv [OF k] Suc.prems(2) page_step [OF Suc.prems(3)] this] k show ?thesis by (blast intro: keeps_trans)
  next
    case False
    then show ?thesis using Suc.prems mg M keeps_refl by (cases rc) (auto split: if_splits)
  qed
qed

lemma prefetch_locked_keeps:
  assumes "mgr_inv s" "uffd_sane os" "page_offset va = 0" "prefetch_locked os va s = (va', s')"
  shows "keeps s s'"
  using assms prefetch_loop_keeps [OF assms(1-3)] keeps_refl [OF assms(1)]
  by (auto simp: prefetch_locked_def split: option.splits prod.splits)

lemma page_floor_aligned: "page_offset (page_floor a) = 0"
  by (simp add: page_offset_def page_floor_def page_size_mask bit_eq_iff bit_simps)

lemma service_fault_ok:
  assumes inv: "mgr_inv s" and sane: "uffd_sane os" and sv: "service_fault os e c f s = (rc, s')"
  shows "keeps s s'" "rc = Some EFAULT \<longleftrightarrow> \<not> resident (mm_mmu s) (vpn_of f) \<and> \<not> hosted (mm_mmu s) (vpn_of f)"
    "rc = None \<or> rc = Some EFAULT \<or> rc = Some ENOMEM \<and> fst (take_frame os s) = None"
proof -
  let ?va = "page_floor f"
  obtain r moved s1 where mg: "migrate_locked os ?va s = ((r, moved), s1)" by (metis prod.collapse)
  note M = migrate_locked_ok [OF inv sane page_floor_aligned refl mg]
  obtain i sq s2 where ms: "match_stream e c ?va s1 = ((i, sq), s2)" by (metis prod.collapse)
  have k2: "keeps s s2" using M(1) ms by (auto simp: match_stream_def set_stream_def Let_def split: prod.splits)
  have st: "keeps s (set_stream e c j g t) = keeps s t" for s t j g by (simp add: set_stream_def)
  let ?s3 = "set_stream e c i ((mm_streams s2 e c ! i)\<lparr>fs_next := ?va + SG_PAGE_SIZE\<rparr>) s2"
  obtain nx s4 where pf: "prefetch_locked os (?va + SG_PAGE_SIZE) ?s3 = (nx, s4)" by fastforce
  have k3: "keeps s ?s3" using k2 st by simp
  have k4: "keeps s s4" using keeps_trans [OF k3 prefetch_locked_keeps [OF keeps_inv [OF k3] sane page_step [OF page_floor_aligned] pf]] .
  have "rc = r \<and> keeps s s'"
    using sv mg ms pf M(1) k3 k4 st by (auto simp: service_fault_def Let_def split: if_splits)
  then show "keeps s s'" "rc = Some EFAULT \<longleftrightarrow> \<not> resident (mm_mmu s) (vpn_of f) \<and> \<not> hosted (mm_mmu s) (vpn_of f)"
    "rc = None \<or> rc = Some EFAULT \<or> rc = Some ENOMEM \<and> fst (take_frame os s) = None"
    using M(4,5) by (simp_all add: vpn_of_page_floor)
qed

lemma take_frame_fails:
  assumes inv: "mgr_inv s" and sane: "uffd_sane os" and nu: "\<not> mm_uffd s"
  shows "fst (take_frame os s) = None \<longleftrightarrow> fst (va_alloc (mm_vram s) SG_PAGE_SIZE) = None \<and> mm_resident s = []"
proof (cases "va_alloc (mm_vram s) SG_PAGE_SIZE")
  case (Pair x A)
  show ?thesis
  proof (cases "x = None \<and> mm_resident s \<noteq> []")
    case True
    with Pair va_alloc_None have A: "A = mm_vram s" by blast
    obtain rs m where cs: "clock_scan (length (mm_resident s)) (mm_resident s) (mm_mmu s) = (rs, m)" by fastforce
    have "mmu_inv (mm_mmu s)" using inv by (simp add: mgr_inv_def mem_inv_def)
    note C = clock_scan_props [OF cs this]
    let ?s1 = "put_mmu m (s\<lparr>mm_resident := rs\<rparr>)"
    have k: "keeps s ?s1" using keeps_same_map [OF inv] C by blast
    have "hd rs \<in> set (mm_resident ?s1)" using C True by (metis list.set_sel(1) mem_mgr.select_convs(4) mem_mgr.surjective mem_mgr.update_convs(4) put_mmu_sel(1) set_empty)
    from clock_front [OF keeps_inv [OF k] this] nu
    obtain pa s2 where "evict_locked os (hd rs) ?s1 = (Some pa, s2)"
      using evict_locked_succeeds [OF keeps_inv [OF k] sane] by fastforce
    then show ?thesis using True Pair A cs by (simp add: take_frame_def evict_one_locked_def)
  next
    case False
    then show ?thesis using Pair by (cases x) (auto simp: take_frame_def evict_one_locked_def)
  qed
qed

section \<open>Host faults\<close>

definition ranges_ok :: "mem_mgr \<Rightarrow> bool" where
  "ranges_ok s \<longleftrightarrow> (\<forall>(va, sp) \<in> set (mm_ranges s). page_offset va = 0 \<and> page_offset (ms_host sp) = 0 \<and>
     (\<forall>i. i < ms_end sp - va \<longrightarrow> page_offset i = 0 \<longrightarrow>
        hosted (mm_mmu s) (vpn_of (va + i)) \<and> mmu_host (mm_mmu s) (vpn_of (va + i)) = ms_host sp + i))"

lemma ranges_ok_keeps: "keeps s s' \<Longrightarrow> ranges_ok s' = ranges_ok s"
  by (simp add: keeps_def ranges_ok_def)

lemma page_offset_mult: "page_offset (k * 4096) = 0"
  by (simp add: page_offset_0_iff unat_word_ariths mod_mod_cancel)

lemma page_times: "page_offset a = 0 \<Longrightarrow> a = vpn_of a * 4096"
  using page_aligned_push [of a] by (simp add: push_bit_eq_mult)

lemma page_offset_add: "page_offset a = 0 \<Longrightarrow> page_offset b = 0 \<Longrightarrow> page_offset (a + b) = 0"
  using page_times [of a] page_times [of b] page_offset_mult [of "vpn_of a + vpn_of b"] by (simp add: distrib_right)

lemma page_offset_diff: "page_offset a = 0 \<Longrightarrow> page_offset b = 0 \<Longrightarrow> page_offset (a - b) = 0"
  using page_times [of a] page_times [of b] page_offset_mult [of "vpn_of a - vpn_of b"] by (simp add: left_diff_distrib)

lemma va_for_host_page:
  assumes "ranges_ok s" "page_offset hp = 0" "va_for_host hp s = Some va"
  shows "page_offset va = 0" "hosted (mm_mmu s) (vpn_of va)" "mmu_host (mm_mmu s) (vpn_of va) = hp"
proof -
  let ?p = "\<lambda>(va, sp). ms_host sp \<le> hp \<and> hp - ms_host sp < ms_end sp - va"
  from assms(3) obtain start sp where f: "find ?p (mm_ranges s) = Some (start, sp)" and va: "va = start + (hp - ms_host sp)"
    by (auto simp: va_for_host_def split: option.splits)
  then have m: "(start, sp) \<in> set (mm_ranges s)" "hp - ms_host sp < ms_end sp - start"
    unfolding find_Some_iff by (auto dest: nth_mem)
  have r: "page_offset start = 0" "page_offset (ms_host sp) = 0"
    "\<And>i. i < ms_end sp - start \<Longrightarrow> page_offset i = 0 \<Longrightarrow> hosted (mm_mmu s) (vpn_of (start + i)) \<and> mmu_host (mm_mmu s) (vpn_of (start + i)) = ms_host sp + i"
    using assms(1) m(1) unfolding ranges_ok_def by blast+
  have i: "page_offset (hp - ms_host sp) = 0" by (rule page_offset_diff [OF assms(2) r(2)])
  show "page_offset va = 0" unfolding va by (rule page_offset_add [OF r(1) i])
  show "hosted (mm_mmu s) (vpn_of va)" "mmu_host (mm_mmu s) (vpn_of va) = hp"
    using r(3) [OF m(2) i] unfolding va by simp_all
qed

lemma service_host_fault_ok:
  assumes inv: "mgr_inv s" and sane: "uffd_sane os" and rok: "ranges_ok s" and sv: "service_host_fault os a s = (woken, s')"
  shows "keeps s s'"
    "va_for_host (page_floor a) s = Some va \<Longrightarrow> dm_missing (mm_mem s') (page_floor a) \<Longrightarrow> woken \<and> uo_copy os (page_floor a) \<noteq> None"
proof -
  let ?hp = "page_floor a"
  define s0 where "s0 = s\<lparr>mm_host_faults := mm_host_faults s + 1\<rparr>"
  have inv0: "mgr_inv s0" and k0: "keeps s s0" using inv keeps_refl [OF inv] by (simp_all add: s0_def)
  have vh0: "va_for_host ?hp s0 = va_for_host ?hp s" by (simp add: s0_def va_for_host_def)
  have sv': "(woken, s') = (case va_for_host ?hp s0 of None \<Rightarrow> (True, s0)
      | Some va \<Rightarrow> if pi_kind (page va (mm_mmu s0)) = Vram then
               case evict_locked os va s0 of (Some pa, s1) \<Rightarrow> (False, free_frame pa s1) | (None, s1) \<Rightarrow> (True, s1)
             else (True, s0))"
    using sv unfolding service_host_fault_def Let_def s0_def [symmetric] by simp
  have miss: "dm_missing (mm_mem t) (mmu_host (mm_mmu t) v) = (mm_uffd t \<and> resident (mm_mmu t) v)" if "mgr_inv t" "hosted (mm_mmu t) v" for t v
    using that by (simp add: mgr_inv_def missing_ok_def)
  have main: "keeps s s' \<and> (dm_missing (mm_mem s') ?hp \<longrightarrow> woken \<and> uo_copy os ?hp \<noteq> None)" if vh: "va_for_host ?hp s = Some va" for va
  proof -
    note V = va_for_host_page [OF rok page_floor_aligned vh]
    have V0: "hosted (mm_mmu s0) (vpn_of va)" "mmu_host (mm_mmu s0) (vpn_of va) = ?hp" using V by (simp_all add: s0_def)
    show ?thesis
    proof (cases "resident (mm_mmu s0) (vpn_of va)")
      case False
      then have "(woken, s') = (True, s0)" using sv' vh vh0 by (simp add: page_eq no_page_def)
      moreover have "\<not> dm_missing (mm_mem s0) ?hp" using miss [OF inv0 V0(1)] V0(2) False by simp
      ultimately show ?thesis using k0 by simp
    next
      case True
      obtain r s1 where ev: "evict_locked os va s0 = (r, s1)" by fastforce
      note E = evict_locked_cases [OF inv0 sane V(1) refl True V0(1) ev]
      have k: "keeps s s1" using E keeps_trans [OF k0] by simp
      have h1: "hosted (mm_mmu s1) (vpn_of va)" "mmu_host (mm_mmu s1) (vpn_of va) = ?hp"
        using E V0 by (simp_all add: keeps_def)
      show ?thesis
      proof (cases r)
        case None
        then have "(woken, s') = (True, s1)" using sv' vh vh0 ev True by (simp add: page_eq)
        moreover have "uo_copy os ?hp \<noteq> None"
          using evict_locked_succeeds [OF inv0 sane V(1) True V0(1)] ev None V0(2) by (cases "uo_copy os ?hp") auto
        ultimately show ?thesis using k by simp
      next
        case (Some pa)
        have s': "(woken, s') = (False, free_frame pa s1)" using sv' vh vh0 ev True Some by (simp add: page_eq)
        have e: "pa = frame s0 (vpn_of va)" "evicts (vpn_of va) s0 s1" "mm_vram s1 = mm_vram s0" using E Some by simp_all
        have live: "(pa, SG_PAGE_SIZE) \<in> set (va_live (mm_vram s1))" using inv0 True V0(1) e by (auto simp: mgr_inv_def frames_live_def)
        have "keeps s1 (free_frame pa s1)"
          by (rule free_frame_keeps [OF keeps_inv [OF k] _ live]) (use evicted_unused [OF inv0 True e(2)] e(1) in \<open>simp_all add: pte_pa_aligned\<close>)
        moreover have "\<not> dm_missing (mm_mem s1) ?hp"
          using miss [OF keeps_inv [OF k] h1(1)] h1(2) e(2) by (simp add: evicts_def)
        ultimately show ?thesis using s' keeps_trans [OF k] by simp
      qed
    qed
  qed
  show "keeps s s'"
  proof (cases "va_for_host ?hp s")
    case None
    then show ?thesis using sv' k0 vh0 by simp
  next
    case (Some va)
    then show ?thesis using main by blast
  qed
  show "woken \<and> uo_copy os ?hp \<noteq> None" if "va_for_host ?hp s = Some va" "dm_missing (mm_mem s') ?hp"
    using main that by blast
qed

section \<open>Releasing a range\<close>

definition in_span :: "u64 \<Rightarrow> u64 \<Rightarrow> u64 \<Rightarrow> bool" where
  "in_span addr pages v \<longleftrightarrow> unat (v - vpn_of addr) < unat pages"

lemma unmapped_inv:
  assumes inv: "mgr_inv s" and un: "unmap addr n (mm_mmu s) = (None, m')"
    and rs: "distinct rs" "set rs = {a \<in> set (mm_resident s). \<not> in_span addr n (vpn_of a)}"
  shows "mgr_inv (put_mmu m' (s\<lparr>mm_resident := rs\<rparr>))"
    "logical ((mm_mem s)\<lparr>dm_mmu := m'\<rparr>) x = (if in_span addr n (vpn_of x) then None else logical (mm_mem s) x)"
    "resident m' v \<longleftrightarrow> resident (mm_mmu s) v \<and> \<not> in_span addr n v" "hosted m' v \<longleftrightarrow> hosted (mm_mmu s) v \<and> \<not> in_span addr n v"
    "\<not> in_span addr n v \<Longrightarrow> mmu_pte m' v = mmu_pte (mm_mmu s) v \<and> mmu_host m' v = mmu_host (mm_mmu s) v"
proof -
  have mi: "mem_inv (mm_mem s)" using inv by (simp add: mgr_inv_def)
  note U = mem_inv_unmap [OF mi un]
  have ok: "fst (unmap addr n (mm_mmu s)) = None" and m': "m' = snd (unmap addr n (mm_mmu s))" using un by simp_all
  have P: "\<not> in_span addr n v \<Longrightarrow> mmu_pte m' v = mmu_pte (mm_mmu s) v \<and> mmu_host m' v = mmu_host (mm_mmu s) v" for v
    unfolding in_span_def m' using unmap_pte(1) [OF ok] unmap_host(1) [OF ok] by simp
  show "logical ((mm_mem s)\<lparr>dm_mmu := m'\<rparr>) x = (if in_span addr n (vpn_of x) then None else logical (mm_mem s) x)"
    "resident m' v \<longleftrightarrow> resident (mm_mmu s) v \<and> \<not> in_span addr n v" "hosted m' v \<longleftrightarrow> hosted (mm_mmu s) v \<and> \<not> in_span addr n v"
    "\<not> in_span addr n v \<Longrightarrow> mmu_pte m' v = mmu_pte (mm_mmu s) v \<and> mmu_host m' v = mmu_host (mm_mmu s) v" for v x
    using U(2-5) P by (auto simp: in_span_def)
  have R: "resident m' v \<longleftrightarrow> resident (mm_mmu s) v \<and> \<not> in_span addr n v" "hosted m' v \<longleftrightarrow> hosted (mm_mmu s) v \<and> \<not> in_span addr n v" for v
    using U(4,5) by (simp_all add: in_span_def)
  have "managed_pages m' = {a \<in> managed_pages (mm_mmu s). \<not> in_span addr n (vpn_of a)}" by (auto simp: managed_pages_def R)
  then show "mgr_inv (put_mmu m' (s\<lparr>mm_resident := rs\<rparr>))"
    using inv U(1) rs P by (auto simp: mgr_inv_def clock_ok_def frames_live_def missing_ok_def R)
qed

lemma free_frames_inv:
  assumes "mgr_inv s" "distinct fs" "\<And>f. f \<in> set fs \<Longrightarrow> unused s f \<and> (f, SG_PAGE_SIZE) \<in> set (va_live (mm_vram s)) \<and> page_offset f = 0"
  shows "mgr_inv (fold free_frame fs s) \<and> mm_mem (fold free_frame fs s) = mm_mem s \<and> mm_uffd (fold free_frame fs s) = mm_uffd s \<and>
    set (va_live (mm_vram (fold free_frame fs s))) = {b \<in> set (va_live (mm_vram s)). fst b \<notin> set fs}"
  using assms
proof (induction fs arbitrary: s)
  case (Cons f fs)
  note f = Cons.prems(3) [of f, simplified]
  have k: "keeps s (free_frame f s)" using free_frame_keeps [OF Cons.prems(1)] f by simp
  have "unused (free_frame f s) g \<and> (g, SG_PAGE_SIZE) \<in> set (va_live (mm_vram (free_frame f s))) \<and> page_offset g = 0" if "g \<in> set fs" for g
    using Cons.prems(2,3) that by (auto simp: unused_def va_live_dealloc om_erase_def)
  from Cons.IH [OF keeps_inv [OF k] _ this] Cons.prems(2) show ?case by (auto simp: va_live_dealloc om_erase_def)
qed simp

lemma collect_frames_eq:
  assumes "collect_frames vas s = (frames, s1)" "distinct vas"
  shows "s1 = s\<lparr>mm_resident := mm_resident s1\<rparr>" "frames = map (\<lambda>a. frame s (vpn_of a)) (filter (\<lambda>a. resident (mm_mmu s) (vpn_of a)) vas)"
    "distinct (mm_resident s) \<Longrightarrow> distinct (mm_resident s1) \<and>
       set (mm_resident s1) = {a \<in> set (mm_resident s). \<not> (a \<in> set vas \<and> resident (mm_mmu s) (vpn_of a))}"
proof -
  have "s1 = s\<lparr>mm_resident := mm_resident s1\<rparr> \<and> frames = map (\<lambda>a. frame s (vpn_of a)) (filter (\<lambda>a. resident (mm_mmu s) (vpn_of a)) vas) \<and>
    (distinct (mm_resident s) \<longrightarrow> distinct (mm_resident s1) \<and>
       set (mm_resident s1) = {a \<in> set (mm_resident s). \<not> (a \<in> set vas \<and> resident (mm_mmu s) (vpn_of a))})"
    using assms
  proof (induction vas s arbitrary: frames s1 rule: collect_frames.induct)
    case (1 s)
    then show ?case by simp
  next
    case (2 va vas s)
    have k: "pi_kind (page va (mm_mmu s)) = Vram \<longleftrightarrow> resident (mm_mmu s) (vpn_of va)"
      by (simp add: page_eq no_page_def)
    show ?case
    proof (cases "resident (mm_mmu s) (vpn_of va)")
      case False
      then have c: "collect_frames vas s = (frames, s1)" using "2.prems"(1) k by simp
      from "2.IH"(1) [OF refl _ c] False k "2.prems"(2) show ?thesis by auto
    next
      case True
      let ?s0 = "forget_resident va s"
      obtain fs where c: "collect_frames vas ?s0 = (fs, s1)" "frames = frame s (vpn_of va) # fs"
        using "2.prems"(1) k True by (auto simp: page_eq split: prod.splits)
      from "2.IH"(2) [OF refl _ c(1)] True k "2.prems"(2)
      have IH: "s1 = ?s0\<lparr>mm_resident := mm_resident s1\<rparr>" "fs = map (\<lambda>a. frame ?s0 (vpn_of a)) (filter (\<lambda>a. resident (mm_mmu ?s0) (vpn_of a)) vas)"
        "distinct (mm_resident ?s0) \<longrightarrow> distinct (mm_resident s1) \<and>
          set (mm_resident s1) = {a \<in> set (mm_resident ?s0). \<not> (a \<in> set vas \<and> resident (mm_mmu ?s0) (vpn_of a))}" by auto
      have s1: "s1 = s\<lparr>mm_resident := mm_resident s1\<rparr>" by (subst IH(1)) (simp add: forget_resident_def)
      with IH(2,3) c(2) True "2.prems"(2) show ?thesis by (auto simp: forget_resident_def)
    qed
  qed
  then show "s1 = s\<lparr>mm_resident := mm_resident s1\<rparr>" "frames = map (\<lambda>a. frame s (vpn_of a)) (filter (\<lambda>a. resident (mm_mmu s) (vpn_of a)) vas)"
    "distinct (mm_resident s) \<Longrightarrow> distinct (mm_resident s1) \<and>
       set (mm_resident s1) = {a \<in> set (mm_resident s). \<not> (a \<in> set vas \<and> resident (mm_mmu s) (vpn_of a))}" by blast+
qed


lemma page_addrs_set:
  assumes al: "page_offset addr = 0" and b: "unat (vpn_of addr) + unat pages \<le> 2 ^ 52"
  shows "set (page_addrs addr pages) = {a. page_offset a = 0 \<and> in_span addr pages (vpn_of a)}" "distinct (page_addrs addr pages)"
proof -
  have ua: "unat addr = unat (vpn_of addr) * 4096"
    using al unfolding page_offset_0_iff unat_vpn_of by (metis mod_eq_0_iff_dvd dvd_div_mult_self)
  have at: "unat (addr + of_nat i * SG_PAGE_SIZE) = (unat (vpn_of addr) + i) * 4096" if "i < unat pages" for i
    using page_addr [OF _ that, of addr] b unfolding ua by (simp add: distrib_right)
  have vp: "vpn_of (addr + of_nat i * SG_PAGE_SIZE) = vpn_of addr + of_nat i \<and> page_offset (addr + of_nat i * SG_PAGE_SIZE) = 0"
    if "i < unat pages" for i
  proof -
    have "unat (vpn_of addr + of_nat i) = unat (vpn_of addr) + i"
      using b that by (subst unat_add_64) (simp_all add: unat_of_nat_64)
    then show ?thesis unfolding word_eq_unat [of "vpn_of _"] unat_vpn_of page_offset_0_iff at [OF that]
      by (simp add: unat_vpn_of)
  qed
  have idx: "unat (vpn_of addr + of_nat i - vpn_of addr) = i" if "i < unat pages" for i
    using that unat_less_64 [of pages] by (simp add: unat_of_nat_64)
  have "inj_on (\<lambda>i. addr + of_nat i * SG_PAGE_SIZE) {0 ..< unat pages}"
  proof (rule inj_onI)
    fix i j assume ij: "i \<in> {0 ..< unat pages}" "j \<in> {0 ..< unat pages}" "addr + of_nat i * SG_PAGE_SIZE = addr + of_nat j * SG_PAGE_SIZE"
    then have "i < unat pages" "j < unat pages" by simp_all
    with arg_cong [OF ij(3), of unat] have "(unat (vpn_of addr) + i) * 4096 = (unat (vpn_of addr) + j) * 4096"
      unfolding at [OF \<open>i < unat pages\<close>] at [OF \<open>j < unat pages\<close>] by blast
    then show "i = j" by simp
  qed
  then show "distinct (page_addrs addr pages)" by (simp add: page_addrs_def distinct_map)
  show "set (page_addrs addr pages) = {a. page_offset a = 0 \<and> in_span addr pages (vpn_of a)}"
  proof (intro set_eqI iffI)
    fix a assume "a \<in> set (page_addrs addr pages)"
    then obtain i where "i < unat pages" "a = addr + of_nat i * SG_PAGE_SIZE" by (auto simp: page_addrs_def)
    with vp idx show "a \<in> {a. page_offset a = 0 \<and> in_span addr pages (vpn_of a)}" by (simp add: in_span_def)
  next
    fix a assume "a \<in> {a. page_offset a = 0 \<and> in_span addr pages (vpn_of a)}"
    then have a: "page_offset a = 0" and lt: "unat (vpn_of a - vpn_of addr) < unat pages" by (simp_all add: in_span_def)
    define i where "i = unat (vpn_of a - vpn_of addr)"
    have i: "i < unat pages" using lt by (simp only: i_def)
    have "vpn_of a = vpn_of addr + of_nat i" by (simp add: i_def)
    then have "vpn_of a = vpn_of (addr + of_nat i * SG_PAGE_SIZE)" using vp [OF i] by (simp only:)
    then have "a = addr + of_nat i * SG_PAGE_SIZE" using vp [OF i] by (intro vpn_page_inj [OF a]) blast+
    then show "a \<in> set (page_addrs addr pages)" using i unfolding page_addrs_def by force
  qed
qed

lemma unmap_span:
  assumes "mgr_inv s" "page_offset addr = 0" "unat (vpn_of addr) + unat pages \<le> unat (mmu_npages (mm_mmu s))" "pages \<noteq> 0"
  shows "\<exists>m'. unmap addr pages (mm_mmu s) = (None, m')" "unat (vpn_of addr) + unat pages \<le> 2 ^ 52"
proof -
  have np: "mmu_npages (mm_mmu s) \<le> 2 ^ 52" using assms(1) by (auto simp: mgr_inv_def mem_inv_def mmu_inv_def frames_ok_def)
  then show "unat (vpn_of addr) + unat pages \<le> 2 ^ 52" using assms(3) by (simp add: word_le_unat)
  have "0 < unat pages" using assms(4) by (simp add: unat_gt_0)
  then have "\<not> mmu_npages (mm_mmu s) \<le> vpn_of addr" "\<not> mmu_npages (mm_mmu s) - vpn_of addr < pages"
    using assms(3) by (simp_all add: word_le_unat word_less_unat unat_sub_64)
  then show "\<exists>m'. unmap addr pages (mm_mmu s) = (None, m')"
    using assms(2,4) by (simp add: unmap_def Let_def vpn_of_def [symmetric] page_offset_def)
qed

text \<open>A managed range as \<^verbatim>\<open>SG_IOC_ALLOC_MANAGED\<close> leaves it: its pages have host backing, and no other page is
  backed by its host memory.\<close>

definition span_ok :: "pending \<Rightarrow> mem_mgr \<Rightarrow> bool" where
  "span_ok p s \<longleftrightarrow> (let pages = pd_size p div SG_PAGE_SIZE in
     page_offset (pd_addr p) = 0 \<and> pages \<noteq> 0 \<and> unat (vpn_of (pd_addr p)) + unat pages \<le> unat (mmu_npages (mm_mmu s)) \<and>
     (\<forall>v. in_span (pd_addr p) pages v \<longrightarrow> hosted (mm_mmu s) v) \<and>
     (\<forall>v. hosted (mm_mmu s) v \<longrightarrow> mmu_host (mm_mmu s) v - pd_host p < pd_size p \<longrightarrow> in_span (pd_addr p) pages v))"

lemma release_host_ok:
  assumes inv: "mgr_inv s" and out: "\<And>v. hosted (mm_mmu s) v \<Longrightarrow> \<not> mmu_host (mm_mmu s) v - hp < bytes"
  shows "mgr_inv (release_host hp bytes s)" "logical (mm_mem (release_host hp bytes s)) = logical (mm_mem s)"
proof -
  let ?mis = "\<lambda>a. dm_missing (mm_mem s) a \<and> \<not> a - hp < bytes"
  have M: "mem_inv ((mm_mem s)\<lparr>dm_missing := ?mis\<rparr>)" "logical ((mm_mem s)\<lparr>dm_missing := ?mis\<rparr>) = logical (mm_mem s)"
    using mem_inv_missing [of "mm_mem s" ?mis] inv out by (simp_all add: mgr_inv_def)
  show "logical (mm_mem (release_host hp bytes s)) = logical (mm_mem s)" using M(2) by (simp add: release_host_def)
  have "missing_ok (release_host hp bytes s)" "frames_live (release_host hp bytes s)"
    using inv out by (auto simp: mgr_inv_def missing_ok_def frames_live_def release_host_def)
  then show "mgr_inv (release_host hp bytes s)" using inv M(1) by (simp add: release_host_def mgr_inv_def clock_ok_def)
qed

lemma mgr_inv_va [simp]: "mgr_inv (s\<lparr>mm_managed_va := A\<rparr>) = mgr_inv s"
  by (simp add: mgr_inv_def clock_ok_def frames_live_def missing_ok_def)

lemma recycle_managed_ok:
  assumes inv: "mgr_inv s" and k: "pd_kind p = kManaged" and sp: "span_ok p s" and pages: "pages = pd_size p div SG_PAGE_SIZE"
  shows "mgr_inv (recycle p s)"
    "logical (mm_mem (recycle p s)) x = (if in_span (pd_addr p) pages (vpn_of x) then None else logical (mm_mem s) x)"
    "in_span (pd_addr p) pages v \<Longrightarrow> resident (mm_mmu s) v \<Longrightarrow> (frame s v, SG_PAGE_SIZE) \<notin> set (va_live (mm_vram (recycle p s)))"
proof -
  let ?a = "pd_addr p" and ?in = "in_span (pd_addr p) pages"
  define s0 where "s0 = s\<lparr>mm_ranges := om_erase ?a (mm_ranges s)\<rparr>"
  have inv0: "mgr_inv s0" using inv by (simp add: s0_def mgr_inv_def clock_ok_def frames_live_def missing_ok_def)
  have sp': "page_offset ?a = 0" "pages \<noteq> 0" "unat (vpn_of ?a) + unat pages \<le> unat (mmu_npages (mm_mmu s))"
    "\<And>v. ?in v \<Longrightarrow> hosted (mm_mmu s) v" "\<And>v. hosted (mm_mmu s) v \<Longrightarrow> mmu_host (mm_mmu s) v - pd_host p < pd_size p \<Longrightarrow> ?in v"
    using sp unfolding span_ok_def Let_def pages by blast+
  note us = unmap_span [OF inv sp'(1,3,2)]
  note pa = page_addrs_set [OF sp'(1) us(2)]
  obtain frames s1 where cf: "collect_frames (page_addrs ?a pages) s0 = (frames, s1)" by fastforce
  note C = collect_frames_eq [OF cf pa(2)]
  obtain m' where un: "unmap ?a pages (mm_mmu s) = (None, m')" using us(1) by blast
  have dis: "distinct (mm_resident s0)" using inv0 by (simp add: mgr_inv_def clock_ok_def)
  have mp: "set (mm_resident s0) = managed_pages (mm_mmu s)" using inv by (simp add: s0_def mgr_inv_def clock_ok_def)
  have m0: "mm_mmu s0 = mm_mmu s" "mm_mem s0 = mm_mem s" "mm_vram s0 = mm_vram s" "mm_uffd s0 = mm_uffd s" by (simp_all add: s0_def)
  have rs: "distinct (mm_resident s1)" "set (mm_resident s1) = {a \<in> set (mm_resident s0). \<not> ?in (vpn_of a)}"
    using C(3) [OF dis] by (auto simp: pa(1) mp m0 managed_pages_def)
  have m1: "mm_mmu s1 = mm_mmu s" by (subst C(1)) (simp add: m0)
  define s2 where "s2 = put_mmu m' s1"
  have s2: "s2 = put_mmu m' (s0\<lparr>mm_resident := mm_resident s1\<rparr>)" unfolding s2_def by (subst C(1)) (rule refl)
  note U = unmapped_inv [OF inv0, unfolded m0, OF un rs]
  have inv2: "mgr_inv s2" and sel2: "mm_mem s2 = (mm_mem s)\<lparr>dm_mmu := m'\<rparr>" "mm_vram s2 = mm_vram s" "mm_uffd s2 = mm_uffd s"
    using U(1) by (simp_all add: s2 m0)
  have fr: "frames = map (\<lambda>a. frame s (vpn_of a)) (filter (\<lambda>a. resident (mm_mmu s) (vpn_of a)) (page_addrs ?a pages))"
    using C(2) by (simp add: m0)
  have fprop: "unused s2 f \<and> (f, SG_PAGE_SIZE) \<in> set (va_live (mm_vram s2)) \<and> page_offset f = 0" if "f \<in> set frames" for f
  proof -
    from that obtain a where a: "f = frame s (vpn_of a)" "resident (mm_mmu s) (vpn_of a)" "?in (vpn_of a)" by (auto simp: fr pa(1))
    have "unused s2 f"
      unfolding unused_def
    proof (intro allI impI notI)
      fix u assume "resident (mm_mmu s2) u" "frame s2 u = f"
      with unused_frame [OF inv a(2), of u] a show False by (simp add: sel2 U(3,5))
    qed
    moreover have "(f, SG_PAGE_SIZE) \<in> set (va_live (mm_vram s))" using inv a sp'(4) by (auto simp: mgr_inv_def frames_live_def)
    ultimately show ?thesis by (simp add: sel2 a(1) pte_pa_aligned)
  qed
  have "inj_on (\<lambda>a. frame s (vpn_of a)) (set (filter (\<lambda>a. resident (mm_mmu s) (vpn_of a)) (page_addrs ?a pages)))"
    using unused_frame [OF inv] vpn_page_inj by (auto simp: inj_on_def pa(1))
  then have df: "distinct frames" using pa(2) by (simp add: fr distinct_map)
  define s3 where "s3 = fold free_frame frames s2"
  note F = free_frames_inv [OF inv2 df fprop, folded s3_def]
  have r: "recycle p s = (let s4 = release_host (pd_host p) (pd_size p) s3 in s4\<lparr>mm_managed_va := snd (va_dealloc (mm_managed_va s4) ?a)\<rparr>)"
    using k cf un by (simp add: recycle_def Let_def pages [symmetric] s0_def [symmetric] s2_def s3_def m1)
  have m3: "mm_mem s3 = (mm_mem s)\<lparr>dm_mmu := m'\<rparr>" using F sel2 by simp
  have inv3: "mgr_inv s3" using F by simp
  have out: "\<not> mmu_host (mm_mmu s3) v - pd_host p < pd_size p" if "hosted (mm_mmu s3) v" for v
    using that sp'(5) [of v] U(4,5) by (auto simp: m3)
  note R = release_host_ok [OF inv3 out]
  show "mgr_inv (recycle p s)" using R(1) by (simp add: r Let_def)
  show "logical (mm_mem (recycle p s)) x = (if ?in (vpn_of x) then None else logical (mm_mem s) x)"
    using U(2) [of x] R(2) by (simp add: r Let_def m3)
  show "(frame s v, SG_PAGE_SIZE) \<notin> set (va_live (mm_vram (recycle p s)))" if v: "?in v" "resident (mm_mmu s) v"
  proof -
    have "v < 2 ^ 52" using v(2) inv by (auto simp: resident_def mgr_inv_def mem_inv_def mmu_inv_def frames_ok_def intro: less_le_trans)
    from frame_base [OF this, of 0] have "vpn_of (push_bit 12 v) = v" "page_offset (push_bit 12 v) = 0" by (simp_all add: SG_PAGE_SIZE_def)
    then have "frame s v \<in> set frames" using v unfolding fr by (auto simp: pa(1) intro!: image_eqI [of _ _ "push_bit 12 v"])
    then show ?thesis using F by (simp add: r release_host_def Let_def)
  qed
qed

text \<open>An \<^verbatim>\<open>sgMalloc\<close> block: no managed page in it, and its frames belong to its own pages.\<close>

definition block_ok :: "pending \<Rightarrow> mem_mgr \<Rightarrow> bool" where
  "block_ok p s \<longleftrightarrow> (let pages = pd_size p div SG_PAGE_SIZE in
     page_offset (pd_addr p) = 0 \<and> pages \<noteq> 0 \<and> unat (vpn_of (pd_addr p)) + unat pages \<le> unat (mmu_npages (mm_mmu s)) \<and>
     (\<forall>v. in_span (pd_addr p) pages v \<longrightarrow> \<not> hosted (mm_mmu s) v) \<and>
     (\<forall>v n. resident (mm_mmu s) v \<longrightarrow> (pd_addr p, n) \<in> set (va_live (mm_vram s)) \<longrightarrow> unat (frame s v) \<in> ivl (pd_addr p, n) \<longrightarrow>
        in_span (pd_addr p) pages v))"

lemma recycle_vram_ok:
  assumes inv: "mgr_inv s" and k: "pd_kind p = kVram" and sp: "block_ok p s" and pages: "pages = pd_size p div SG_PAGE_SIZE"
  shows "mgr_inv (recycle p s)"
    "logical (mm_mem (recycle p s)) x = (if in_span (pd_addr p) pages (vpn_of x) then None else logical (mm_mem s) x)"
    "pd_addr p \<notin> fst ` set (va_live (mm_vram (recycle p s)))"
proof -
  let ?a = "pd_addr p" and ?in = "in_span (pd_addr p) pages"
  have sp': "page_offset ?a = 0" "pages \<noteq> 0" "unat (vpn_of ?a) + unat pages \<le> unat (mmu_npages (mm_mmu s))"
    "\<And>v. ?in v \<Longrightarrow> \<not> hosted (mm_mmu s) v"
    "\<And>v n. resident (mm_mmu s) v \<Longrightarrow> (?a, n) \<in> set (va_live (mm_vram s)) \<Longrightarrow> unat (frame s v) \<in> ivl (?a, n) \<Longrightarrow> ?in v"
    using sp unfolding block_ok_def Let_def pages by blast+
  obtain m' where un: "unmap ?a pages (mm_mmu s) = (None, m')" using unmap_span(1) [OF inv sp'(1,3,2)] by blast
  have rs: "distinct (mm_resident s)" "set (mm_resident s) = {a \<in> set (mm_resident s). \<not> ?in (vpn_of a)}"
    using inv sp'(4) by (auto simp: mgr_inv_def clock_ok_def managed_pages_def)
  note U = unmapped_inv [OF inv un rs, simplified]
  have r: "recycle p s = free_frame ?a (put_mmu m' s)" using k un by (simp add: recycle_def Let_def pages [symmetric])
  have inv1: "mgr_inv (put_mmu m' s)" using U(1) by (simp add: put_mmu_def)
  have "keeps (put_mmu m' s) (free_frame ?a (put_mmu m' s))"
    by (rule free_block_inv [OF inv1]) (use sp'(5) U(3,5) in \<open>auto simp: put_mmu_def\<close>)
  then show "mgr_inv (recycle p s)" unfolding r by (rule keeps_inv)
  show "logical (mm_mem (recycle p s)) x = (if ?in (vpn_of x) then None else logical (mm_mem s) x)"
    using U(2) by (simp add: r)
  show "?a \<notin> fst ` set (va_live (mm_vram (recycle p s)))" by (auto simp: r va_live_dealloc om_erase_def)
qed

definition referenced :: "mmu \<Rightarrow> u64 \<Rightarrow> bool" where
  "referenced m a = accessedp (mmu_pte m (vpn_of a))"

lemma clock_scan_rotate:
  assumes "distinct (map vpn_of xs)" "\<forall>a \<in> set xs. vpn_of a < mmu_npages m" "clock_scan (length xs) (xs @ ys) m = (rs', m')"
  shows "rs' = dropWhile (referenced m) xs @ ys @ takeWhile (referenced m) xs \<and> same_map m m' \<and>
    (\<forall>a. vpn_of a \<notin> vpn_of ` set xs \<longrightarrow> referenced m' a = referenced m a) \<and>
    (\<forall>a \<in> set xs. referenced m' a \<longleftrightarrow> referenced m a \<and> a \<notin> set (takeWhile (referenced m) xs))"
  using assms
proof (induction xs arbitrary: ys m)
  case Nil
  then show ?case by (auto intro: same_map_refl)
next
  case (Cons x xs)
  let ?v = "vpn_of x"
  have t: "test_and_clear_accessed x m = (referenced m x, set_pte ?v (mmu_pte m ?v AND NOT PTE_ACCESSED) m)" (is "_ = (_, ?m1)")
    using Cons.prems(2) by (auto simp: test_and_clear_accessed_def Let_def vpn_of_def referenced_def flag_test)
  have sm: "same_map m ?m1" using test_and_clear_accessed_same [of m x] t by simp
  have ref1: "referenced ?m1 a \<longleftrightarrow> vpn_of a \<noteq> ?v \<and> referenced m a" for a by (simp add: referenced_def pte_simps)
  have diff: "vpn_of a \<noteq> ?v" if "a \<in> set xs" for a using Cons.prems(1) that by (metis distinct.simps(2) image_eqI list.set_map list.simps(9))
  show ?case
  proof (cases "referenced m x")
    case True
    have rest: "clock_scan (length xs) (xs @ ys @ [x]) ?m1 = (rs', m')" using Cons.prems(3) t True by simp
    have pre: "distinct (map vpn_of xs)" "\<forall>a \<in> set xs. vpn_of a < mmu_npages ?m1" using Cons.prems(1,2) by simp_all
    have IH: "rs' = dropWhile (referenced ?m1) xs @ (ys @ [x]) @ takeWhile (referenced ?m1) xs" "same_map ?m1 m'"
      "\<And>a. vpn_of a \<notin> vpn_of ` set xs \<Longrightarrow> referenced m' a = referenced ?m1 a"
      "\<And>a. a \<in> set xs \<Longrightarrow> referenced m' a \<longleftrightarrow> referenced ?m1 a \<and> a \<notin> set (takeWhile (referenced ?m1) xs)"
      using Cons.IH [OF pre, of "ys @ [x]"] rest by blast+
    have eq: "takeWhile (referenced ?m1) xs = takeWhile (referenced m) xs" "dropWhile (referenced ?m1) xs = dropWhile (referenced m) xs"
      using ref1 diff by (auto intro!: takeWhile_cong dropWhile_cong)
    have "?v \<notin> vpn_of ` set xs" using Cons.prems(1) by simp
    then have "\<not> referenced m' x" using IH(3) ref1 by simp
    moreover have "referenced m' a \<longleftrightarrow> referenced m a \<and> a \<notin> set (takeWhile (referenced m) xs)" "a \<noteq> x" if "a \<in> set xs" for a
      using IH(4) [OF that] ref1 [of a] diff [OF that] by (auto simp: eq)
    moreover have "referenced m' a = referenced m a" if "vpn_of a \<notin> vpn_of ` set (x # xs)" for a
      using IH(3) [of a] ref1 [of a] that by auto
    ultimately show ?thesis using IH(1) same_map_trans [OF sm IH(2)] True by (simp add: eq)
  next
    case False
    then have r: "rs' = x # xs @ ys" "m' = ?m1" using Cons.prems(3) t by simp_all
    have "referenced m' a = referenced m a" for a
      unfolding r(2) using ref1 [of a] False by (cases "vpn_of a = ?v") (simp_all add: referenced_def)
    moreover have "same_map m m'" unfolding r(2) by (rule sm)
    ultimately show ?thesis using False r(1) by simp
  qed
qed

section \<open>Properties\<close>

text \<open>C8: Servicing a page fault moves pages without changing memory. \<^verbatim>\<open>migrate_locked\<close> keeps the manager's invariant and
  the contents of every mapped byte, evicting another managed page when no frame is free. It returns success
  exactly with the page in VRAM, \<^verbatim>\<open>EFAULT\<close> exactly for an address that is not mapped, and \<^verbatim>\<open>ENOMEM\<close> only when
  neither the allocator nor an eviction yields a frame; without \<^verbatim>\<open>userfaultfd\<close> that means VRAM is full and
  holds no managed page.\<close>

theorem migrate_correct:
  assumes "mgr_inv s" "uffd_sane os" "page_offset va = 0" "migrate_locked os va s = ((rc, moved), s')"
  shows "mgr_inv s' \<and> logical (mm_mem s') = logical (mm_mem s) \<and>
    (rc = None \<longrightarrow> resident (mm_mmu s') (vpn_of va)) \<and> (moved \<longleftrightarrow> rc = None \<and> \<not> resident (mm_mmu s) (vpn_of va)) \<and>
    (rc = Some EFAULT \<longleftrightarrow> logical (mm_mem s) va = None) \<and>
    (rc = None \<or> rc = Some EFAULT \<or> rc = Some ENOMEM \<and> fst (take_frame os s) = None) \<and>
    (\<not> mm_uffd s \<longrightarrow> rc = Some ENOMEM \<longrightarrow> fst (va_alloc (mm_vram s) SG_PAGE_SIZE) = None \<and> mm_resident s = [])"
proof -
  note M = migrate_locked_ok [OF assms(1-3) refl assms(4)]
  have "backing_ok (mm_mmu s)" using assms(1) by (simp add: mgr_inv_def mem_inv_def)
  then have "logical (mm_mem s) va = None \<longleftrightarrow> \<not> resident (mm_mmu s) (vpn_of va) \<and> \<not> hosted (mm_mmu s) (vpn_of va)"
    using backing_okD(2) [of "mm_mmu s" "vpn_of va"]
    by (auto simp: logical_def pt_lookup_def Let_def resident_def hosted_def split: translate_status.splits if_splits)
  then show ?thesis using M take_frame_fails [OF assms(1,2)] by (auto simp: keeps_def env_def)
qed

text \<open>The CLOCK scan gives every referenced page a second chance: one call moves the referenced pages at the front
  of the list to its back, in order and with their reference bits cleared, and stops at the first page that was
  not referenced; if all were referenced the list is as before and every bit is clear. The scan never changes
  what is mapped.\<close>

theorem clock_scan_second_chance:
  assumes "distinct (map vpn_of rs)" "\<forall>a \<in> set rs. vpn_of a < mmu_npages m" "clock_scan (length rs) rs m = (rs', m')"
  shows "rs' = dropWhile (referenced m) rs @ takeWhile (referenced m) rs \<and> same_map m m' \<and>
    (\<forall>a \<in> set rs. referenced m' a \<longleftrightarrow> referenced m a \<and> a \<notin> set (takeWhile (referenced m) rs))"
  using clock_scan_rotate [of rs m "[]"] assms by simp

text \<open>C18: With \<^verbatim>\<open>userfaultfd\<close>, host and device see the same memory: when the handler of a host fault is done, the faulting
  host page has contents again unless the kernel refused the copy (and then the thread is woken to fault again),
  and every byte the host then reads in it is the byte the device memory had there. No other byte changes.\<close>

theorem host_fault_coherent:
  assumes "mgr_inv s" "uffd_sane os" "ranges_ok s" "service_host_fault os a s = (woken, s')"
    and "va_for_host (page_floor a) s = Some va"
  shows "mgr_inv s' \<and> logical (mm_mem s') = logical (mm_mem s) \<and>
    (uo_copy os (page_floor a) = None \<longrightarrow> \<not> dm_missing (mm_mem s') (page_floor a)) \<and>
    (\<not> dm_missing (mm_mem s') (page_floor a) \<longrightarrow> mm_uffd s \<longrightarrow>
       (\<forall>off < SG_PAGE_SIZE. logical (mm_mem s) (va + off) = Some (dm_host (mm_mem s') (page_floor a + off))))"
proof -
  let ?hp = "page_floor a"
  note H = service_host_fault_ok [OF assms(1-4)]
  note V = va_for_host_page [OF assms(3) page_floor_aligned assms(5)]
  have h': "hosted (mm_mmu s') (vpn_of va)" "mmu_host (mm_mmu s') (vpn_of va) = ?hp" "mgr_inv s'" "mm_uffd s' = mm_uffd s"
    "logical (mm_mem s') = logical (mm_mem s)" using H(1) V by (simp_all add: keeps_def env_def)
  have "logical (mm_mem s') (va + off) = Some (dm_host (mm_mem s') (?hp + off))"
    if nm: "\<not> dm_missing (mm_mem s') ?hp" and u: "mm_uffd s" and off: "off < SG_PAGE_SIZE" for off
  proof -
    have "\<not> resident (mm_mmu s') (vpn_of va)" using h' nm u by (auto simp: mgr_inv_def missing_ok_def)
    moreover have "unat va mod 4096 + unat off < 4096"
      using V(1) off by (simp add: page_offset_0_iff word_less_unat SG_PAGE_SIZE_def)
    from same_page [OF this] have "vpn_of (va + off) = vpn_of va" "page_offset (va + off) = off" using V(1) by simp_all
    ultimately show ?thesis using h'(1,2)
      by (auto simp: logical_def pt_lookup_def Let_def resident_def hosted_def not_le split: translate_status.split)
  qed
  then show ?thesis using H(2) [OF assms(5)] h' by auto
qed

text \<open>C34: Making room for \<^verbatim>\<open>sgMalloc\<close>: evicting all managed pages terminates, changes no contents, and without
  \<^verbatim>\<open>userfaultfd\<close> leaves no managed page in VRAM.\<close>

theorem evict_all_correct:
  assumes "mgr_inv s" "uffd_sane os"
  shows "mgr_inv (evict_all_locked os s) \<and> logical (mm_mem (evict_all_locked os s)) = logical (mm_mem s) \<and>
    (\<not> mm_uffd s \<longrightarrow> mm_resident (evict_all_locked os s) = [] \<and>
       (\<forall>v. hosted (mm_mmu s) v \<longrightarrow> \<not> resident (mm_mmu (evict_all_locked os s)) v))"
proof -
  let ?s = "evict_all_locked os s"
  note K = evict_all_keeps [OF assms]
  have inv: "mgr_inv ?s" "hosted (mm_mmu ?s) = hosted (mm_mmu s)" using K by (simp_all add: keeps_def)
  have "\<not> resident (mm_mmu ?s) v" if "mm_resident ?s = []" "hosted (mm_mmu s) v" for v
  proof
    assume r: "resident (mm_mmu ?s) v"
    have "v < 2 ^ 52" using r inv(1) by (auto simp: resident_def mgr_inv_def mem_inv_def mmu_inv_def frames_ok_def intro: less_le_trans)
    from frame_base [OF this, of 0] have "push_bit 12 v \<in> managed_pages (mm_mmu ?s)"
      using r that(2) inv(2) by (simp add: managed_pages_def SG_PAGE_SIZE_def)
    then show False using inv(1) that(1) by (simp add: mgr_inv_def clock_ok_def)
  qed
  then show ?thesis using K evict_all_empty [OF assms] by (auto simp: keeps_def env_def)
qed

text \<open>C35: Releasing a managed range is safe: the invariant holds afterwards, the range is unmapped and every other
  byte keeps its contents, and the frames its pages held are no longer allocated.\<close>

theorem recycle_managed_safe:
  assumes "mgr_inv s" "pd_kind p = kManaged" "span_ok p s"
  shows "mgr_inv (recycle p s) \<and>
    logical (mm_mem (recycle p s)) = (\<lambda>x. if in_span (pd_addr p) (pd_size p div SG_PAGE_SIZE) (vpn_of x) then None else logical (mm_mem s) x) \<and>
    (\<forall>v. in_span (pd_addr p) (pd_size p div SG_PAGE_SIZE) v \<longrightarrow> resident (mm_mmu s) v \<longrightarrow>
       (frame s v, SG_PAGE_SIZE) \<notin> set (va_live (mm_vram (recycle p s))))"
  using recycle_managed_ok [OF assms refl] by (simp add: fun_eq_iff)

text \<open>Releasing an \<^verbatim>\<open>sgMalloc\<close> block unmaps exactly its range and returns its VRAM, and keeps the invariant and all
  other contents.\<close>

theorem recycle_vram_safe:
  assumes "mgr_inv s" "pd_kind p = kVram" "block_ok p s"
  shows "mgr_inv (recycle p s) \<and>
    logical (mm_mem (recycle p s)) = (\<lambda>x. if in_span (pd_addr p) (pd_size p div SG_PAGE_SIZE) (vpn_of x) then None else logical (mm_mem s) x) \<and>
    pd_addr p \<notin> fst ` set (va_live (mm_vram (recycle p s)))"
  using recycle_vram_ok [OF assms refl] by (simp add: fun_eq_iff)

text \<open>C40: A host copy that could not be dropped goes stale. If \<^verbatim>\<open>MADV_DONTNEED\<close> failed when a page migrated, its host page
  still has contents when it is evicted; \<^verbatim>\<open>UFFDIO_COPY\<close> then reports \<^verbatim>\<open>EEXIST\<close>, the driver takes that as success,
  and memory reads as the old host bytes again whatever the device wrote.\<close>

theorem undropped_copy_goes_stale:
  assumes "mem_inv (mm_mem s)" "mm_uffd s" "page_offset va = 0" "resident (mm_mmu s) (vpn_of va)" "hosted (mm_mmu s) (vpn_of va)"
    and "\<not> dm_missing (mm_mem s) (mmu_host (mm_mmu s) (vpn_of va))" "off < SG_PAGE_SIZE"
  shows "\<exists>s'. evict_locked os va s = (Some (frame s (vpn_of va)), s') \<and>
    logical (mm_mem s) (va + off) = Some (dm_vram (mm_mem s) (frame s (vpn_of va) + off)) \<and>
    logical (mm_mem s') (va + off) = Some (dm_host (mm_mem s) (mmu_host (mm_mmu s) (vpn_of va) + off))"
proof -
  let ?v = "vpn_of va" and ?m = "mm_mmu s"
  obtain old m1 where be: "begin_evict va ?m = (old, m1)" by fastforce
  obtain late m2 where ee: "end_evict va m1 = (late, m2)" by fastforce
  note B = evict_tables [OF assms(1) refl assms(5,4) be ee]
  have h: "mmu_host ?m ?v \<noteq> 0" "in_vramp (mmu_pte ?m ?v)" "presentp (mmu_pte ?m ?v)" "?v < mmu_npages ?m"
    using assms(4,5) by (auto simp: hosted_def resident_def)
  have ok: "\<not> dm_vram_size (mm_mem s) \<le> frame s ?v" using frame_in_vram [OF assms(1,4)] by (simp add: not_le)
  obtain s' where ev: "evict_locked os va s = (Some (frame s ?v), s')" "mm_mem s' = (mm_mem s)\<lparr>dm_mmu := m2\<rparr>"
    using assms(2,4,6) h B(1,2) ok
    by (simp add: evict_locked_def page_eq be ee flag_test Let_def publish_host_def uffd_copy_page_def pte_pa_aligned
        count_writeback_def forget_resident_def)
  have "unat va mod 4096 + unat off < 4096" using assms(3,7) by (simp add: page_offset_0_iff word_less_unat SG_PAGE_SIZE_def)
  from same_page [OF this] have x: "vpn_of (va + off) = ?v" "page_offset (va + off) = off" using assms(3) by simp_all
  have "phys ?m (va + off) = Some (frame s ?v + off)" using assms(4) x by (simp add: phys_iff)
  moreover have "fst (pt_lookup m2 (va + off)) = HostResident"
    using B(3,6) h(4) x by (simp add: pt_lookup_def Let_def pte_simps not_le)
  ultimately show ?thesis using ev logical_Ok [of "mm_mem s"] x B(5) by (auto simp: logical_def)
qed

section \<open>Witnesses\<close>

text \<open>Two frames of VRAM and one managed range of two pages, all on the host.\<close>

definition demo_mgr :: "bool \<Rightarrow> mem_mgr" where
  "demo_mgr u = \<lparr>mm_mem = demo_mem, mm_vram = va_new 0 0x2000 SG_PAGE_SIZE, mm_managed_va = va_new 0x2000 0x1000 SG_PAGE_SIZE,
     mm_resident = [], mm_ranges = [(0, \<lparr>ms_end = 0x2000, ms_host = 0x10000\<rparr>)], mm_uffd = u, mm_prefetch_pages = 0,
     mm_streams = (\<lambda>_ _. replicate kFaultStreams \<lparr>fs_next = 0, fs_used = 0\<rparr>), mm_stream_clock = 0, mm_migrations = 0,
     mm_prefetches = 0, mm_evictions = 0, mm_writebacks = 0, mm_bytes_migrated = 0, mm_host_faults = 0\<rparr>"

definition demo_os :: uffd_os where
  "demo_os = \<lparr>uo_copy = (\<lambda>_. None), uo_dontneed = (\<lambda>_. True)\<rparr>"

definition demo_mgr1 :: "bool \<Rightarrow> mem_mgr" where
  "demo_mgr1 u = snd (migrate_locked demo_os 0 (demo_mgr u))"

lemma demo_os_sane: "uffd_sane demo_os"
  by (simp add: uffd_sane_def demo_os_def)

lemma demo_mgr_sel [simp]:
  "mm_mem (demo_mgr u) = demo_mem" "mm_vram (demo_mgr u) = va_new 0 0x2000 SG_PAGE_SIZE" "mm_resident (demo_mgr u) = []"
  "mm_uffd (demo_mgr u) = u" "mm_ranges (demo_mgr u) = [(0, \<lparr>ms_end = 0x2000, ms_host = 0x10000\<rparr>)]"
  "dm_mmu demo_mem = demo_mmu" "dm_vram_size demo_mem = 0x2000" "dm_missing demo_mem = (\<lambda>_. False)" "dm_host demo_mem = (\<lambda>_. 7)"
  by (simp_all add: demo_mgr_def demo_mem_def mem_new_def)

lemma word_less_2: "v < 2 \<longleftrightarrow> v = 0 \<or> v = (1 :: u64)"
proof -
  have "unat v < 2 \<longleftrightarrow> unat v = 0 \<or> unat v = 1" by linarith
  then show ?thesis 
    unfolding word_less_unat word_eq_unat by simp
qed

lemma demo_page_table:
  "\<not> resident demo_mmu v" "hosted demo_mmu v \<longleftrightarrow> v = 0 \<or> v = 1" "mmu_host demo_mmu 1 = 0x11000"
proof -
  have "fst (map_host 0 0x10000 2 (mmu_new 0x3000 0x2000)) = None" by code_simp
  note M = map_host_success [OF this, folded demo_mmu_def]
  have z: "vpn_of 0 = 0" "unat v < 2 \<longleftrightarrow> v = 0 \<or> v = 1"
    using word_less_2 [of v] by (simp_all add: vpn_of_def word_less_unat)
  show host: "mmu_host demo_mmu 1 = 0x11000" using M(2) [of 1] by (simp add: z SG_PAGE_SIZE_def)
  have P: "mmu_pte demo_mmu v = (if v = 0 \<or> v = 1 then PTE_PRESENT else 0)" using M(1) [of v] by (simp add: z mmu_new_def)
  then show "\<not> resident demo_mmu v" by (simp add: resident_def pte_simps)
  show "hosted demo_mmu v \<longleftrightarrow> v = 0 \<or> v = 1" using P host demo_tables by (auto simp: hosted_def pte_simps)
qed

lemma demo_mgr_inv: "mgr_inv (demo_mgr u)"
proof -
  have "va_inv 0 (unat (0x2000 :: u64)) (va_new 0 0x2000 SG_PAGE_SIZE) []"
    by (rule va_new_inv [of 0 _ SG_PAGE_SIZE, simplified]) (simp_all add: SG_PAGE_SIZE_def)
  then show ?thesis
    using demo_mem_inv demo_page_table(1)
    by (simp add: mgr_inv_def clock_ok_def managed_pages_def frames_live_def missing_ok_def va_new_def)
qed

lemma demo_ranges: "ranges_ok (demo_mgr u)"
proof -
  have "vpn_of i = 0 \<and> i = 0 \<or> vpn_of i = 1 \<and> i = 0x1000" if "i < 0x2000" "page_offset i = 0" for i
  proof -
    have "unat i div 4096 < 2" using that(1) by (simp add: word_less_unat)
    then have v: "vpn_of i = 0 \<or> vpn_of i = 1" using word_less_2 [of "vpn_of i"] by (simp add: word_less_unat unat_vpn_of)
    then show ?thesis using page_times [OF that(2)] by auto
  qed
  from this have "hosted demo_mmu (vpn_of i) \<and> mmu_host demo_mmu (vpn_of i) = 0x10000 + i" if "i < 0x2000" "page_offset i = 0" for i
    using that demo_tables(3) demo_page_table(2,3) by fastforce
  then show ?thesis by (simp add: ranges_ok_def page_offset_def SG_PAGE_SIZE_def)
qed

lemma demo_migrate:
  "migrate_locked demo_os 0 (demo_mgr u) = ((None, True), demo_mgr1 u)" "mgr_inv (demo_mgr1 u)"
  "logical (mm_mem (demo_mgr1 u)) = logical demo_mem" "resident (mm_mmu (demo_mgr1 u)) 0" "keeps (demo_mgr u) (demo_mgr1 u)"
proof -
  obtain rc mv where mg: "migrate_locked demo_os 0 (demo_mgr u) = ((rc, mv), demo_mgr1 u)"
    by (metis demo_mgr1_def prod.collapse)
  have v: "page_offset 0 = 0" "0 = vpn_of 0" by (simp_all add: page_offset_def vpn_of_def)
  note M = migrate_locked_ok [OF demo_mgr_inv demo_os_sane v mg]
  have "fst (take_frame demo_os (demo_mgr u)) \<noteq> None"
    by (simp add: take_frame_def va_new_def va_alloc_def va_need_def SG_PAGE_SIZE_def)
  with M demo_page_table show "migrate_locked demo_os 0 (demo_mgr u) = ((None, True), demo_mgr1 u)" "mgr_inv (demo_mgr1 u)"
    "logical (mm_mem (demo_mgr1 u)) = logical demo_mem" "resident (mm_mmu (demo_mgr1 u)) 0" "keeps (demo_mgr u) (demo_mgr1 u)"
    by (simp_all add: mg keeps_def env_def)
qed

theorem migrate_correct_witness:
  "migrate_locked demo_os 0 (demo_mgr True) = ((None, True), demo_mgr1 True) \<and> mgr_inv (demo_mgr1 True) \<and>
   logical (mm_mem (demo_mgr1 True)) = logical demo_mem \<and> resident (mm_mmu (demo_mgr1 True)) 0"
  using migrate_correct [OF demo_mgr_inv demo_os_sane _ demo_migrate(1)] demo_migrate(1)
  by (simp add: page_offset_def vpn_of_def)

text \<open>Page 0 was referenced and page 1 was not: page 0 moves behind page 1.\<close>

definition demo_clock :: mmu where
  "demo_clock = set_pte 0 (PTE_PRESENT OR PTE_ACCESSED) demo_mmu"

theorem clock_scan_second_chance_witness:
  "\<exists>m'. clock_scan 2 [0, 0x1000] demo_clock = ([0x1000, 0], m') \<and> same_map demo_clock m' \<and> \<not> referenced m' 0"
proof -
  obtain rs' m' where c: "clock_scan (length [0, 0x1000 :: u64]) [0, 0x1000] demo_clock = (rs', m')" by fastforce
  have v: "vpn_of 0 = 0" "vpn_of 0x1000 = 1" by code_simp+
  have r: "referenced demo_clock 0" "\<not> referenced demo_clock 0x1000"
    using demo_tables(2) by (simp_all add: referenced_def demo_clock_def v pte_simps)
  have "rs' = dropWhile (referenced demo_clock) [0, 0x1000] @ takeWhile (referenced demo_clock) [0, 0x1000] \<and> same_map demo_clock m' \<and>
    (\<forall>a \<in> set [0, 0x1000]. referenced m' a \<longleftrightarrow> referenced demo_clock a \<and> a \<notin> set (takeWhile (referenced demo_clock) [0, 0x1000]))"
    by (rule clock_scan_second_chance [OF _ _ c]) (simp_all add: v demo_clock_def demo_tables(4))
  with c r show ?thesis by (auto simp: numeral_2_eq_2)
qed

theorem host_fault_coherent_witness:
  "\<exists>w s'. service_host_fault demo_os 0x10005 (demo_mgr1 True) = (w, s') \<and> dm_missing (mm_mem (demo_mgr1 True)) 0x10000 \<and>
     \<not> dm_missing (mm_mem s') 0x10000 \<and> logical (mm_mem (demo_mgr1 True)) 5 = Some (dm_host (mm_mem s') 0x10005)"
proof -
  obtain w s' where h: "service_host_fault demo_os 0x10005 (demo_mgr1 True) = (w, s')" by fastforce
  have f: "page_floor 0x10005 = 0x10000" by code_simp
  have k: "mm_ranges (demo_mgr1 True) = mm_ranges (demo_mgr True)" "mm_uffd (demo_mgr1 True)" "hosted (mm_mmu (demo_mgr1 True)) 0"
    "mmu_host (mm_mmu (demo_mgr1 True)) 0 = 0x10000"
    using demo_migrate(5) [of True] demo_page_table(2) demo_tables(3) by (simp_all add: keeps_def)
  have va: "va_for_host (page_floor 0x10005) (demo_mgr1 True) = Some 0" by (simp add: va_for_host_def k f)
  have "ranges_ok (demo_mgr1 True)" using ranges_ok_keeps [OF demo_migrate(5)] demo_ranges by blast
  note C = host_fault_coherent [OF demo_migrate(2) demo_os_sane this h va, unfolded f]
  have "uo_copy demo_os 0x10000 = None" by (simp add: demo_os_def)
  moreover have "(5 :: u64) < SG_PAGE_SIZE" by (simp add: SG_PAGE_SIZE_def)
  moreover have "dm_missing (mm_mem (demo_mgr1 True)) 0x10000"
    using demo_migrate(2,4) [of True] k by (auto simp: mgr_inv_def missing_ok_def)
  ultimately show ?thesis using C h k(2) by force
qed

theorem evict_all_correct_witness:
  "resident (mm_mmu (demo_mgr1 False)) 0 \<and> \<not> resident (mm_mmu (evict_all_locked demo_os (demo_mgr1 False))) 0 \<and>
   logical (mm_mem (evict_all_locked demo_os (demo_mgr1 False))) = logical demo_mem"
proof -
  have "hosted (mm_mmu (demo_mgr1 False)) 0" "\<not> mm_uffd (demo_mgr1 False)"
    using demo_migrate(5) [of False] demo_page_table(2) by (simp_all add: keeps_def)
  then show ?thesis using evict_all_correct [OF demo_migrate(2) demo_os_sane, of False] demo_migrate(3,4) [of False] by simp
qed

definition demo_free :: "pending_kind \<Rightarrow> u64 \<Rightarrow> pending" where
  "demo_free k bytes = \<lparr>pd_kind = k, pd_addr = 0, pd_size = bytes, pd_host = 0x10000, pd_fence = (\<lambda>_ _. 0)\<rparr>"

theorem recycle_managed_safe_witness:
  "mgr_inv (recycle (demo_free kManaged 0x2000) (demo_mgr1 True)) \<and> logical (mm_mem (demo_mgr1 True)) 5 = Some 7 \<and>
   logical (mm_mem (recycle (demo_free kManaged 0x2000) (demo_mgr1 True))) 5 = None"
proof -
  let ?p = "demo_free kManaged 0x2000" and ?s = "demo_mgr1 True"
  have n: "pd_size ?p div SG_PAGE_SIZE = 2" by code_simp
  have k: "hosted (mm_mmu ?s) = hosted demo_mmu" "mmu_npages (mm_mmu ?s) = 3" using demo_migrate(5) [of True] demo_tables by (simp_all add: keeps_def)
  have sp: "in_span (pd_addr ?p) 2 v \<longleftrightarrow> v = 0 \<or> v = 1" for v
    using word_less_2 [of v] by (simp add: in_span_def demo_free_def vpn_of_def word_less_unat)
  have "span_ok ?p ?s" unfolding span_ok_def Let_def n using sp demo_page_table(2) k
    by (simp add: demo_free_def page_offset_def vpn_of_def)
  note R = recycle_managed_safe [OF demo_migrate(2) _ this, unfolded n]
  have v: "vpn_of 5 = 0" by code_simp
  have "logical demo_mem 5 = Some 7" using demo_tables by (simp add: logical_def pt_lookup_def Let_def v pte_simps)
  then show ?thesis using R sp demo_migrate(3) [of True] v by (simp add: demo_free_def)
qed

text \<open>One page of VRAM allocated by \<^verbatim>\<open>sgMalloc\<close>.\<close>

definition demo_vram :: mem_mgr where
  "demo_vram = (demo_mgr False)\<lparr>mm_mem := (mem_new 0x2000 0x3000 (\<lambda>_. 7))\<lparr>dm_mmu := snd (map_vram 0 0 1 (mmu_new 0x3000 0x2000))\<rparr>,
     mm_vram := snd (va_alloc (va_new 0 0x2000 SG_PAGE_SIZE) 0x1000)\<rparr>"

lemma demo_vram_block:
  "mgr_inv demo_vram" "block_ok (demo_free kVram 0x1000) demo_vram" "logical (mm_mem demo_vram) 5 = Some 0"
proof -
  let ?d = "mem_new 0x2000 0x3000 (\<lambda>_. 7)" and ?m = "mm_mmu demo_vram" and ?p = "demo_free kVram 0x1000"
  have d: "dm_mmu ?d = mmu_new 0x3000 0x2000" by (simp add: mem_new_def)
  have ok: "fst (map_vram 0 0 1 (mmu_new 0x3000 0x2000)) = None" by code_simp
  have m: "?m = snd (map_vram 0 0 1 (mmu_new 0x3000 0x2000))" by (simp add: demo_vram_def)
  then have map: "map_vram 0 0 1 (dm_mmu ?d) = (None, ?m)" using ok by (simp add: d prod_eq_iff)
  have no: "\<not> resident (dm_mmu ?d) u" "\<not> hosted (dm_mmu ?d) u" for u
    by (simp_all add: d resident_def hosted_def mmu_new_def pte_simps)
  note M = mem_inv_map_vram [OF mem_inv_new map]
  have P: "mmu_pte ?m v = (if v = 0 then PTE_PRESENT OR PTE_IN_VRAM else 0)" for v
    using map_vram_success [OF ok, of v] unfolding m by (simp add: vpn_of_def unat_eq_0 mmu_new_def)
  have np: "mmu_npages ?m = 3" unfolding m by (simp add: mmu_new_def SG_PAGE_SIZE_def)
  have "hosted ?m = hosted (dm_mmu ?d)" by (rule M(3)) (use no in blast)
  then have R: "resident ?m v \<longleftrightarrow> v = 0" "hosted ?m v = False" for v
    using P np no(2) by (auto simp: resident_def pte_simps)
  have L: "va_live (mm_vram demo_vram) = [(0, 0x1000)]"
    by (simp add: demo_vram_def va_new_def va_alloc_def va_need_def SG_PAGE_SIZE_def om_erase_def um_emplace_def)
  have fr: "frame demo_vram 0 = 0" using P [of 0] by (simp add: pte_pa_frame pte_simps)
  have A: "va_alloc (va_new 0 0x2000 SG_PAGE_SIZE) 0x1000 = (Some 0, mm_vram demo_vram)"
    by (simp add: demo_vram_def va_new_def va_alloc_def va_need_def SG_PAGE_SIZE_def)
  have inv0: "va_inv 0 (unat (0x2000 :: u64)) (va_new 0 0x2000 SG_PAGE_SIZE) []"
    using demo_mgr_inv [of False] by (simp add: mgr_inv_def)
  have "va_inv 0 (unat (0x2000 :: u64)) (mm_vram demo_vram) []"
    by (rule va_alloc_inv [OF inv0 _ A]) (simp add: va_fits_def va_new_def SG_PAGE_SIZE_def)
  moreover have "mem_inv (mm_mem demo_vram)" using M(1) no by (simp add: demo_vram_def)
  moreover have "va_align (mm_vram demo_vram) = SG_PAGE_SIZE"
    by (simp add: demo_vram_def va_new_def va_alloc_def va_need_def SG_PAGE_SIZE_def)
  moreover have "dm_vram_size (mm_mem demo_vram) = 0x2000" "mm_resident demo_vram = []" by (simp_all add: demo_vram_def mem_new_def)
  ultimately show "mgr_inv demo_vram"
    using R L fr by (simp add: mgr_inv_def clock_ok_def managed_pages_def frames_live_def missing_ok_def mem_ivl)
  have "pd_size ?p div SG_PAGE_SIZE = 1" by code_simp
  then show "block_ok ?p demo_vram" using R np
    by (simp add: block_ok_def demo_free_def in_span_def vpn_of_def page_offset_def)
  have "vpn_of 5 = 0" "page_offset 5 = 5" by code_simp+
  then have "phys ?m 5 = Some 5" using R(1) fr by (simp add: phys_iff)
  then show "logical (mm_mem demo_vram) 5 = Some 0" using logical_Ok by (fastforce simp: demo_vram_def mem_new_def)
qed

theorem recycle_vram_safe_witness:
  "mgr_inv (recycle (demo_free kVram 0x1000) demo_vram) \<and> logical (mm_mem demo_vram) 5 = Some 0 \<and>
   logical (mm_mem (recycle (demo_free kVram 0x1000) demo_vram)) 5 = None"
proof -
  have "pd_size (demo_free kVram 0x1000) div SG_PAGE_SIZE = 1" "in_span 0 1 (vpn_of 5)" by code_simp+
  then show ?thesis using recycle_vram_safe [OF demo_vram_block(1) _ demo_vram_block(2)] demo_vram_block(3)
    by (simp add: demo_free_def)
qed

text \<open>What a failed \<^verbatim>\<open>MADV_DONTNEED\<close> leaves behind: page 0 is in VRAM and its host page still has contents. The
  device then writes byte 5.\<close>

definition demo_stale :: mem_mgr where
  "demo_stale = (demo_mgr True)\<lparr>mm_mem := demo_mem1\<lparr>dm_vram := (dm_vram demo_mem1)(0x1005 := 9),
     dm_mmu := snd (translate 0 5 True (dm_mmu demo_mem1))\<rparr>, mm_resident := [0]\<rparr>"

theorem undropped_copy_goes_stale_witness:
  "\<exists>s'. evict_locked demo_os 0 demo_stale = (Some 0x1000, s') \<and> logical (mm_mem demo_stale) 5 = Some 9 \<and>
     logical (mm_mem s') 5 = Some 7"
proof -
  let ?m = "dm_mmu demo_mem1"
  obtain r m' where tr: "translate 0 5 True ?m = (r, m')" by fastforce
  define d where "d = demo_mem1\<lparr>dm_mmu := m'\<rparr>"
  have sd: "mm_mem demo_stale = d\<lparr>dm_vram := (dm_vram d)(0x1005 := 9)\<rparr>" by (simp add: demo_stale_def d_def tr)
  have inv: "mem_inv demo_mem1" using demo_migrated(1) by (simp add: env_def)
  have v: "vpn_of 5 = 0" "page_offset 5 = 5" "vpn_of 0 = 0" "page_offset 0 = 0" by code_simp+
  have ph: "phys ?m 5 = Some 0x1005" using demo_migrated(2,6) by (simp add: phys_iff v)
  then have "fst (pt_lookup ?m 5) = Ok" by (simp add: phys_def split: if_splits)
  then have T: "mmu_inv m'" "same_map ?m m'" "dirtyp (mmu_pte m' 0)"
    using translate_ok [OF _ _ tr] inv v(1) by (simp_all add: mem_inv_def SG_MAX_ENGINES_def)
  have dinv: "mem_inv d" using mem_inv_same_map [OF inv T(2,1)] by (simp add: d_def)
  have md: "dm_mmu d = m'" by (simp add: d_def)
  have "phys m' 5 = Some 0x1005" using phys_same_map [OF T(2)] ph by simp
  then have run: "run_ok (dm_mmu d) True 5 0x1005 1" using T(3) v by (simp add: run_ok_def md)
  have sinv: "mem_inv (mm_mem demo_stale)" unfolding sd by (rule store_run(1) [OF dinv run]) auto
  have m: "mm_mmu demo_stale = m'" "dm_missing (mm_mem demo_stale) = dm_missing demo_mem1" "dm_host (mm_mem demo_stale) = dm_host demo_mem1"
    "mm_uffd demo_stale" by (simp_all add: sd md, simp_all add: d_def demo_stale_def)
  have h1: "dm_missing demo_mem1 a = False" "dm_host demo_mem1 a = 7" for a
    by (simp_all add: demo_mem1_def copy_in_def demo_mem_def mem_new_def)
  have "mmu_host ?m 0 = 0x10000" using demo_tables(3) by (simp add: demo_mem1_def make_resident_def Let_def)
  then have hst: "mmu_host m' 0 = 0x10000" "resident m' 0" "hosted m' 0" "pte_pa (mmu_pte m' 0) = 0x1000"
    using T(2) demo_migrated(2,6) same_map_views [OF T(2)] by (simp_all add: same_map_def pte_pa_frame resident_def hosted_def)
  have five: "(5 :: u64) < SG_PAGE_SIZE" by (simp add: SG_PAGE_SIZE_def)
  have stale: "\<exists>s'. evict_locked demo_os 0 demo_stale = (Some (frame demo_stale (vpn_of 0)), s') \<and>
    logical (mm_mem demo_stale) (0 + 5) = Some (dm_vram (mm_mem demo_stale) (frame demo_stale (vpn_of 0) + 5)) \<and>
    logical (mm_mem s') (0 + 5) = Some (dm_host (mm_mem demo_stale) (mmu_host (mm_mmu demo_stale) (vpn_of 0) + 5))"
    by (rule undropped_copy_goes_stale [OF sinv m(4) v(4) _ _ _ five]) (simp_all add: m hst v h1)
  then show ?thesis by (simp add: m hst v h1) (simp add: sd)
qed

end
