(* ===== verification/Waits.thy ===== *)
theory Waits
  imports Knobs Managed
begin

text \<open>
  The driver's state (\<^verbatim>\<open>struct Driver\<close> of \<^verbatim>\<open>src/src/driver/driver.cpp\<close>), its creation from the environment, and the fences and
  waits: \<^verbatim>\<open>wait_until\<close> with its spin and block phases, \<^verbatim>\<open>wait_fence\<close>, \<^verbatim>\<open>wait_snapshot\<close> and \<^verbatim>\<open>drain\<close>.

  A call into the driver runs beside the engines, the fault thread and other callers. Wherever it reads state that they
  change, the model consults a list of functions, one per read: what the other threads have done to the driver by
  then. A wait whose list ends before its condition holds has not returned, and is \<^const>\<open>None\<close>.
\<close>

section \<open>State\<close>

record fence =
  fn_engine :: u32
  fn_channel :: u32
  fn_value :: u64

record slot =
  sl_fence :: fence
  sl_busy :: bool

text \<open>\<open>al_host\<close> is the managed backing, 0 for \<^verbatim>\<open>sgMalloc\<close>.\<close>

record alloc =
  al_size :: u64
  al_host :: u64

record counters =
  ct_waits :: u64
  ct_waits_spun :: u64
  ct_waits_blocked :: u64
  ct_wake_latency_ns :: u64
  ct_submits :: u64
  ct_staging_waits :: u64
  ct_lock_wait_ns :: u64
  ct_bytes_h2d :: u64
  ct_bytes_d2h :: u64
  ct_bytes_direct :: u64
  ct_bytes_staged :: u64
  ct_host_fault_ns :: u64

text \<open>The device's memory is the one of \<open>dr_mm\<close>; \<open>dr_dev\<close> holds its registers. \<open>dr_log\<close> is history only: the commands the
  caller at work has enqueued, in order.\<close>

record driver =
  dr_dev :: device
  dr_ring :: ring_drv
  dr_mm :: mem_mgr
  dr_allocs :: "(u64, alloc) omap"
  dr_pending :: "pending list"
  dr_pins :: "(u64, u64) omap"
  dr_staging :: u64
  dr_slot :: "slot list"
  dr_chunk :: u64
  dr_next_slot :: nat
  dr_policy :: sg_wait_policy
  dr_spin_ns :: u64
  dr_idle_policy :: sg_idle_policy
  dr_idle_ns :: u64
  dr_timeslice_ns :: u64
  dr_ewma :: "u32 \<Rightarrow> u32 \<Rightarrow> u64"
  dr_ewma_all :: u64
  dr_ct :: counters
  dr_uffd_hold :: bool
  dr_kmod :: bool
  dr_log :: "(u32 \<times> u32 \<times> sg_cmd) list"

type_synonym others = "driver \<Rightarrow> driver"

definition no_fence :: fence where
  "no_fence = \<lparr>fn_engine = 0, fn_channel = 0, fn_value = 0\<rparr>"

definition zero_counters :: counters where
  "zero_counters = \<lparr>ct_waits = 0, ct_waits_spun = 0, ct_waits_blocked = 0, ct_wake_latency_ns = 0, ct_submits = 0,
     ct_staging_waits = 0, ct_lock_wait_ns = 0, ct_bytes_h2d = 0, ct_bytes_d2h = 0, ct_bytes_direct = 0, ct_bytes_staged = 0,
     ct_host_fault_ns = 0\<rparr>"

text \<open>The constructor, and \<^verbatim>\<open>power_on\<close>. \<open>staging\<close> is where the staging pool was allocated, \<open>host\<close> the initial contents of
  host memory; whether \<^verbatim>\<open>userfaultfd\<close> and the char device are there is up to the system.\<close>

definition driver_new :: "environ \<Rightarrow> bool \<Rightarrow> bool \<Rightarrow> u64 \<Rightarrow> (u64 \<Rightarrow> u8) \<Rightarrow> driver" where
  "driver_new ev uffd_ok kmod staging host =
     (let depth = ring_depth_from_env ev;
          dev = device_new SG_VRAM_SIZE SG_VA_SIZE (copy_engines_from_env ev) (channels_from_env ev) host;
          uffd = (ev ''SG_UFFD'' \<noteq> Some ''0'' \<and> uffd_ok)
      in \<lparr>dr_dev = dev\<lparr>dv_ch := (\<lambda>_ _. fresh_channel\<lparr>ring_mask := depth - 1\<rparr>), dv_words := (if kmod then Some (\<lambda>_. 0) else None),
            dv_host_irq := kmod, dv_idle_policy := idle_policy_from_env ev, dv_idle_ns := idle_ns_from_env ev,
            dv_timeslice_ns := timeslice_from_env ev, dv_running := True\<rparr>,
          dr_ring = \<lparr>rd_mode = submit_mode_from_env ev, rd_depth = depth, rd_put = (\<lambda>_ _. 0), rd_reserve = (\<lambda>_ _. 0),
            rd_lock = (\<lambda>_ _. False), rd_stalls = 0\<rparr>,
          dr_mm = \<lparr>mm_mem = mem_new SG_VRAM_SIZE SG_VA_SIZE host, mm_vram = va_new 0 SG_VRAM_SIZE SG_ALLOC_ALIGN,
            mm_managed_va = va_new SG_VRAM_SIZE (SG_VA_SIZE - SG_VRAM_SIZE) SG_ALLOC_ALIGN, mm_resident = [], mm_ranges = [],
            mm_uffd = uffd, mm_prefetch_pages = prefetch_from_env ev,
            mm_streams = (\<lambda>_ _. replicate kFaultStreams \<lparr>fs_next = 0, fs_used = 0\<rparr>), mm_stream_clock = 0,
            mm_migrations = 0, mm_prefetches = 0, mm_evictions = 0, mm_writebacks = 0, mm_bytes_migrated = 0, mm_host_faults = 0\<rparr>,
          dr_allocs = [], dr_pending = [], dr_pins = [], dr_staging = staging,
          dr_slot = replicate (unat (staging_slots_from_env ev)) \<lparr>sl_fence = no_fence, sl_busy = False\<rparr>,
          dr_chunk = staging_chunk_from_env ev, dr_next_slot = 0, dr_policy = policy_from_env ev, dr_spin_ns = spin_ns_from_env ev,
          dr_idle_policy = idle_policy_from_env ev, dr_idle_ns = idle_ns_from_env ev, dr_timeslice_ns = timeslice_from_env ev,
          dr_ewma = (\<lambda>_ _. 0), dr_ewma_all = 0, dr_ct = zero_counters, dr_uffd_hold = False, dr_kmod = kmod, dr_log = []\<rparr>)"

section \<open>Fences\<close>

definition sticky :: "driver \<Rightarrow> errno option" where
  "sticky d =
     (let errs = concat (map (\<lambda>e. map (\<lambda>c. sticky_error (dv_ch (dr_dev d) e c)) (channel_list (dr_dev d))) (engine_list (dr_dev d)))
      in case find (\<lambda>x. x \<noteq> None) errs of None \<Rightarrow> None | Some x \<Rightarrow> x)"

definition retired :: "driver \<Rightarrow> u32 \<Rightarrow> u32 \<Rightarrow> u64" where
  "retired d e c = ch_get (dv_ch (dr_dev d) e c)"

definition published :: "driver \<Rightarrow> u32 \<Rightarrow> u32 \<Rightarrow> u64" where
  "published d e c = rd_put (dr_ring d) e c"

definition arm_fence :: "u32 \<Rightarrow> u32 \<Rightarrow> u64 \<Rightarrow> driver \<Rightarrow> driver" where
  "arm_fence e c target d = d\<lparr>dr_dev := arm_irq e c target (dr_dev d)\<rparr>"

definition kMinSpinNs :: u64 where "kMinSpinNs = 200"
definition kAdaptiveFloorNs :: u64 where "kAdaptiveFloorNs = 2000"

datatype wait_kind = kNoWait | kSpun | kBlocked

text \<open>The average a wait keeps: the pointer \<^verbatim>\<open>ewma\<close> of \<^verbatim>\<open>wait_until\<close>.\<close>

datatype ewma_ref = NoEwma | EwmaOf u32 u32 | EwmaAll

fun get_ewma :: "ewma_ref \<Rightarrow> driver \<Rightarrow> u64" where
  "get_ewma NoEwma d = 0"
| "get_ewma (EwmaOf e c) d = dr_ewma d e c"
| "get_ewma EwmaAll d = dr_ewma_all d"

fun set_ewma :: "ewma_ref \<Rightarrow> u64 \<Rightarrow> driver \<Rightarrow> driver" where
  "set_ewma NoEwma v d = d"
| "set_ewma (EwmaOf e c) v d = d\<lparr>dr_ewma := set2 e c v (dr_ewma d)\<rparr>"
| "set_ewma EwmaAll v d = d\<lparr>dr_ewma_all := v\<rparr>"

definition wait_policy :: "u32 \<Rightarrow> driver \<Rightarrow> sg_wait_policy" where
  "wait_policy flags d =
     (if flags AND SG_WAIT_SPIN \<noteq> 0 then SG_POLICY_SPIN
      else if flags AND SG_WAIT_BLOCK \<noteq> 0 then SG_POLICY_BLOCK
      else dr_policy d)"

definition wait_budget :: "sg_wait_policy \<Rightarrow> ewma_ref \<Rightarrow> driver \<Rightarrow> u64" where
  "wait_budget policy ew d =
     (case policy of
        SG_POLICY_SPIN \<Rightarrow> NOT 0
      | SG_POLICY_BLOCK \<Rightarrow> 0
      | SG_POLICY_ADAPTIVE \<Rightarrow>
          (let typical = get_ewma ew d in
           if typical = 0 then dr_spin_ns d
           else if typical > dr_spin_ns d then kAdaptiveFloorNs
           else max kAdaptiveFloorNs (min (2 * typical) (dr_spin_ns d)))
      | SG_POLICY_HYBRID \<Rightarrow> dr_spin_ns d)"

text \<open>The spin phase: \<open>n\<close> polls are left in this round, \<open>t0\<close> is the time at the end of the first round, 0 before.\<close>

function spin :: "(driver \<Rightarrow> bool) \<Rightarrow> u64 \<Rightarrow> nat \<Rightarrow> u64 \<Rightarrow> others list \<Rightarrow> driver \<Rightarrow> ((bool \<times> u64) \<times> others list \<times> driver) option" where
  "spin pred budget (Suc n) t0 [] d = None"
| "spin pred budget (Suc n) t0 (w # ws) d =
     (if pred (w d) then Some ((True, t0), ws, w d) else spin pred budget n t0 ws (w d))"
| "spin pred budget 0 t0 ws d =
     (if t0 = 0 then spin pred budget 32 (dv_now (dr_dev d)) ws d
      else if budget \<noteq> NOT 0 \<and> dv_now (dr_dev d) - t0 \<ge> budget then Some ((False, t0), ws, d)
      else spin pred budget 32 t0 ws d)"
  by pat_completeness auto

termination
  by (relation "measure (\<lambda>(_, _, n, _, ws, _). 2 * length ws + (if n = 0 then 1 else 0))") auto

text \<open>The block phase: arm, check, sleep, check. A sleep ends by an interrupt, by its timeout or for no reason.\<close>

fun block :: "(driver \<Rightarrow> bool) \<Rightarrow> others \<Rightarrow> others list \<Rightarrow> driver \<Rightarrow> (others list \<times> driver) option" where
  "block pred am (w1 # w2 # w3 # ws) d =
     (let d1 = w2 (am (w1 d)) in
      if pred d1 then Some (w3 # ws, d1)
      else let d2 = w3 d1 in if pred d2 then Some (ws, d2) else block pred am ws d2)"
| "block pred am _ d = None"

definition update_ewma :: "sg_wait_policy \<Rightarrow> ewma_ref \<Rightarrow> bool \<Rightarrow> u64 \<Rightarrow> driver \<Rightarrow> driver" where
  "update_ewma policy ew dn t0 d =
     (if policy = SG_POLICY_ADAPTIVE \<and> ew \<noteq> NoEwma then
        let stop = (if dn then dv_now (dr_dev d) else dv_last_irq (dr_dev d));
            dur = (if t0 \<noteq> 0 \<and> stop > t0 then stop - t0 else kMinSpinNs);
            old = get_ewma ew d
        in set_ewma ew (if old = 0 then dur else (3 * old + dur) div 4) d
      else d)"

definition wait_until :: "(driver \<Rightarrow> bool) \<Rightarrow> others \<Rightarrow> u32 \<Rightarrow> ewma_ref \<Rightarrow> others list \<Rightarrow> driver \<Rightarrow>
    (wait_kind \<times> others list \<times> driver) option" where
  "wait_until pred am flags ew ws d =
     (if pred d then Some (kNoWait, ws, d)
      else let policy = wait_policy flags d in
        case spin pred (wait_budget policy ew d) 512 0 ws d of
          None \<Rightarrow> None
        | Some ((True, t0), ws1, d1) \<Rightarrow>
            Some (kSpun, ws1, update_ewma policy ew True t0 (d1\<lparr>dr_ct := (dr_ct d1)\<lparr>ct_waits_spun := ct_waits_spun (dr_ct d1) + 1\<rparr>\<rparr>))
        | Some ((False, t0), ws1, d1) \<Rightarrow>
            (case block pred am ws1 (d1\<lparr>dr_ct := (dr_ct d1)\<lparr>ct_waits_blocked := ct_waits_blocked (dr_ct d1) + 1\<rparr>\<rparr>) of
               None \<Rightarrow> None
             | Some (ws2, d2) \<Rightarrow> Some (kBlocked, ws2, update_ewma policy ew False t0 d2)))"

definition note_wake :: "driver \<Rightarrow> driver" where
  "note_wake d =
     (let fired = dv_last_irq (dr_dev d); now = dv_now (dr_dev d)
      in if fired \<noteq> 0 \<and> now > fired
         then d\<lparr>dr_ct := (dr_ct d)\<lparr>ct_wake_latency_ns := ct_wake_latency_ns (dr_ct d) + (now - fired)\<rparr>\<rparr> else d)"

definition count_wait :: "bool \<Rightarrow> driver \<Rightarrow> driver" where
  "count_wait staging d =
     (if staging then d\<lparr>dr_ct := (dr_ct d)\<lparr>ct_staging_waits := ct_staging_waits (dr_ct d) + 1\<rparr>\<rparr>
      else d\<lparr>dr_ct := (dr_ct d)\<lparr>ct_waits := ct_waits (dr_ct d) + 1\<rparr>\<rparr>)"

definition end_wait :: "bool \<Rightarrow> wait_kind \<Rightarrow> driver \<Rightarrow> errno option \<times> driver" where
  "end_wait staging r d =
     (let d1 = (if r = kBlocked then note_wake d else d);
          d2 = (if r \<noteq> kNoWait then count_wait staging d1 else d1)
      in (if sticky d2 \<noteq> None then Some EIO else None, d2))"

definition passed :: "fence \<Rightarrow> driver \<Rightarrow> bool" where
  "passed f d \<longleftrightarrow> fn_value f \<le> retired d (fn_engine f) (fn_channel f)"

definition wait_fence :: "fence \<Rightarrow> bool \<Rightarrow> u32 \<Rightarrow> others list \<Rightarrow> driver \<Rightarrow> (errno option \<times> others list \<times> driver) option" where
  "wait_fence f staging flags ws d =
     (case wait_until (passed f) (arm_fence (fn_engine f) (fn_channel f) (fn_value f)) flags (EwmaOf (fn_engine f) (fn_channel f)) ws d of
        None \<Rightarrow> None
      | Some (r, ws1, d1) \<Rightarrow> (case end_wait staging r d1 of (rc, d2) \<Rightarrow> Some (rc, ws1, d2)))"

definition snapshot_puts :: "driver \<Rightarrow> u32 \<Rightarrow> u32 \<Rightarrow> u64" where
  "snapshot_puts d e c = (if e < num_engines (dr_dev d) \<and> c < num_channels (dr_dev d) then published d e c else 0)"

definition all_retired :: "(u32 \<Rightarrow> u32 \<Rightarrow> u64) \<Rightarrow> driver \<Rightarrow> bool" where
  "all_retired snap d \<longleftrightarrow>
     list_all (\<lambda>e. list_all (\<lambda>c. \<not> retired d e c < snap e c) (channel_list (dr_dev d))) (engine_list (dr_dev d))"

definition arm_snapshot :: "(u32 \<Rightarrow> u32 \<Rightarrow> u64) \<Rightarrow> driver \<Rightarrow> driver" where
  "arm_snapshot snap d =
     fold (\<lambda>e d. fold (\<lambda>c d. if snap e c \<noteq> 0 \<and> retired d e c < snap e c then arm_fence e c (snap e c) d else d)
       (channel_list (dr_dev d)) d) (engine_list (dr_dev d)) d"

definition wait_snapshot :: "(u32 \<Rightarrow> u32 \<Rightarrow> u64) \<Rightarrow> u32 \<Rightarrow> others list \<Rightarrow> driver \<Rightarrow> (errno option \<times> others list \<times> driver) option" where
  "wait_snapshot snap flags ws d =
     (case wait_until (all_retired snap) (arm_snapshot snap) flags EwmaAll ws d of
        None \<Rightarrow> None
      | Some (r, ws1, d1) \<Rightarrow> (case end_wait False r d1 of (rc, d2) \<Rightarrow> Some (rc, ws1, d2)))"

definition drain :: "others list \<Rightarrow> driver \<Rightarrow> (errno option \<times> others list \<times> driver) option" where
  "drain ws d = wait_snapshot (snapshot_puts d) SG_WAIT_DEFAULT ws d"

section \<open>What a wait guarantees\<close>

lemma spin_sound: "spin pred budget n t0 ws d = Some ((True, t1), ws', d') \<Longrightarrow> pred d'"
  by (induction pred budget n t0 ws d rule: spin.induct) (auto split: if_splits)

lemma block_sound: "block pred am ws d = Some (ws', d') \<Longrightarrow> pred d'"
  by (induction pred am ws d rule: block.induct) (auto simp: Let_def split: if_splits)

text \<open>A condition on the device's registers and the rings is not affected by the wait's own bookkeeping.\<close>

definition book_free :: "(driver \<Rightarrow> 'a) \<Rightarrow> bool" where
  "book_free P \<longleftrightarrow> (\<forall>d ct. P (d\<lparr>dr_ct := ct\<rparr>) = P d) \<and> (\<forall>d f. P (d\<lparr>dr_ewma := f\<rparr>) = P d) \<and> (\<forall>d v. P (d\<lparr>dr_ewma_all := v\<rparr>) = P d)"

lemma book_freeD: "book_free P \<Longrightarrow> P (update_ewma policy ew dn t0 d) = P d" "book_free P \<Longrightarrow> P (snd (end_wait staging r d)) = P d"
  by (cases ew; simp add: update_ewma_def book_free_def Let_def)
    (simp add: end_wait_def note_wake_def count_wait_def book_free_def Let_def)

lemma book_free_regs: "book_free (passed f)" "book_free (all_retired snap)" "book_free sticky" "book_free dr_dev" "book_free dr_ring"
  "book_free dr_mm" "book_free dr_allocs" "book_free dr_pending" "book_free dr_pins" "book_free dr_slot" "book_free dr_staging" "book_free dr_chunk" "book_free dr_log"
  by (simp_all add: book_free_def passed_def retired_def all_retired_def sticky_def)

lemma wait_until_sound:
  assumes "wait_until pred am flags ew ws d = Some (r, ws', d')" "book_free pred"
  shows "pred d'"
  using assms spin_sound block_sound book_freeD(1) [OF assms(2)]
  by (fastforce simp: wait_until_def Let_def book_free_def split: if_splits option.splits prod.splits bool.splits)

lemma end_wait_rc: "fst (end_wait staging r d) = (if sticky (snd (end_wait staging r d)) \<noteq> None then Some EIO else None)"
  by (simp add: end_wait_def Let_def)

text \<open>C15: What a completed wait means. When \<^verbatim>\<open>wait_fence\<close> returns, the channel has retired the fence, whatever the policy, the
  flags and the other threads; and it reports an error exactly when some channel of the device has one.\<close>

theorem wait_fence_correct:
  assumes "wait_fence f staging flags ws d = Some (rc, ws', d')"
  shows "fn_value f \<le> retired d' (fn_engine f) (fn_channel f) \<and> (rc = None \<longleftrightarrow> sticky d' = None) \<and> (rc \<noteq> None \<longrightarrow> rc = Some EIO)"
proof -
  obtain r ws1 d1 where w: "wait_until (passed f) (arm_fence (fn_engine f) (fn_channel f) (fn_value f)) flags
      (EwmaOf (fn_engine f) (fn_channel f)) ws d = Some (r, ws1, d1)" and e: "end_wait staging r d1 = (rc, d')"
    using assms by (auto simp: wait_fence_def split: option.splits prod.splits)
  have "passed f d'" using wait_until_sound [OF w book_free_regs(1)] book_freeD(2) [OF book_free_regs(1), of f staging r d1] e by simp
  then show ?thesis using end_wait_rc [of staging r d1] e by (auto simp: passed_def split: if_splits)
qed

section \<open>Waits end\<close>

text \<open>Nothing the other threads do, nor the wait itself, undoes the condition.\<close>

definition stays :: "(driver \<Rightarrow> bool) \<Rightarrow> others list \<Rightarrow> bool" where
  "stays pred ws \<longleftrightarrow> (\<forall>w \<in> set ws. \<forall>d. pred d \<longrightarrow> pred (w d))"

lemma spin_ends:
  assumes "ws = us @ w # vs" "\<forall>d. pred (w d)"
  shows "\<exists>dn t1 ws' d'. spin pred budget n t0 ws d = Some ((dn, t1), ws', d') \<and> (dn \<or> (\<exists>us'. ws' = us' @ w # vs))"
  using assms
proof (induction pred budget n t0 ws d arbitrary: us rule: spin.induct)
  case (2 pred budget n t0 x xs d)
  show ?case
  proof (cases us)
    case Nil
    with 2(2) have "x = w" by simp
    then have "spin pred budget (Suc n) t0 (x # xs) d = Some ((True, t0), xs, x d)" using 2(3) by simp
    then show ?thesis by blast
  next
    case (Cons a us')
    with 2(2) have "xs = us' @ w # vs" by simp
    then show ?thesis using 2(1) 2(3) by (cases "pred (x d)") auto
  qed
next
  case (3 pred budget t0 ws d)
  show ?case
  proof (cases "t0 = 0 \<or> \<not> (budget \<noteq> NOT 0 \<and> budget \<le> dv_now (dr_dev d) - t0)")
    case True
    then show ?thesis using 3 by (cases "t0 = 0") auto
  next
    case False
    then show ?thesis using 3(3) by auto
  qed
qed simp

lemma block_ends:
  assumes "ws = us @ w # vs" "\<forall>d. pred (w d)" "stays pred vs" "\<And>d. pred d \<Longrightarrow> pred (am d)" "2 \<le> length vs"
  shows "\<exists>ws' d'. block pred am ws d = Some (ws', d')"
  using assms
proof (induction pred am ws d arbitrary: us rule: block.induct)
  case (1 pred am w1 w2 w3 ws d)
  show ?case
  proof (cases "length us \<le> 2")
    case True
    then consider "us = []" | a where "us = [a]" | a b where "us = [a, b]" by (cases us; cases "tl us"; cases "tl (tl us)") auto
    then have "pred (w2 (am (w1 d))) \<or> pred (w3 (w2 (am (w1 d))))"
      using 1(2-5) by cases (auto simp: stays_def)
    then show ?thesis by (auto simp: Let_def)
  next
    case False
    then obtain a b c us' where us: "us = a # b # c # us'" by (cases us; cases "tl us"; cases "tl (tl us)") auto
    then have "ws = us' @ w # vs" using 1(2) by simp
    from 1(1) [OF refl _ refl _ this 1(3-6)] show ?thesis by (auto simp: Let_def)
  qed
qed (auto simp: Cons_eq_append_conv)

lemma wait_until_ends:
  assumes "ws = us @ w # vs" "\<forall>d. pred (w d)" "stays pred vs" "\<And>d. pred d \<Longrightarrow> pred (am d)" "2 \<le> length vs"
  shows "\<exists>r ws' d'. wait_until pred am flags ew ws d = Some (r, ws', d')"
proof -
  let ?b = "wait_budget (wait_policy flags d) ew d"
  obtain dn t1 ws1 d1 where s: "spin pred ?b 512 0 ws d = Some ((dn, t1), ws1, d1)" "dn \<or> (\<exists>us'. ws1 = us' @ w # vs)"
    using spin_ends [OF assms(1,2), of ?b 512 0 d] by blast
  show ?thesis
  proof (cases dn)
    case True
    with s show ?thesis by (simp add: wait_until_def Let_def)
  next
    case False
    with s(2) obtain us' where "ws1 = us' @ w # vs" by blast
    from block_ends [OF this assms(2,3) _ assms(5), where am = am and d = "d1\<lparr>dr_ct := (dr_ct d1)\<lparr>ct_waits_blocked := ct_waits_blocked (dr_ct d1) + 1\<rparr>\<rparr>"]
    show ?thesis using s(1) False assms(4) by (auto simp: wait_until_def Let_def)
  qed
qed

text \<open>C16: Waits end. If at some point the engine has retired the fence, fences are never un-retired, and the waiter gets to run
  a little longer, then \<^verbatim>\<open>wait_fence\<close> returns, under every wait policy.\<close>

theorem wait_fence_returns:
  assumes "ws = us @ w # vs" "\<forall>d. passed f (w d)" "\<forall>x \<in> set vs. \<forall>d. retired d (fn_engine f) (fn_channel f) \<le> retired (x d) (fn_engine f) (fn_channel f)"
    "2 \<le> length vs"
  shows "\<exists>rc ws' d'. wait_fence f staging flags ws d = Some (rc, ws', d')"
proof -
  let ?am = "arm_fence (fn_engine f) (fn_channel f) (fn_value f)"
  have "stays (passed f) vs" using assms(3) by (auto simp: stays_def passed_def intro: order_trans)
  moreover have "passed f (?am d)" if "passed f d" for d
    using that by (simp add: passed_def retired_def arm_fence_def arm_irq_def)
  ultimately obtain r ws' d' where "wait_until (passed f) ?am flags (EwmaOf (fn_engine f) (fn_channel f)) ws d = Some (r, ws', d')"
    using wait_until_ends [OF assms(1), of "passed f" ?am] assms(2,4) by blast
  then show ?thesis by (simp add: wait_fence_def split: prod.split)
qed

lemma below_list: "(x :: u32) < n \<Longrightarrow> x \<in> set (map of_nat [0 ..< unat n])"
proof -
  assume "x < n"
  then have "unat x \<in> set [0 ..< unat n]" "x = of_nat (unat x)" by (simp_all add: word_less_unat)
  then show ?thesis by (metis image_eqI set_map)
qed

lemma in_engine_list: "e < num_engines d \<Longrightarrow> e \<in> set (engine_list d)"
  unfolding engine_list_def by (rule below_list)

lemma in_channel_list: "c < num_channels d \<Longrightarrow> c \<in> set (channel_list d)"
  unfolding channel_list_def by (rule below_list)

lemma all_retiredD: "all_retired snap d \<Longrightarrow> e < num_engines (dr_dev d) \<Longrightarrow> c < num_channels (dr_dev d) \<Longrightarrow> snap e c \<le> retired d e c"
  using in_engine_list in_channel_list by (auto simp: all_retired_def list_all_iff not_less)

text \<open>\<^verbatim>\<open>drain\<close>. When it returns, every command published on any channel before the call has retired.\<close>

theorem drain_correct:
  assumes "drain ws d = Some (rc, ws', d')" "e < num_engines (dr_dev d)" "c < num_channels (dr_dev d)"
    "num_engines (dr_dev d') = num_engines (dr_dev d)" "num_channels (dr_dev d') = num_channels (dr_dev d)"
  shows "published d e c \<le> retired d' e c"
proof -
  obtain r ws1 d1 where w: "wait_until (all_retired (snapshot_puts d)) (arm_snapshot (snapshot_puts d)) SG_WAIT_DEFAULT EwmaAll ws d = Some (r, ws1, d1)"
    and e: "end_wait False r d1 = (rc, d')"
    using assms(1) by (auto simp: drain_def wait_snapshot_def split: option.splits prod.splits)
  have "all_retired (snapshot_puts d) d'"
    using wait_until_sound [OF w book_free_regs(2)] book_freeD(2) [OF book_free_regs(2), of "snapshot_puts d" False r d1] e by simp
  from all_retiredD [OF this, of e c] show ?thesis using assms(2-5) by (simp add: snapshot_puts_def)
qed

section \<open>Examples\<close>

text \<open>A default driver, and a run of the compute engine that retires the first command of channel 0.\<close>

definition demo_drv :: driver where
  "demo_drv = driver_new (\<lambda>_. None) True False 0x100000 (\<lambda>_. 0)"

definition demo_retire :: others where
  "demo_retire d = d\<lparr>dr_dev := upd_ch 0 0 (ch_get_update (\<lambda>_. 1)) (dr_dev d)\<rparr>"

definition demo_fence :: fence where
  "demo_fence = \<lparr>fn_engine = 0, fn_channel = 0, fn_value = 1\<rparr>"

definition demo_others :: "others list" where
  "demo_others = [id, id] @ demo_retire # replicate 2 id"

theorem wait_fence_correct_witness:
  "\<exists>rc ws' d'. wait_fence demo_fence False SG_WAIT_BLOCK demo_others demo_drv = Some (rc, ws', d') \<and> 1 \<le> retired d' 0 0"
proof -
  have "wait_fence demo_fence False SG_WAIT_BLOCK demo_others demo_drv \<noteq> None" by code_simp
  then obtain rc ws' d' where w: "wait_fence demo_fence False SG_WAIT_BLOCK demo_others demo_drv = Some (rc, ws', d')" by (metis not_None_eq prod.exhaust)
  from wait_fence_correct [OF w] w show ?thesis by (simp add: demo_fence_def)
qed

theorem wait_fence_returns_witness: "\<exists>rc ws' d'. wait_fence demo_fence False SG_WAIT_SPIN demo_others demo_drv = Some (rc, ws', d')"
proof (rule wait_fence_returns [OF demo_others_def])
  show "\<forall>d. passed demo_fence (demo_retire d)" by (simp add: passed_def demo_fence_def retired_def demo_retire_def)
qed simp_all

definition demo_busy :: driver where
  "demo_busy = demo_drv\<lparr>dr_ring := (dr_ring demo_drv)\<lparr>rd_put := set2 0 0 1 (rd_put (dr_ring demo_drv))\<rparr>\<rparr>"

theorem drain_correct_witness:
  "\<exists>rc ws' d'. drain demo_others demo_busy = Some (rc, ws', d') \<and> published demo_busy 0 0 = 1 \<and> published demo_busy 0 0 \<le> retired d' 0 0"
proof -
  let ?n = "\<lambda>d. (num_engines (dr_dev d), num_channels (dr_dev d))"
  have "map_option (\<lambda>(rc, ws, d). ?n d) (drain demo_others demo_busy) = Some (2, 8)" "?n demo_busy = (2, 8)" "published demo_busy 0 0 = 1" by code_simp+
  then obtain rc ws' d' where w: "drain demo_others demo_busy = Some (rc, ws', d')" and n: "?n d' = (2, 8)" "?n demo_busy = (2, 8)" "published demo_busy 0 0 = 1"
    by auto
  from drain_correct [OF w, of 0 0] n w show ?thesis by simp
qed

end
