(* ===== verification/Drv_Submit.thy ===== *)
theory Drv_Submit
  imports Waits
begin

text \<open>
  \<^verbatim>\<open>SG_IOC_SUBMIT\<close> (\<^verbatim>\<open>do_submit\<close> of \<^verbatim>\<open>src/src/driver/driver.cpp\<close>) as one call of one thread: the checks, the lookup of
  allocations and pins, the staging pool, and the chunked copies through it. \<^verbatim>\<open>enqueue\<close> is here the same code as the steps of
  the theory \<open>Submit\<close>, with the other threads let in at its waits.
\<close>

section \<open>Lookups\<close>

definition inside :: "u64 \<Rightarrow> u64 \<Rightarrow> (u64, u64) omap \<Rightarrow> bool" where
  "inside addr len m =
     (case om_upto addr m of
        None \<Rightarrow> False
      | Some (start, sz) \<Rightarrow> addr - start \<le> sz \<and> len \<le> sz - (addr - start))"

definition owns :: "driver \<Rightarrow> u64 \<Rightarrow> u64 \<Rightarrow> bool" where
  "owns d addr len =
     (case om_upto addr (dr_allocs d) of
        None \<Rightarrow> False
      | Some (start, al) \<Rightarrow> addr - start \<le> al_size al \<and> len \<le> al_size al - (addr - start))"

definition pinned :: "driver \<Rightarrow> u64 \<Rightarrow> u64 \<Rightarrow> bool" where
  "pinned d addr sz =
     (case om_upto addr (dr_pins d) of
        None \<Rightarrow> False
      | Some (start, len) \<Rightarrow> addr - start \<le> len \<and> sz \<le> len - (addr - start))"

section \<open>Staging slots\<close>

definition slot_ptr :: "driver \<Rightarrow> nat \<Rightarrow> u64" where
  "slot_ptr d i = dr_staging d + of_nat i * dr_chunk d"

definition free_slot :: "driver \<Rightarrow> nat option" where
  "free_slot d = find (\<lambda>s. \<not> sl_busy (dr_slot d ! s)) (map (\<lambda>i. (dr_next_slot d + i) mod length (dr_slot d)) [0 ..< length (dr_slot d)])"

fun acquire_slot :: "others list \<Rightarrow> driver \<Rightarrow> ((nat \<times> fence) \<times> others list \<times> driver) option" where
  "acquire_slot ws d =
     (case free_slot d of
        Some s \<Rightarrow> Some ((s, sl_fence (dr_slot d ! s)), ws,
          d\<lparr>dr_slot := (dr_slot d)[s := (dr_slot d ! s)\<lparr>sl_busy := True\<rparr>], dr_next_slot := (s + 1) mod length (dr_slot d)\<rparr>)
      | None \<Rightarrow> (case ws of [] \<Rightarrow> None | w # ws' \<Rightarrow> acquire_slot ws' (w d)))"

declare acquire_slot.simps [simp del]

definition release_slot :: "nat \<Rightarrow> fence \<Rightarrow> driver \<Rightarrow> driver" where
  "release_slot s f d = d\<lparr>dr_slot := (dr_slot d)[s := \<lparr>sl_fence = f, sl_busy = False\<rparr>]\<rparr>"

section \<open>Enqueue\<close>

fun await_turn :: "u32 \<Rightarrow> u32 \<Rightarrow> u64 \<Rightarrow> others list \<Rightarrow> driver \<Rightarrow> (others list \<times> driver) option" where
  "await_turn e c slot ws d =
     (if published d e c = slot then Some (ws, d)
      else case ws of [] \<Rightarrow> None | w # ws' \<Rightarrow> await_turn e c slot ws' (w d))"

declare await_turn.simps [simp del]

definition reserve_slot :: "u32 \<Rightarrow> u32 \<Rightarrow> driver \<Rightarrow> u64 \<times> driver" where
  "reserve_slot e c d =
     (if rd_mode (dr_ring d) = SG_SUBMIT_TICKET
      then (rd_reserve (dr_ring d) e c,
            d\<lparr>dr_ring := (dr_ring d)\<lparr>rd_reserve := set2 e c (rd_reserve (dr_ring d) e c + 1) (rd_reserve (dr_ring d))\<rparr>\<rparr>)
      else (published d e c, d))"

definition await_space :: "u32 \<Rightarrow> u32 \<Rightarrow> u64 \<Rightarrow> others list \<Rightarrow> driver \<Rightarrow> (others list \<times> driver) option" where
  "await_space e c slot ws d =
     (if slot - retired d e c \<ge> ucast (rd_depth (dr_ring d)) then
        let need = slot - ucast (rd_depth (dr_ring d)) + 1 in
        case wait_until (passed \<lparr>fn_engine = e, fn_channel = c, fn_value = need\<rparr>) (arm_fence e c need) SG_WAIT_DEFAULT NoEwma ws
               (d\<lparr>dr_ring := (dr_ring d)\<lparr>rd_stalls := rd_stalls (dr_ring d) + 1\<rparr>\<rparr>) of
          None \<Rightarrow> None
        | Some (r, ws1, d1) \<Rightarrow> Some (ws1, d1)
      else Some (ws, d))"

definition publish :: "u32 \<Rightarrow> u32 \<Rightarrow> u64 \<Rightarrow> driver \<Rightarrow> driver" where
  "publish e c slot d =
     (let dev1 = upd_ch e c (ch_put_update (\<lambda>_. slot + 1)) (begin_doorbell e (dr_dev d))
      in d\<lparr>dr_dev := end_doorbell e (doorbell e dev1),
           dr_ring := (dr_ring d)\<lparr>rd_put := set2 e c (slot + 1) (rd_put (dr_ring d))\<rparr>\<rparr>)"

definition write_slot :: "u32 \<Rightarrow> u32 \<Rightarrow> u64 \<Rightarrow> sg_cmd \<Rightarrow> driver \<Rightarrow> driver" where
  "write_slot e c slot cmd d =
     d\<lparr>dr_dev := upd_ch e c (\<lambda>k. k\<lparr>ch_ring := (ch_ring k)(slot AND ucast (rd_depth (dr_ring d) - 1) := cmd)\<rparr>) (dr_dev d),
       dr_log := dr_log d @ [(e, c, cmd)]\<rparr>"

definition enqueue :: "u32 \<Rightarrow> u32 \<Rightarrow> sg_cmd \<Rightarrow> others list \<Rightarrow> driver \<Rightarrow> (u64 \<times> others list \<times> driver) option" where
  "enqueue e c cmd ws d =
     (case reserve_slot e c d of
        (slot, d0) \<Rightarrow>
          (case await_space e c slot ws d0 of
             None \<Rightarrow> None
           | Some (ws1, d1) \<Rightarrow>
               let d2 = write_slot e c slot cmd d1 in
               (case (if rd_mode (dr_ring d2) = SG_SUBMIT_TICKET then await_turn e c slot ws1 d2 else Some (ws1, d2)) of
                  None \<Rightarrow> None
                | Some (ws2, d3) \<Rightarrow> Some (slot + 1, ws2, publish e c slot d3))))"

section \<open>Submit\<close>

record submit_args =
  sa_cmd :: sg_cmd
  sa_host_ptr :: u64
  sa_fence :: u64
  sa_out_flags :: u32
  sa_engine :: u32
  sa_channel :: u32

type_synonym submitted = "(errno option \<times> submit_args) \<times> others list \<times> driver"

text \<open>A command that goes to the ring as it is.\<close>

definition submit_one :: "submit_args \<Rightarrow> sg_cmd \<Rightarrow> others list \<Rightarrow> driver \<Rightarrow> submitted option" where
  "submit_one a cmd ws d =
     Option.bind (enqueue (sa_engine a) (sa_channel a) cmd ws d) (\<lambda>(f, ws1, d1). Some ((None, a\<lparr>sa_fence := f\<rparr>), ws1, d1))"

definition host_copy :: "u64 \<Rightarrow> u64 \<Rightarrow> u64 \<Rightarrow> driver \<Rightarrow> driver" where
  "host_copy to from n d =
     d\<lparr>dr_mm := (dr_mm d)\<lparr>mm_mem := (mm_mem (dr_mm d))\<lparr>dm_host :=
        blit to from n (dm_host (mm_mem (dr_mm d))) (dm_host (mm_mem (dr_mm d)))\<rparr>\<rparr>\<rparr>"

definition count_bytes :: "(counters \<Rightarrow> counters) \<Rightarrow> driver \<Rightarrow> driver" where
  "count_bytes f d = d\<lparr>dr_ct := f (dr_ct d)\<rparr>"

text \<open>Pageable copy to the device, from offset \<open>off\<close> on.\<close>

partial_function (option) h2d_loop :: "submit_args \<Rightarrow> u64 \<Rightarrow> others list \<Rightarrow> driver \<Rightarrow> submitted option" where
  "h2d_loop a off ws d =
     (let cmd = sa_cmd a; total = cmd_size cmd; e = sa_engine a; c = sa_channel a in
      if \<not> off < total then Some ((None, a), ws, d)
      else Option.bind (acquire_slot ws d) (\<lambda>((s, prev), ws1, d1).
        Option.bind (wait_fence prev True SG_WAIT_DEFAULT ws1 d1) (\<lambda>(rc, ws2, d2).
          if rc \<noteq> None then Some ((rc, a), ws2, release_slot s prev d2)
          else let n = min (dr_chunk d) (total - off); d3 = host_copy (slot_ptr d2 s) (sa_host_ptr a + off) n d2 in
            Option.bind (enqueue e c (cmd\<lparr>src0 := slot_ptr d2 s, dst := dst cmd + off, cmd_size := n\<rparr>) ws2 d3) (\<lambda>(f, ws3, d4).
              h2d_loop (a\<lparr>sa_fence := f\<rparr>) (off + dr_chunk d) ws3
                (release_slot s \<lparr>fn_engine = e, fn_channel = c, fn_value = f\<rparr> d4)))))"

text \<open>Pageable copy from the device: the window of chunks in flight, oldest first, each with its slot and fence.\<close>

record d2h_state =
  ds_window :: "(nat \<times> u64) list"
  ds_issued :: u64
  ds_done :: u64

definition d2h_issue :: "submit_args \<Rightarrow> d2h_state \<Rightarrow> others list \<Rightarrow> driver \<Rightarrow> ((errno option \<times> d2h_state) \<times> others list \<times> driver) option" where
  "d2h_issue a st ws d =
     (let cmd = sa_cmd a; e = sa_engine a; c = sa_channel a; off = ds_issued st * dr_chunk d in
      Option.bind (acquire_slot ws d) (\<lambda>((s, prev), ws1, d1).
        Option.bind (wait_fence prev True SG_WAIT_DEFAULT ws1 d1) (\<lambda>(rc, ws2, d2).
          if rc \<noteq> None then Some ((rc, st), ws2, release_slot s prev d2)
          else Option.bind (enqueue e c (cmd\<lparr>src0 := src0 cmd + off, dst := slot_ptr d2 s, cmd_size := min (dr_chunk d) (cmd_size cmd - off)\<rparr>) ws2 d2)
            (\<lambda>(f, ws3, d3). Some ((None, st\<lparr>ds_window := ds_window st @ [(s, f)], ds_issued := ds_issued st + 1\<rparr>), ws3, d3)))))"

partial_function (option) d2h_fill :: "submit_args \<Rightarrow> u64 \<Rightarrow> d2h_state \<Rightarrow> others list \<Rightarrow> driver \<Rightarrow> ((errno option \<times> d2h_state) \<times> others list \<times> driver) option" where
  "d2h_fill a lim st ws d =
     (if \<not> ds_issued st < lim then Some ((None, st), ws, d)
      else Option.bind (d2h_issue a st ws d) (\<lambda>((rc, st1), ws1, d1).
        if rc \<noteq> None then Some ((rc, st1), ws1, d1) else d2h_fill a lim st1 ws1 d1))"

partial_function (option) d2h_loop :: "submit_args \<Rightarrow> u64 \<Rightarrow> d2h_state \<Rightarrow> others list \<Rightarrow> driver \<Rightarrow> submitted option" where
  "d2h_loop a nchunks st ws d =
     (let e = sa_engine a; c = sa_channel a; total = cmd_size (sa_cmd a) in
      if \<not> ds_done st < nchunks then Some ((None, a\<lparr>sa_fence := published d e c\<rparr>), ws, d)
      else let (s, f) = hd (ds_window st); st1 = st\<lparr>ds_window := tl (ds_window st)\<rparr>;
               fn = \<lparr>fn_engine = e, fn_channel = c, fn_value = f\<rparr>; off = ds_done st * dr_chunk d in
        Option.bind (wait_fence fn False SG_WAIT_DEFAULT ws d) (\<lambda>(rc, ws1, d1).
          if rc \<noteq> None then Some ((rc, a), ws1, release_slot s fn d1)
          else let n = min (dr_chunk d) (total - off);
                   d2 = release_slot s fn (host_copy (sa_host_ptr a + off) (slot_ptr d1 s) n d1);
                   st2 = st1\<lparr>ds_done := ds_done st1 + 1\<rparr> in
            if ds_issued st2 < nchunks
            then Option.bind (d2h_issue a st2 ws1 d2) (\<lambda>((rc, st3), ws2, d3).
              if rc \<noteq> None then Some ((rc, a), ws2, d3) else d2h_loop a nchunks st3 ws2 d3)
            else d2h_loop a nchunks st2 ws1 d2))"

definition submit_h2d :: "submit_args \<Rightarrow> others list \<Rightarrow> driver \<Rightarrow> submitted option" where
  "submit_h2d a ws d =
     (let cmd = sa_cmd a; total = cmd_size cmd in
      if sa_host_ptr a = 0 \<or> \<not> owns d (dst cmd) total then Some ((Some EFAULT, a), ws, d)
      else let d1 = count_bytes (\<lambda>k. k\<lparr>ct_bytes_h2d := ct_bytes_h2d k + total\<rparr>) d in
        if pinned d1 (sa_host_ptr a) total then
          Option.bind (submit_one a (cmd\<lparr>src0 := sa_host_ptr a\<rparr>) ws d1) (\<lambda>((rc, a1), ws1, d2).
            Some ((rc, a1\<lparr>sa_out_flags := sa_out_flags a1 OR SG_SUBMIT_DIRECT\<rparr>), ws1,
                  count_bytes (\<lambda>k. k\<lparr>ct_bytes_direct := ct_bytes_direct k + total\<rparr>) d2))
        else h2d_loop a 0 ws (count_bytes (\<lambda>k. k\<lparr>ct_bytes_staged := ct_bytes_staged k + total\<rparr>) d1))"

definition submit_d2h :: "submit_args \<Rightarrow> others list \<Rightarrow> driver \<Rightarrow> submitted option" where
  "submit_d2h a ws d =
     (let cmd = sa_cmd a; total = cmd_size cmd in
      if sa_host_ptr a = 0 \<or> \<not> owns d (src0 cmd) total then Some ((Some EFAULT, a), ws, d)
      else let d1 = count_bytes (\<lambda>k. k\<lparr>ct_bytes_d2h := ct_bytes_d2h k + total\<rparr>) d in
        if pinned d1 (sa_host_ptr a) total then
          Option.bind (submit_one a (cmd\<lparr>dst := sa_host_ptr a\<rparr>) ws d1) (\<lambda>((rc, a1), ws1, d2).
            Some ((rc, a1\<lparr>sa_out_flags := sa_out_flags a1 OR SG_SUBMIT_DIRECT\<rparr>), ws1,
                  count_bytes (\<lambda>k. k\<lparr>ct_bytes_direct := ct_bytes_direct k + total\<rparr>) d2))
        else let d2 = count_bytes (\<lambda>k. k\<lparr>ct_bytes_staged := ct_bytes_staged k + total\<rparr>) d1;
                 nchunks = (total + dr_chunk d2 - 1) div dr_chunk d2;
                 depth = max 1 (of_nat (length (dr_slot d2)) div 2) in
          Option.bind (d2h_fill a (min depth nchunks) \<lparr>ds_window = [], ds_issued = 0, ds_done = 0\<rparr> ws d2) (\<lambda>((rc, st), ws1, d3).
            if rc \<noteq> None then Some ((rc, a), ws1, d3) else d2h_loop a nchunks st ws1 d3))"

definition submit_body :: "submit_args \<Rightarrow> others list \<Rightarrow> driver \<Rightarrow> submitted option" where
  "submit_body a ws d =
     (let cmd = sa_cmd a; op = opcode cmd in
      if op = SG_OP_NOP then submit_one a cmd ws d
      else if op = SG_OP_WAIT_FENCE then
        if arg0 cmd \<ge> num_engines (dr_dev d) \<or> arg1 cmd \<ge> num_channels (dr_dev d) \<or> src1 cmd > published d (arg0 cmd) (arg1 cmd)
        then Some ((Some EINVAL, a), ws, d) else submit_one a cmd ws d
      else if op = SG_OP_FILL then
        if \<not> owns d (dst cmd) (cmd_size cmd) then Some ((Some EFAULT, a), ws, d) else submit_one a cmd ws d
      else if op = SG_OP_COPY_D2D then
        if \<not> owns d (dst cmd) (cmd_size cmd) \<or> \<not> owns d (src0 cmd) (cmd_size cmd) then Some ((Some EFAULT, a), ws, d)
        else submit_one a cmd ws d
      else if op = SG_OP_COPY_H2D then submit_h2d a ws d
      else if op = SG_OP_COPY_D2H then submit_d2h a ws d
      else if op = SG_OP_VADD_F32 then
        let bytes = ucast (arg0 cmd) * 4 in
        if \<not> owns d (dst cmd) bytes \<or> \<not> owns d (src0 cmd) bytes \<or> \<not> owns d (src1 cmd) bytes then Some ((Some EFAULT, a), ws, d)
        else submit_one a cmd ws d
      else if op = SG_OP_GEMM_F32 then
        let m = ucast (arg0 cmd); n = ucast (arg1 cmd); k = ucast (arg2 cmd) in
        if \<not> owns d (src0 cmd) (m * k * 4) \<or> \<not> owns d (src1 cmd) (k * n * 4) \<or> \<not> owns d (dst cmd) (m * n * 4)
        then Some ((Some EFAULT, a), ws, d)
        else submit_one a cmd ws d
      else Some ((Some EINVAL, a), ws, d))"

text \<open>The channel lock, for the whole call in mutex mode.\<close>

fun await_lock :: "u32 \<Rightarrow> u32 \<Rightarrow> others list \<Rightarrow> driver \<Rightarrow> (others list \<times> driver) option" where
  "await_lock e c ws d =
     (if \<not> rd_lock (dr_ring d) e c then Some (ws, d\<lparr>dr_ring := (dr_ring d)\<lparr>rd_lock := set2 e c True (rd_lock (dr_ring d))\<rparr>\<rparr>)
      else case ws of [] \<Rightarrow> None | w # ws' \<Rightarrow> await_lock e c ws' (w d))"

declare await_lock.simps [simp del]

definition lock_channel :: "u32 \<Rightarrow> u32 \<Rightarrow> others list \<Rightarrow> driver \<Rightarrow> (others list \<times> driver) option" where
  "lock_channel e c ws d =
     (if rd_mode (dr_ring d) \<noteq> SG_SUBMIT_MUTEX then Some (ws, d)
      else if \<not> rd_lock (dr_ring d) e c then await_lock e c ws d
      else let t0 = dv_now (dr_dev d) in
        map_option (\<lambda>(ws1, d1). (ws1, d1\<lparr>dr_ct := (dr_ct d1)\<lparr>ct_lock_wait_ns := ct_lock_wait_ns (dr_ct d1) + (dv_now (dr_dev d1) - t0)\<rparr>\<rparr>))
          (await_lock e c ws d))"

definition unlock_channel :: "u32 \<Rightarrow> u32 \<Rightarrow> driver \<Rightarrow> driver" where
  "unlock_channel e c d =
     (if rd_mode (dr_ring d) \<noteq> SG_SUBMIT_MUTEX then d
      else d\<lparr>dr_ring := (dr_ring d)\<lparr>rd_lock := set2 e c False (rd_lock (dr_ring d))\<rparr>\<rparr>)"

definition submit_refused :: "submit_args \<Rightarrow> driver \<Rightarrow> errno option" where
  "submit_refused a d =
     (let cmd = sa_cmd a in
      if opcode cmd \<ge> SG_OP_COUNT \<or> cmd_flags cmd \<noteq> 0 \<or> reserved cmd \<noteq> 0 then Some EINVAL
      else if sa_engine a \<ge> num_engines (dr_dev d) \<or> sa_channel a \<ge> num_channels (dr_dev d) then Some EINVAL
      else if (if sa_engine a = SG_ENGINE_COMPUTE then is_copy_op (opcode cmd) else is_compute_op (opcode cmd)) then Some EINVAL
      else if sticky d \<noteq> None then Some EIO
      else None)"

definition do_submit :: "submit_args \<Rightarrow> others list \<Rightarrow> driver \<Rightarrow> submitted option" where
  "do_submit a ws d =
     (case submit_refused a d of
        Some er \<Rightarrow> Some ((Some er, a), ws, d)
      | None \<Rightarrow>
          Option.bind (lock_channel (sa_engine a) (sa_channel a) ws (d\<lparr>dr_ct := (dr_ct d)\<lparr>ct_submits := ct_submits (dr_ct d) + 1\<rparr>\<rparr>))
            (\<lambda>(ws1, d1). Option.bind (submit_body (a\<lparr>sa_out_flags := 0\<rparr>) ws1 d1)
              (\<lambda>(r, ws2, d2). Some (r, ws2, unlock_channel (sa_engine a) (sa_channel a) d2))))"

section \<open>Ranges\<close>

definition apart :: "(u64 \<times> u64) list \<Rightarrow> bool" where
  "apart m \<longleftrightarrow> sorted_wrt (\<lambda>a b. unat (fst a) + unat (snd a) \<le> unat (fst b)) m \<and> om_ok m"

definition covers :: "u64 \<times> u64 \<Rightarrow> u64 \<Rightarrow> u64 \<Rightarrow> bool" where
  "covers b addr len \<longleftrightarrow> unat (fst b) \<le> unat addr \<and> unat addr + unat len \<le> unat (fst b) + unat (snd b)"

lemma covers_iff: "covers (start, sz) addr len \<longleftrightarrow> start \<le> addr \<and> addr - start \<le> sz \<and> len \<le> sz - (addr - start)"
proof (cases "start \<le> addr")
  case True
  have u: "unat (addr - start) = unat addr - unat start" using True by (simp add: unat_sub)
  have "len \<le> sz - (addr - start) \<longleftrightarrow> unat len \<le> unat sz - (unat addr - unat start)" if "addr - start \<le> sz"
    using that u by (simp add: word_le_unat unat_sub)
  then show ?thesis using True u by (auto simp: covers_def word_le_unat)
qed (auto simp: covers_def word_le_unat)

lemma inside_iff:
  assumes "apart m"
  shows "inside addr len m \<longleftrightarrow> (\<exists>b \<in> set m. covers b addr len)"
proof -
  have ok: "om_ok m" using assms by (simp add: apart_def)
  let ?xs = "takeWhile (\<lambda>p. fst p \<le> addr) m"
  let ?ys = "dropWhile (\<lambda>p. fst p \<le> addr) m"
  have ys: "m = ?xs @ ?ys" by simp
  have lo: "\<forall>p \<in> set ?xs. fst p \<le> addr" by (auto dest: set_takeWhileD)
  have hi: "addr < fst p" if p: "p \<in> set ?ys" for p
  proof (cases ?ys)
    case Nil
    with p show ?thesis by (simp del: dropWhile_eq_Nil_conv)
  next
    case (Cons q qs)
    then have "\<not> fst q \<le> addr" by (simp add: dropWhile_eq_Cons_conv)
    moreover have "om_ok (q # qs)" using ok Cons ys by (metis om_ok_append)
    ultimately show ?thesis using p Cons by (auto simp: om_ok_Cons not_le)
  qed
  show ?thesis
  proof (cases "?xs = []")
    case True
    then have "om_upto addr m = None" by (simp add: om_upto_def)
    moreover have "\<not> covers b addr len" if "b \<in> set m" for b
      using hi [of b] that True by (metis append_Nil covers_def not_less word_less_unat ys)
    ultimately show ?thesis by (auto simp: inside_def)
  next
    case False
    then obtain us p where us: "?xs = us @ [p]" by (metis rev_exhaust)
    obtain start sz where p: "p = (start, sz)" by (cases p)
    have up: "om_upto addr m = Some (start, sz)" unfolding om_upto_def us p by (cases us) simp_all
    have "p \<in> set ?xs" using us by simp
    then have pm: "p \<in> set m" "start \<le> addr" using lo p set_takeWhileD by fastforce+
    have "covers p addr len" if b: "b \<in> set m" "covers b addr len" for b
    proof -
      have "b \<in> set ?xs" using b hi [of b] ys by (metis Un_iff covers_def not_less set_append word_less_unat)
      then have "b = p \<or> b \<in> set us" using us by auto
      moreover have "covers p addr len" if bu: "b \<in> set us"
      proof -
        obtain zs where "m = us @ p # zs" using us ys by (metis append.assoc append_Cons append_Nil)
        then have "unat (fst b) + unat (snd b) \<le> unat (fst p)" using assms bu by (simp add: apart_def sorted_wrt_append)
        then show ?thesis using b(2) pm(2) p by (auto simp: covers_def word_le_unat)
      qed
      ultimately show ?thesis using b(2) by blast
    qed
    then have "(\<exists>b \<in> set m. covers b addr len) \<longleftrightarrow> covers p addr len" using pm(1) by blast
    then show ?thesis using pm(2) by (simp add: inside_def up covers_iff p)
  qed
qed

definition alloc_ranges :: "driver \<Rightarrow> (u64 \<times> u64) list" where
  "alloc_ranges d = map (\<lambda>(a, al). (a, al_size al)) (dr_allocs d)"

lemma owns_inside: "owns d addr len = inside addr len (alloc_ranges d)"
proof -
  let ?f = "\<lambda>(a :: u64, al :: alloc). (a, al_size al)"
  have t: "takeWhile (\<lambda>p. fst p \<le> addr) (map ?f m) = map ?f (takeWhile (\<lambda>p. fst p \<le> addr) m)" for m
    by (induction m) auto
  have "om_upto addr (map ?f m) = map_option ?f (om_upto addr m)" for m
    unfolding om_upto_def t by (cases "takeWhile (\<lambda>p. fst p \<le> addr) m") (simp_all add: last_map)
  then show ?thesis unfolding owns_def inside_def alloc_ranges_def by (cases "om_upto addr (dr_allocs d)") auto
qed

lemma pinned_inside: "pinned d addr len = inside addr len (dr_pins d)"
  by (simp add: pinned_def inside_def)

text \<open>C17: The lookup of allocations. As long as the live allocations do not overlap, \<^verbatim>\<open>owns\<close> accepts a range exactly when it
  lies inside one of them, in full 64-bit arithmetic.\<close>

theorem owns_iff:
  assumes "apart (alloc_ranges d)"
  shows "owns d addr len \<longleftrightarrow> (\<exists>(a, al) \<in> set (dr_allocs d). unat a \<le> unat addr \<and> unat addr + unat len \<le> unat a + unat (al_size al))"
  using inside_iff [OF assms, of addr len] by (force simp: owns_inside alloc_ranges_def covers_def)

section \<open>What a call leaves alone\<close>

text \<open>What only the caller at work, or the configuration, determines.\<close>

definition cfg :: "driver \<Rightarrow> (u32 \<times> u32 \<times> sg_cmd) list \<times> u64 \<times> u64 \<times> nat" where
  "cfg d = (dr_log d, dr_chunk d, dr_staging d, length (dr_slot d))"

definition hands_off :: "others list \<Rightarrow> bool" where
  "hands_off ws \<longleftrightarrow> (\<forall>w \<in> set ws. \<forall>d. cfg (w d) = cfg d)"

lemma hands_off_Cons [simp]: "hands_off (w # ws) \<longleftrightarrow> (\<forall>d. cfg (w d) = cfg d) \<and> hands_off ws"
  by (auto simp: hands_off_def)

lemma spin_cfg: "spin pred budget n t0 ws d = Some (x, ws', d') \<Longrightarrow> hands_off ws \<Longrightarrow> cfg d' = cfg d \<and> hands_off ws'"
  by (induction pred budget n t0 ws d rule: spin.induct) (auto split: if_splits)

lemma block_cfg: "block pred am ws d = Some (ws', d') \<Longrightarrow> hands_off ws \<Longrightarrow> (\<And>d. cfg (am d) = cfg d) \<Longrightarrow> cfg d' = cfg d \<and> hands_off ws'"
  by (induction pred am ws d rule: block.induct) (auto simp: Let_def split: if_splits)

lemma book_free_cfg: "book_free cfg"
  by (simp add: book_free_def cfg_def)

lemma cfg_ct [simp]: "cfg (d\<lparr>dr_ct := k\<rparr>) = cfg d" "cfg (d\<lparr>dr_dev := dev\<rparr>) = cfg d" "cfg (d\<lparr>dr_ring := r\<rparr>) = cfg d" "cfg (d\<lparr>dr_mm := m\<rparr>) = cfg d"
  by (simp_all add: cfg_def)

lemma wait_until_cfg:
  assumes "wait_until pred am flags ew ws d = Some (r, ws', d')" "hands_off ws" "\<And>d. cfg (am d) = cfg d"
  shows "cfg d' = cfg d \<and> hands_off ws'"
  using assms(1,2) book_freeD(1) [OF book_free_cfg]
  by (auto simp: wait_until_def Let_def split: if_splits option.splits prod.splits bool.splits dest!: spin_cfg block_cfg [OF _ _ assms(3)])

lemma arm_fence_cfg [simp]: "cfg (arm_fence e c v d) = cfg d"
  by (simp add: arm_fence_def)

lemma wait_fence_cfg:
  assumes "wait_fence f staging flags ws d = Some (rc, ws', d')" "hands_off ws"
  shows "cfg d' = cfg d \<and> hands_off ws'"
  using assms book_freeD(2) [OF book_free_cfg]
  by (auto simp: wait_fence_def split: option.splits prod.splits dest!: wait_until_cfg) (metis snd_conv)

lemma acquire_slot_cfg: "acquire_slot ws d = Some ((s, prev), ws', d') \<Longrightarrow> hands_off ws \<Longrightarrow> cfg d' = cfg d \<and> hands_off ws' \<and> s < length (dr_slot d)"
proof (induction ws d rule: acquire_slot.induct)
  case (1 ws d)
  show ?case
  proof (cases "free_slot d")
    case None
    with 1 show ?thesis by (subst (asm) acquire_slot.simps) (auto simp: cfg_def acquire_slot.simps [of ws d] split: list.splits)
  next
    case (Some k)
    then have "k \<in> set (map (\<lambda>i. (dr_next_slot d + i) mod length (dr_slot d)) [0 ..< length (dr_slot d)])"
      unfolding free_slot_def find_Some_iff by auto
    then have "k < length (dr_slot d)" by (auto intro: mod_less_divisor order.strict_trans1)
    with 1 Some show ?thesis by (auto simp: cfg_def acquire_slot.simps [of ws d])
  qed
qed

lemma await_turn_cfg: "await_turn e c slot ws d = Some (ws', d') \<Longrightarrow> hands_off ws \<Longrightarrow> cfg d' = cfg d \<and> hands_off ws'"
proof (induction e c slot ws d rule: await_turn.induct)
  case (1 e c slot ws d)
  then show ?case by (subst (asm) (2) await_turn.simps) (auto split: if_splits list.splits)
qed

lemma await_space_cfg: "await_space e c slot ws d = Some (ws', d') \<Longrightarrow> hands_off ws \<Longrightarrow> cfg d' = cfg d \<and> hands_off ws'"
  by (auto simp: await_space_def Let_def split: if_splits option.splits dest!: wait_until_cfg)

definition logged :: "u32 \<times> u32 \<times> sg_cmd \<Rightarrow> driver \<Rightarrow> driver \<Rightarrow> bool" where
  "logged x d d' \<longleftrightarrow> cfg d' = (dr_log d @ [x], dr_chunk d, dr_staging d, length (dr_slot d))"

lemma enqueue_log:
  assumes "enqueue e c cmd ws d = Some (f, ws', d')" "hands_off ws"
  shows "logged (e, c, cmd) d d' \<and> hands_off ws'"
proof -
  obtain slot d0 where r: "reserve_slot e c d = (slot, d0)" by (cases "reserve_slot e c d")
  have c0: "cfg d0 = cfg d" using r by (auto simp: reserve_slot_def split: if_splits)
  obtain ws1 d1 where s: "await_space e c slot ws d0 = Some (ws1, d1)" using assms(1) r by (auto simp: enqueue_def split: option.splits)
  have c1: "cfg d1 = cfg d0" "hands_off ws1" using await_space_cfg [OF s assms(2)] by simp_all
  let ?d2 = "write_slot e c slot cmd d1"
  obtain ws2 d3 where t: "(if rd_mode (dr_ring ?d2) = SG_SUBMIT_TICKET then await_turn e c slot ws1 ?d2 else Some (ws1, ?d2)) = Some (ws2, d3)"
    "ws' = ws2" "d' = publish e c slot d3" using assms(1) r s by (auto simp: enqueue_def Let_def split: option.splits)
  have "cfg d3 = cfg ?d2" "hands_off ws2" using t(1) c1(2) await_turn_cfg by (auto split: if_splits)
  then show ?thesis using t(2,3) c1 c0 by (simp add: logged_def cfg_def write_slot_def publish_def Let_def)
qed

section \<open>Copies through the staging pool\<close>

definition staged_h2d :: "sg_cmd \<Rightarrow> driver \<Rightarrow> nat \<times> nat \<Rightarrow> sg_cmd" where
  "staged_h2d cmd d = (\<lambda>(i, s). cmd\<lparr>src0 := slot_ptr d s, dst := dst cmd + of_nat i * dr_chunk d,
     cmd_size := min (dr_chunk d) (cmd_size cmd - of_nat i * dr_chunk d)\<rparr>)"

text \<open>The chunks \<open>i\<close>, \<open>i + 1\<close>, \<dots> reach exactly the end of the copy.\<close>

definition chunks_end :: "nat \<Rightarrow> nat \<Rightarrow> nat \<Rightarrow> nat \<Rightarrow> bool" where
  "chunks_end sz chunk i n \<longleftrightarrow> sz \<le> (i + n) * chunk \<and> (n \<noteq> 0 \<longrightarrow> (i + n - 1) * chunk < sz)"

lemma chunks_step:
  assumes "i * chunk < sz" "chunks_end sz chunk (Suc i) n"
  shows "chunks_end sz chunk i (Suc n)"
  using assms by (cases n) (auto simp: chunks_end_def)

lemma chunk_off:
  assumes "unat (sz :: u64) + unat chunk < 2 ^ 64" "of_nat i * chunk < sz" "unat (of_nat i * chunk :: u64) = i * unat chunk"
  shows "unat (of_nat (Suc i) * chunk :: u64) = Suc i * unat chunk" "of_nat i * chunk + chunk = of_nat (Suc i) * chunk"
proof -
  show e: "of_nat i * chunk + chunk = of_nat (Suc i) * chunk" by (simp add: algebra_simps)
  have "i * unat chunk + unat chunk < 2 ^ 64" using assms by (simp add: word_less_unat)
  then have "unat (of_nat i * chunk + chunk) = i * unat chunk + unat chunk" using assms(3) by (subst unat_add_64) simp_all
  then show "unat (of_nat (Suc i) * chunk :: u64) = Suc i * unat chunk" using e by simp
qed

definition h2d_post :: "submit_args \<Rightarrow> u64 \<Rightarrow> others list \<Rightarrow> driver \<Rightarrow> submitted \<Rightarrow> bool" where
  "h2d_post a off ws d r \<longleftrightarrow> (\<forall>i. fst (fst r) = None \<longrightarrow> hands_off ws \<longrightarrow> off = of_nat i * dr_chunk d \<longrightarrow> unat off = i * unat (dr_chunk d) \<longrightarrow>
    unat (cmd_size (sa_cmd a)) + unat (dr_chunk d) < 2 ^ 64 \<longrightarrow>
    (\<exists>ss. (\<forall>s \<in> set ss. s < length (dr_slot d)) \<and> chunks_end (unat (cmd_size (sa_cmd a))) (unat (dr_chunk d)) i (length ss) \<and>
      dr_log (snd (snd r)) = dr_log d @ map (\<lambda>x. (sa_engine a, sa_channel a, staged_h2d (sa_cmd a) d x)) (enumerate i ss)))"

lemma h2d_loop_log:
  assumes "h2d_loop a off ws d = Some r"
  shows "h2d_post a off ws d r"
proof (rule h2d_loop.raw_induct [where P = h2d_post, OF _ assms])
  fix loop a off ws d r
  assume IH: "\<And>a off ws d r. loop a off ws d = Some r \<Longrightarrow> h2d_post a off ws d r"
  assume body: "(let cmd = sa_cmd a; total = cmd_size cmd; e = sa_engine a; c = sa_channel a in
      if \<not> off < total then Some ((None, a), ws, d)
      else Option.bind (acquire_slot ws d) (\<lambda>((s, prev), ws1, d1).
        Option.bind (wait_fence prev True SG_WAIT_DEFAULT ws1 d1) (\<lambda>(rc, ws2, d2).
          if rc \<noteq> None then Some ((rc, a), ws2, release_slot s prev d2)
          else let n = min (dr_chunk d) (total - off); d3 = host_copy (slot_ptr d2 s) (sa_host_ptr a + off) n d2 in
            Option.bind (enqueue e c (cmd\<lparr>src0 := slot_ptr d2 s, dst := dst cmd + off, cmd_size := n\<rparr>) ws2 d3) (\<lambda>(f, ws3, d4).
              loop (a\<lparr>sa_fence := f\<rparr>) (off + dr_chunk d) ws3
                (release_slot s \<lparr>fn_engine = e, fn_channel = c, fn_value = f\<rparr> d4))))) = Some r"
  show "h2d_post a off ws d r"
    unfolding h2d_post_def
  proof (intro allI impI)
    fix i
    assume A: "fst (fst r) = None" "hands_off ws" "off = of_nat i * dr_chunk d" "unat off = i * unat (dr_chunk d)"
      "unat (cmd_size (sa_cmd a)) + unat (dr_chunk d) < 2 ^ 64"
    let ?P = "\<lambda>d' ss. (\<forall>s \<in> set ss. s < length (dr_slot d)) \<and> chunks_end (unat (cmd_size (sa_cmd a))) (unat (dr_chunk d)) i (length ss) \<and>
      dr_log d' = dr_log d @ map (\<lambda>x. (sa_engine a, sa_channel a, staged_h2d (sa_cmd a) d x)) (enumerate i ss)"
    show "\<exists>ss. ?P (snd (snd r)) ss"
    proof (cases "off < cmd_size (sa_cmd a)")
      case False
      then have "?P (snd (snd r)) []" using body A by (auto simp: chunks_end_def word_less_unat)
      then show ?thesis by blast
    next
      case True
      let ?cmd = "\<lambda>p. (sa_cmd a)\<lparr>src0 := p, dst := dst (sa_cmd a) + off, cmd_size := min (dr_chunk d) (cmd_size (sa_cmd a) - off)\<rparr>"
      from body True A(1) obtain s prev ws1 d1 ws2 d2 f ws3 d4 where
        st: "acquire_slot ws d = Some ((s, prev), ws1, d1)" "wait_fence prev True SG_WAIT_DEFAULT ws1 d1 = Some (None, ws2, d2)"
          "enqueue (sa_engine a) (sa_channel a) (?cmd (slot_ptr d2 s)) ws2
             (host_copy (slot_ptr d2 s) (sa_host_ptr a + off) (min (dr_chunk d) (cmd_size (sa_cmd a) - off)) d2) = Some (f, ws3, d4)"
        and rec: "loop (a\<lparr>sa_fence := f\<rparr>) (off + dr_chunk d) ws3
          (release_slot s \<lparr>fn_engine = sa_engine a, fn_channel = sa_channel a, fn_value = f\<rparr> d4) = Some r"
        by (auto simp: Let_def bind_eq_Some_conv split: if_splits)
      note c1 = acquire_slot_cfg [OF st(1) A(2)]
      then have c2: "cfg d2 = cfg d" "hands_off ws2" using wait_fence_cfg [OF st(2)] by auto
      define d5 where "d5 = release_slot s \<lparr>fn_engine = sa_engine a, fn_channel = sa_channel a, fn_value = f\<rparr> d4"
      from enqueue_log [OF st(3) c2(2)] c2(1) have c5: "hands_off ws3" "cfg d5 = (dr_log d @ [(sa_engine a, sa_channel a, ?cmd (slot_ptr d2 s))],
          dr_chunk d, dr_staging d, length (dr_slot d))"
        by (auto simp: logged_def cfg_def host_copy_def d5_def release_slot_def)
      have sp: "slot_ptr d2 = slot_ptr d" "staged_h2d cmd d5 = staged_h2d cmd d" for cmd using c2(1) c5(2) by (auto simp: cfg_def slot_ptr_def staged_h2d_def)
      note off = chunk_off [OF A(5), of i] 
      from IH [OF rec [folded d5_def]] have "\<exists>ss. (\<forall>s \<in> set ss. s < length (dr_slot d5)) \<and>
        chunks_end (unat (cmd_size (sa_cmd a))) (unat (dr_chunk d5)) (Suc i) (length ss) \<and>
        dr_log (snd (snd r)) = dr_log d5 @ map (\<lambda>x. (sa_engine a, sa_channel a, staged_h2d (sa_cmd a) d5 x)) (enumerate (Suc i) ss)"
        unfolding h2d_post_def using A c5 off True by (auto simp: cfg_def simp del: of_nat_Suc mult_Suc dest!: spec [of _ "Suc i"])
      then obtain ss where "\<forall>s \<in> set ss. s < length (dr_slot d5)" "chunks_end (unat (cmd_size (sa_cmd a))) (unat (dr_chunk d5)) (Suc i) (length ss)"
        "dr_log (snd (snd r)) = dr_log d5 @ map (\<lambda>x. (sa_engine a, sa_channel a, staged_h2d (sa_cmd a) d5 x)) (enumerate (Suc i) ss)" by blast
      moreover have "staged_h2d (sa_cmd a) d (i, s) = ?cmd (slot_ptr d2 s)" using A(3) sp by (simp add: staged_h2d_def)
      moreover have "i * unat (dr_chunk d) < unat (cmd_size (sa_cmd a))" using True A(4) by (simp add: word_less_unat)
      ultimately have "?P (snd (snd r)) (s # ss)" using c1 c5(2) sp chunks_step by (auto simp: cfg_def)
      then show ?thesis by blast
    qed
  qed
qed

lemma sum_chunks: "(\<Sum>j < k. min chunk (sz - j * chunk)) = min (k * chunk) (sz :: nat)"
  by (induction k) auto

lemma unat_chunk_off:
  assumes "j * unat chunk < unat (sz :: u64)"
  shows "unat (of_nat j * chunk :: u64) = j * unat chunk"
proof (cases "unat chunk = 0")
  case False
  then have "j \<le> j * unat chunk" by (cases "unat chunk") simp_all
  then have "j < 2 ^ 64" using assms unat_less_64 [of sz] by (simp, linarith)
  then show ?thesis using assms unat_less_64 [of sz] by (simp add: unat_word_ariths unat_of_nat)
qed (simp add: unat_eq_zero)

text \<open>The sizes of the chunks of a copy add up to the copy, and none is empty.\<close>

lemma chunks_sizes:
  assumes "chunks_end (unat (sz :: u64)) (unat chunk) 0 n" "chunk \<noteq> 0"
    "\<And>j. j < n \<Longrightarrow> cmd_size (cs ! j) = min chunk (sz - of_nat j * chunk)" "length cs = n"
  shows "(\<Sum>k \<leftarrow> cs. unat (cmd_size k)) = unat sz \<and> (\<forall>k \<in> set cs. cmd_size k \<noteq> 0)"
proof -
  have lt: "j * unat chunk < unat sz" if "j < n" for j
  proof -
    have "j * unat chunk \<le> (n - 1) * unat chunk" using that by (intro mult_right_mono) auto
    also have "\<dots> < unat sz" using assms(1) that by (simp add: chunks_end_def)
    finally show ?thesis .
  qed
  have sz: "unat (cmd_size (cs ! j)) = min (unat chunk) (unat sz - j * unat chunk)" if "j < n" for j
  proof -
    have "of_nat j * chunk \<le> sz" using unat_chunk_off [OF lt [OF that]] lt [OF that] by (simp add: word_le_unat)
    then have "unat (sz - of_nat j * chunk) = unat sz - j * unat chunk" using unat_chunk_off [OF lt [OF that]] by (simp add: unat_sub)
    then show ?thesis using assms(3) [OF that] by (simp add: min_def word_le_unat)
  qed
  have "(\<Sum>k \<leftarrow> cs. unat (cmd_size k)) = (\<Sum>j < n. min (unat chunk) (unat sz - j * unat chunk))"
    using sz assms(4) by (simp add: sum_list_sum_nth atLeast0LessThan)
  moreover have "unat sz \<le> n * unat chunk" using assms(1) by (simp add: chunks_end_def)
  moreover have "cmd_size (cs ! j) \<noteq> 0" if "j < n" for j
    using sz [OF that] lt [OF that] assms(2) by (metis diff_is_0_eq min_def not_le unat_0 unat_eq_zero)
  ultimately show ?thesis using assms(4) by (auto simp: sum_chunks in_set_conv_nth)
qed

text \<open>C19: Pageable copies to the device. A copy through the staging pool that succeeds was of owned memory and has enqueued, in
  order on the one channel, the chunks 0, 1, \<dots> of the copy: chunk \<open>j\<close> reads a staging slot and writes at \<open>j\<close> times the chunk
  size; no chunk is empty and their sizes add up to the whole. The other threads may do anything in between but add
  to this caller's commands.\<close>

theorem h2d_staged:
  assumes "submit_h2d a ws d = Some ((None, a'), ws', d')" "\<not> pinned d (sa_host_ptr a) (cmd_size (sa_cmd a))" "hands_off ws"
    "dr_chunk d \<noteq> 0" "unat (cmd_size (sa_cmd a)) + unat (dr_chunk d) < 2 ^ 64"
  shows "owns d (dst (sa_cmd a)) (cmd_size (sa_cmd a)) \<and>
    (\<exists>cs. dr_log d' = dr_log d @ map (\<lambda>k. (sa_engine a, sa_channel a, k)) cs \<and>
      (\<forall>j < length cs. \<exists>s < length (dr_slot d). cs ! j = staged_h2d (sa_cmd a) d (j, s)) \<and>
      (\<Sum>k \<leftarrow> cs. unat (cmd_size k)) = unat (cmd_size (sa_cmd a)) \<and> (\<forall>k \<in> set cs. cmd_size k \<noteq> 0))"
proof -
  define d1 where "d1 = count_bytes (\<lambda>k. k\<lparr>ct_bytes_staged := ct_bytes_staged k + cmd_size (sa_cmd a)\<rparr>)
    (count_bytes (\<lambda>k. k\<lparr>ct_bytes_h2d := ct_bytes_h2d k + cmd_size (sa_cmd a)\<rparr>) d)"
  have own: "owns d (dst (sa_cmd a)) (cmd_size (sa_cmd a))" and loop: "h2d_loop a 0 ws d1 = Some ((None, a'), ws', d')"
    using assms(1,2) by (auto simp: submit_h2d_def Let_def pinned_def count_bytes_def d1_def split: if_splits)
  have d1: "dr_log d1 = dr_log d" "dr_chunk d1 = dr_chunk d" "dr_slot d1 = dr_slot d" "staged_h2d cmd d1 = staged_h2d cmd d" for cmd
    by (simp_all add: d1_def count_bytes_def staged_h2d_def slot_ptr_def fun_eq_iff)
  from h2d_loop_log [OF loop] assms(3,5) obtain ss where
    ss: "\<forall>s \<in> set ss. s < length (dr_slot d)" "chunks_end (unat (cmd_size (sa_cmd a))) (unat (dr_chunk d)) 0 (length ss)"
      "dr_log d' = dr_log d @ map (\<lambda>x. (sa_engine a, sa_channel a, staged_h2d (sa_cmd a) d x)) (enumerate 0 ss)"
    by (auto simp: h2d_post_def d1 dest!: spec [of _ 0])
  let ?cs = "map (staged_h2d (sa_cmd a) d) (enumerate 0 ss)"
  have n: "?cs ! j = staged_h2d (sa_cmd a) d (j, ss ! j)" if "j < length ss" for j using that by (simp add: nth_enumerate_eq)
  then have "cmd_size (?cs ! j) = min (dr_chunk d) (cmd_size (sa_cmd a) - of_nat j * dr_chunk d)" if "j < length ss" for j
    using that by (simp add: staged_h2d_def)
  from chunks_sizes [OF ss(2) assms(4), of ?cs] this
  have "(\<Sum>k \<leftarrow> ?cs. unat (cmd_size k)) = unat (cmd_size (sa_cmd a)) \<and> (\<forall>k \<in> set ?cs. cmd_size k \<noteq> 0)" by simp
  moreover have "\<exists>s < length (dr_slot d). ?cs ! j = staged_h2d (sa_cmd a) d (j, s)" if "j < length ?cs" for j
    using n [of j] that ss(1) by (auto intro: exI [of _ "ss ! j"])
  moreover have "dr_log d' = dr_log d @ map (\<lambda>k. (sa_engine a, sa_channel a, k)) ?cs" using ss(3) by simp
  ultimately show ?thesis using own by blast
qed

section \<open>Copies back to the host\<close>

definition staged_d2h :: "sg_cmd \<Rightarrow> driver \<Rightarrow> nat \<times> nat \<Rightarrow> sg_cmd" where
  "staged_d2h cmd d = (\<lambda>(i, s). cmd\<lparr>src0 := src0 cmd + of_nat i * dr_chunk d, dst := slot_ptr d s,
     cmd_size := min (dr_chunk d) (cmd_size cmd - of_nat i * dr_chunk d)\<rparr>)"

text \<open>The chunks issued so far are in the log of the caller; those not copied out yet are in the window.\<close>

definition d2h_inv :: "submit_args \<Rightarrow> driver \<Rightarrow> d2h_state \<Rightarrow> driver \<Rightarrow> bool" where
  "d2h_inv a d0 st d \<longleftrightarrow> (\<exists>ss. unat (ds_issued st) = length ss \<and> unat (ds_done st) + length (ds_window st) = length ss \<and>
     (\<forall>s \<in> set ss. s < length (dr_slot d0)) \<and>
     cfg d = (dr_log d0 @ map (\<lambda>x. (sa_engine a, sa_channel a, staged_d2h (sa_cmd a) d0 x)) (enumerate 0 ss), dr_chunk d0, dr_staging d0,
       length (dr_slot d0)))"

lemma enumerate_snoc: "enumerate n (xs @ [x]) = enumerate n xs @ [(n + length xs, x)]"
  by (simp add: enumerate_append_eq)

lemma d2h_issue_inv:
  assumes "d2h_issue a st ws d = Some ((None, st'), ws', d')" "d2h_inv a d0 st d" "hands_off ws" "ds_issued st < n"
  shows "d2h_inv a d0 st' d' \<and> hands_off ws' \<and> ds_issued st' = ds_issued st + 1 \<and> unat (ds_issued st') = unat (ds_issued st) + 1 \<and>
    ds_done st' = ds_done st \<and> ds_window st' \<noteq> []"
proof -
  let ?cmd = "\<lambda>p. (sa_cmd a)\<lparr>src0 := src0 (sa_cmd a) + ds_issued st * dr_chunk d, dst := p,
    cmd_size := min (dr_chunk d) (cmd_size (sa_cmd a) - ds_issued st * dr_chunk d)\<rparr>"
  from assms(1) obtain s prev ws1 d1 ws2 d2 f where
    st: "acquire_slot ws d = Some ((s, prev), ws1, d1)" "wait_fence prev True SG_WAIT_DEFAULT ws1 d1 = Some (None, ws2, d2)"
      "enqueue (sa_engine a) (sa_channel a) (?cmd (slot_ptr d2 s)) ws2 d2 = Some (f, ws', d')"
      "st' = st\<lparr>ds_window := ds_window st @ [(s, f)], ds_issued := ds_issued st + 1\<rparr>"
    by (auto simp: d2h_issue_def Let_def bind_eq_Some_conv split: if_splits)
  note c1 = acquire_slot_cfg [OF st(1) assms(3)]
  then have c2: "cfg d2 = cfg d" "hands_off ws2" using wait_fence_cfg [OF st(2)] by auto
  note L = enqueue_log [OF st(3) c2(2)]
  have up: "unat (ds_issued st + 1) = unat (ds_issued st) + 1" using assms(4) unat_less_64 [of n] by (simp add: word_less_unat unat_word_ariths)
  obtain ss where ss: "unat (ds_issued st) = length ss" "unat (ds_done st) + length (ds_window st) = length ss" "\<forall>s \<in> set ss. s < length (dr_slot d0)"
    "cfg d = (dr_log d0 @ map (\<lambda>x. (sa_engine a, sa_channel a, staged_d2h (sa_cmd a) d0 x)) (enumerate 0 ss), dr_chunk d0, dr_staging d0, length (dr_slot d0))"
    using assms(2) by (auto simp: d2h_inv_def)
  have i: "ds_issued st = of_nat (length ss)" using ss(1) by (metis of_nat_unat ucast_id)
  have "staged_d2h (sa_cmd a) d0 (length ss, s) = ?cmd (slot_ptr d2 s)"
    using c2(1) ss(4) i by (simp add: staged_d2h_def cfg_def slot_ptr_def)
  then have "cfg d' = (dr_log d0 @ map (\<lambda>x. (sa_engine a, sa_channel a, staged_d2h (sa_cmd a) d0 x)) (enumerate 0 (ss @ [s])),
      dr_chunk d0, dr_staging d0, length (dr_slot d0))"
    using L c2(1) ss(4) by (simp add: logged_def cfg_def enumerate_snoc)
  moreover have "\<forall>x \<in> set (ss @ [s]). x < length (dr_slot d0)" using ss(3,4) c1 by (auto simp: cfg_def)
  ultimately have "d2h_inv a d0 st' d'" unfolding d2h_inv_def using ss(1,2) st(4) up
    by (intro exI [of _ "ss @ [s]"]) simp
  then show ?thesis using st(4) L up by simp
qed

definition fill_post :: "submit_args \<Rightarrow> u64 \<Rightarrow> d2h_state \<Rightarrow> others list \<Rightarrow> driver \<Rightarrow> (errno option \<times> d2h_state) \<times> others list \<times> driver \<Rightarrow> bool" where
  "fill_post a lim st ws d r \<longleftrightarrow> (\<forall>d0. fst (fst r) = None \<longrightarrow> d2h_inv a d0 st d \<longrightarrow> hands_off ws \<longrightarrow> ds_issued st \<le> lim \<longrightarrow>
     d2h_inv a d0 (snd (fst r)) (snd (snd r)) \<and> hands_off (fst (snd r)) \<and> ds_issued (snd (fst r)) = lim \<and> ds_done (snd (fst r)) = ds_done st)"

lemma d2h_fill_inv:
  assumes "d2h_fill a lim st ws d = Some r"
  shows "fill_post a lim st ws d r"
proof (rule d2h_fill.raw_induct [where P = fill_post, OF _ assms])
  fix loop a lim st ws d r
  assume IH: "\<And>a lim st ws d r. loop a lim st ws d = Some r \<Longrightarrow> fill_post a lim st ws d r"
  assume body: "(if \<not> ds_issued st < lim then Some ((None, st), ws, d)
      else Option.bind (d2h_issue a st ws d) (\<lambda>((rc, st1), ws1, d1).
        if rc \<noteq> None then Some ((rc, st1), ws1, d1) else loop a lim st1 ws1 d1)) = Some r"
  show "fill_post a lim st ws d r"
    unfolding fill_post_def
  proof (intro allI impI)
    fix d0
    assume A: "fst (fst r) = None" "d2h_inv a d0 st d" "hands_off ws" "ds_issued st \<le> lim"
    show "d2h_inv a d0 (snd (fst r)) (snd (snd r)) \<and> hands_off (fst (snd r)) \<and> ds_issued (snd (fst r)) = lim \<and> ds_done (snd (fst r)) = ds_done st"
    proof (cases "ds_issued st < lim")
      case False
      then show ?thesis using body A by auto
    next
      case True
      with body A(1) obtain st1 ws1 d1 where s: "d2h_issue a st ws d = Some ((None, st1), ws1, d1)" "loop a lim st1 ws1 d1 = Some r"
        by (auto simp: bind_eq_Some_conv split: if_splits)
      note I = d2h_issue_inv [OF s(1) A(2,3) True]
      have "ds_issued st1 \<le> lim" using I True inc_le by simp
      then show ?thesis using IH [OF s(2)] A(1) I by (auto simp: fill_post_def)
    qed
  qed
qed

definition loop_post :: "submit_args \<Rightarrow> u64 \<Rightarrow> d2h_state \<Rightarrow> others list \<Rightarrow> driver \<Rightarrow> submitted \<Rightarrow> bool" where
  "loop_post a nchunks st ws d r \<longleftrightarrow> (\<forall>d0. fst (fst r) = None \<longrightarrow> d2h_inv a d0 st d \<longrightarrow> hands_off ws \<longrightarrow> ds_done st \<le> ds_issued st \<longrightarrow>
     ds_issued st \<le> nchunks \<longrightarrow> ds_issued st = nchunks \<or> ds_window st \<noteq> [] \<longrightarrow>
     (\<exists>st'. d2h_inv a d0 st' (snd (snd r)) \<and> ds_issued st' = nchunks))"

lemma host_copy_cfg [simp]: "cfg (host_copy to from n d) = cfg d"
  by (simp add: host_copy_def)

lemma release_slot_cfg [simp]: "cfg (release_slot s f d) = cfg d"
  by (simp add: release_slot_def cfg_def)

lemma d2h_pop:
  assumes "d2h_inv a d0 st d" "ds_done st < nchunks" "ds_issued st = nchunks \<or> ds_window st \<noteq> []" "ds_done st \<le> ds_issued st"
    "cfg d' = cfg d" "st' = st\<lparr>ds_window := tl (ds_window st), ds_done := ds_done st + 1\<rparr>"
  shows "d2h_inv a d0 st' d' \<and> ds_window st \<noteq> [] \<and> ds_done st' \<le> ds_issued st'"
proof -
  obtain ss where ss: "unat (ds_issued st) = length ss" "unat (ds_done st) + length (ds_window st) = length ss" "\<forall>s \<in> set ss. s < length (dr_slot d0)"
    "cfg d = (dr_log d0 @ map (\<lambda>x. (sa_engine a, sa_channel a, staged_d2h (sa_cmd a) d0 x)) (enumerate 0 ss), dr_chunk d0, dr_staging d0, length (dr_slot d0))"
    using assms(1) by (auto simp: d2h_inv_def)
  have ne: "ds_window st \<noteq> []" using assms(2,3) ss(1,2) by (auto simp: word_less_unat)
  have up: "unat (ds_done st + 1) = unat (ds_done st) + 1" using assms(2) unat_less_64 [of nchunks] by (simp add: word_less_unat unat_word_ariths)
  have len: "unat (ds_done st) + 1 + length (tl (ds_window st)) = length ss" using ne ss(2) by (cases "ds_window st") auto
  then have "d2h_inv a d0 st' d'" unfolding d2h_inv_def assms(5,6) using ss up by (intro exI [of _ ss]) simp
  moreover have "ds_done st + 1 \<le> ds_issued st" using up len ss(1) by (simp add: word_le_unat)
  ultimately show ?thesis using ne assms(6) by simp
qed

lemma d2h_loop_log:
  assumes "d2h_loop a nchunks st ws d = Some r"
  shows "loop_post a nchunks st ws d r"
proof (rule d2h_loop.raw_induct [where P = loop_post, OF _ assms])
  fix loop a nchunks st ws d r
  assume IH: "\<And>a nchunks st ws d r. loop a nchunks st ws d = Some r \<Longrightarrow> loop_post a nchunks st ws d r"
  assume body: "(let e = sa_engine a; c = sa_channel a; total = cmd_size (sa_cmd a) in
      if \<not> ds_done st < nchunks then Some ((None, a\<lparr>sa_fence := published d e c\<rparr>), ws, d)
      else let (s, f) = hd (ds_window st); st1 = st\<lparr>ds_window := tl (ds_window st)\<rparr>;
               fn = \<lparr>fn_engine = e, fn_channel = c, fn_value = f\<rparr>; off = ds_done st * dr_chunk d in
        Option.bind (wait_fence fn False SG_WAIT_DEFAULT ws d) (\<lambda>(rc, ws1, d1).
          if rc \<noteq> None then Some ((rc, a), ws1, release_slot s fn d1)
          else let n = min (dr_chunk d) (total - off);
                   d2 = release_slot s fn (host_copy (sa_host_ptr a + off) (slot_ptr d1 s) n d1);
                   st2 = st1\<lparr>ds_done := ds_done st1 + 1\<rparr> in
            if ds_issued st2 < nchunks
            then Option.bind (d2h_issue a st2 ws1 d2) (\<lambda>((rc, st3), ws2, d3).
              if rc \<noteq> None then Some ((rc, a), ws2, d3) else loop a nchunks st3 ws2 d3)
            else loop a nchunks st2 ws1 d2)) = Some r"
  show "loop_post a nchunks st ws d r"
    unfolding loop_post_def
  proof (intro allI impI)
    fix d0
    assume A: "fst (fst r) = None" "d2h_inv a d0 st d" "hands_off ws" "ds_done st \<le> ds_issued st"
      "ds_issued st \<le> nchunks" "ds_issued st = nchunks \<or> ds_window st \<noteq> []"
    let ?P = "\<exists>st'. d2h_inv a d0 st' (snd (snd r)) \<and> ds_issued st' = nchunks"
    show ?P
    proof (cases "ds_done st < nchunks")
      case False
      then have "snd (snd r) = d" "ds_issued st = nchunks" using body A(4,5) by auto
      then show ?thesis using A(2) by auto
    next
      case True
      obtain s f where w: "hd (ds_window st) = (s, f)" by (cases "hd (ds_window st)")
      define st2 where "st2 = st\<lparr>ds_window := tl (ds_window st), ds_done := ds_done st + 1\<rparr>"
      define K where "K ws1 d2 = (if ds_issued st2 < nchunks
            then Option.bind (d2h_issue a st2 ws1 d2) (\<lambda>((rc, st3), ws2, d3).
              if rc \<noteq> None then Some ((rc, a), ws2, d3) else loop a nchunks st3 ws2 d3)
            else loop a nchunks st2 ws1 d2)" for ws1 d2
      let ?fn = "\<lparr>fn_engine = sa_engine a, fn_channel = sa_channel a, fn_value = f\<rparr>" and ?off = "ds_done st * dr_chunk d"
      have bnd: "Option.bind (wait_fence ?fn False SG_WAIT_DEFAULT ws d) (\<lambda>(rc, ws1, d1).
          if rc \<noteq> None then Some ((rc, a), ws1, release_slot s ?fn d1)
          else K ws1 (release_slot s ?fn (host_copy (sa_host_ptr a + ?off) (slot_ptr d1 s) (min (dr_chunk d) (cmd_size (sa_cmd a) - ?off)) d1))) = Some r"
        using body True w by (simp add: Let_def K_def st2_def cong: if_cong)
      then obtain rc ws1 d1 where wt: "wait_fence ?fn False SG_WAIT_DEFAULT ws d = Some (rc, ws1, d1)"
        by (auto simp: bind_eq_Some_conv)
      with bnd A(1) have rc: "rc = None" by (cases rc) auto
      let ?d2 = "release_slot s ?fn (host_copy (sa_host_ptr a + ?off) (slot_ptr d1 s) (min (dr_chunk d) (cmd_size (sa_cmd a) - ?off)) d1)"
      obtain d2 where d2: "cfg d2 = cfg d1" and rest: "K ws1 d2 = Some r"
        using that [of ?d2] bnd wt rc by simp
      note c = wait_fence_cfg [OF wt A(3)]
      note I = d2h_pop [OF A(2) True A(6,4) _ st2_def, of d2] 
      show ?thesis
      proof (cases "ds_issued st2 < nchunks")
        case False
        then have "loop a nchunks st2 ws1 d2 = Some r" "ds_issued st2 = nchunks" using rest A(5) by (auto simp: K_def st2_def)
        then show ?thesis using IH [of a nchunks st2 ws1 d2 r] A(1) I c d2 by (auto simp: loop_post_def)
      next
        case True
        with rest A(1) obtain st3 ws2 d3 where s: "d2h_issue a st2 ws1 d2 = Some ((None, st3), ws2, d3)" "loop a nchunks st3 ws2 d3 = Some r"
          by (auto simp: K_def bind_eq_Some_conv split: if_splits)
        from I c d2 have I2: "d2h_inv a d0 st2 d2" "ds_done st2 \<le> ds_issued st2" by simp_all
        note J = d2h_issue_inv [OF s(1) I2(1) conjunct2 [OF c] True]
        have "ds_issued st3 \<le> nchunks" "ds_done st3 \<le> ds_issued st3"
          using J True I2(2) inc_le by (auto simp: word_le_unat)
        then show ?thesis using IH [OF s(2)] A(1) J by (auto simp: loop_post_def)
      qed
    qed
  qed
qed

lemma nchunks_end:
  assumes "unat (sz :: u64) + unat chunk < 2 ^ 64" "chunk \<noteq> 0"
  shows "chunks_end (unat sz) (unat chunk) 0 (unat ((sz + chunk - 1) div chunk))"
proof -
  have c: "0 < unat chunk" using assms(2) by (simp add: unat_gt_0)
  have s: "unat (sz + chunk) = unat sz + unat chunk" using assms(1) by (subst unat_add_64) simp_all
  then have "1 \<le> sz + chunk" using c by (simp add: word_le_unat)
  then have "unat (sz + chunk - 1) = unat sz + unat chunk - 1" using s by (simp add: unat_sub)
  then have n: "unat ((sz + chunk - 1) div chunk) = (unat sz + unat chunk - 1) div unat chunk" by (simp add: unat_div)
  define n where "n = (unat sz + unat chunk - 1) div unat chunk"
  have "n * unat chunk \<le> unat sz + unat chunk - 1" "unat sz + unat chunk - 1 < n * unat chunk + unat chunk"
    unfolding n_def using dividend_less_div_times [OF c, of "unat sz + unat chunk - 1"] by (simp_all add: add.commute)
  moreover from this have "(n - 1) * unat chunk < unat sz" if "n \<noteq> 0" using that c by (cases n) auto
  ultimately show ?thesis using c n by (auto simp: chunks_end_def n_def)
qed

text \<open>C20: Pageable copies from the device. A copy back through the staging pool that succeeds was of owned memory and has
  enqueued, in order on the one channel, every chunk of the copy once: chunk \<open>j\<close> reads at \<open>j\<close> times the chunk size and
  writes a staging slot; no chunk is empty and the sizes add up.\<close>

theorem d2h_staged:
  assumes "submit_d2h a ws d = Some ((None, a'), ws', d')" "\<not> pinned d (sa_host_ptr a) (cmd_size (sa_cmd a))" "hands_off ws"
    "dr_chunk d \<noteq> 0" "unat (cmd_size (sa_cmd a)) + unat (dr_chunk d) < 2 ^ 64"
  shows "owns d (src0 (sa_cmd a)) (cmd_size (sa_cmd a)) \<and>
    (\<exists>cs. dr_log d' = dr_log d @ map (\<lambda>k. (sa_engine a, sa_channel a, k)) cs \<and>
      (\<forall>j < length cs. \<exists>s < length (dr_slot d). cs ! j = staged_d2h (sa_cmd a) d (j, s)) \<and>
      (\<Sum>k \<leftarrow> cs. unat (cmd_size k)) = unat (cmd_size (sa_cmd a)) \<and> (\<forall>k \<in> set cs. cmd_size k \<noteq> 0))"
proof -
  define d1 where "d1 = count_bytes (\<lambda>k. k\<lparr>ct_bytes_staged := ct_bytes_staged k + cmd_size (sa_cmd a)\<rparr>)
    (count_bytes (\<lambda>k. k\<lparr>ct_bytes_d2h := ct_bytes_d2h k + cmd_size (sa_cmd a)\<rparr>) d)"
  have d1: "dr_log d1 = dr_log d" "dr_chunk d1 = dr_chunk d" "dr_slot d1 = dr_slot d" "staged_d2h cmd d1 = staged_d2h cmd d" for cmd
    by (simp_all add: d1_def count_bytes_def staged_d2h_def slot_ptr_def fun_eq_iff)
  define n where "n = (cmd_size (sa_cmd a) + dr_chunk d - 1) div dr_chunk d"
  define lim where "lim = min (max 1 (of_nat (length (dr_slot d)) div 2)) n"
  let ?st0 = "\<lparr>ds_window = [], ds_issued = 0, ds_done = 0\<rparr>"
  have own: "owns d (src0 (sa_cmd a)) (cmd_size (sa_cmd a))" and run: "Option.bind (d2h_fill a lim ?st0 ws d1) (\<lambda>((rc, st), ws1, d3).
      if rc \<noteq> None then Some ((rc, a), ws1, d3) else d2h_loop a n st ws1 d3) = Some ((None, a'), ws', d')"
    using assms(1,2) by (auto simp: submit_d2h_def Let_def pinned_def count_bytes_def d1_def lim_def n_def cong: if_cong split: if_splits)
  from run obtain st ws1 d3 where f: "d2h_fill a lim ?st0 ws d1 = Some ((None, st), ws1, d3)" and l: "d2h_loop a n st ws1 d3 = Some ((None, a'), ws', d')"
    by (auto simp: bind_eq_Some_conv split: if_splits)
  have "d2h_inv a d1 ?st0 d1" by (simp add: d2h_inv_def cfg_def)
  with d2h_fill_inv [OF f] assms(3) have I: "d2h_inv a d1 st d3" "hands_off ws1" "ds_issued st = lim" "ds_done st = 0"
    by (auto simp: fill_post_def)
  have "lim = n \<or> 1 \<le> lim" by (auto simp: lim_def min_def)
  moreover have "unat (ds_done st) + length (ds_window st) = unat (ds_issued st)" using I(1) by (auto simp: d2h_inv_def)
  ultimately have w: "ds_issued st = n \<or> ds_window st \<noteq> []" using I(3,4) by (auto simp: word_le_unat)
  have "lim \<le> n" by (simp add: lim_def)
  with d2h_loop_log [OF l] I w obtain st' where st': "d2h_inv a d1 st' d'" "ds_issued st' = n" by (auto simp: loop_post_def)
  then obtain ss where ss: "\<forall>s \<in> set ss. s < length (dr_slot d)" "length ss = unat n"
      "dr_log d' = dr_log d @ map (\<lambda>x. (sa_engine a, sa_channel a, staged_d2h (sa_cmd a) d x)) (enumerate 0 ss)"
    by (auto simp: d2h_inv_def cfg_def d1)
  let ?cs = "map (staged_d2h (sa_cmd a) d) (enumerate 0 ss)"
  have n: "?cs ! j = staged_d2h (sa_cmd a) d (j, ss ! j)" if "j < length ss" for j using that by (simp add: nth_enumerate_eq)
  then have "cmd_size (?cs ! j) = min (dr_chunk d) (cmd_size (sa_cmd a) - of_nat j * dr_chunk d)" if "j < length ss" for j
    using that by (simp add: staged_d2h_def)
  moreover have "chunks_end (unat (cmd_size (sa_cmd a))) (unat (dr_chunk d)) 0 (length ss)"
    using nchunks_end [OF assms(5,4)] ss(2) by (simp add: n_def)
  ultimately have "(\<Sum>k \<leftarrow> ?cs. unat (cmd_size k)) = unat (cmd_size (sa_cmd a)) \<and> (\<forall>k \<in> set ?cs. cmd_size k \<noteq> 0)"
    using chunks_sizes [of _ _ "length ss" ?cs] assms(4) by simp
  moreover have "\<exists>s < length (dr_slot d). ?cs ! j = staged_d2h (sa_cmd a) d (j, s)" if "j < length ?cs" for j
    using n [of j] that ss(1) by (auto intro: exI [of _ "ss ! j"])
  moreover have "dr_log d' = dr_log d @ map (\<lambda>k. (sa_engine a, sa_channel a, k)) ?cs" using ss(3) by simp
  ultimately show ?thesis using own by blast
qed

section \<open>The whole call\<close>

text \<open>What the call has to check of a command's operands, in 64-bit byte counts.\<close>

definition operands_owned :: "driver \<Rightarrow> sg_cmd \<Rightarrow> bool" where
  "operands_owned d cmd \<longleftrightarrow>
     (opcode cmd = SG_OP_WAIT_FENCE \<longrightarrow> arg0 cmd < num_engines (dr_dev d) \<and> arg1 cmd < num_channels (dr_dev d) \<and>
        src1 cmd \<le> published d (arg0 cmd) (arg1 cmd)) \<and>
     (opcode cmd = SG_OP_FILL \<longrightarrow> owns d (dst cmd) (cmd_size cmd)) \<and>
     (opcode cmd = SG_OP_COPY_D2D \<longrightarrow> owns d (dst cmd) (cmd_size cmd) \<and> owns d (src0 cmd) (cmd_size cmd)) \<and>
     (opcode cmd = SG_OP_VADD_F32 \<longrightarrow> (\<forall>x \<in> {dst cmd, src0 cmd, src1 cmd}. owns d x (ucast (arg0 cmd) * 4))) \<and>
     (opcode cmd = SG_OP_GEMM_F32 \<longrightarrow> owns d (src0 cmd) (ucast (arg0 cmd) * ucast (arg2 cmd) * 4) \<and>
        owns d (src1 cmd) (ucast (arg2 cmd) * ucast (arg1 cmd) * 4) \<and> owns d (dst cmd) (ucast (arg0 cmd) * ucast (arg1 cmd) * 4))"

lemma submit_one_log:
  assumes "submit_one a cmd ws d = Some ((rc, a'), ws', d')" "hands_off ws"
  shows "rc = None \<and> sa_out_flags a' = sa_out_flags a \<and> cfg d' = (dr_log d @ [(sa_engine a, sa_channel a, cmd)], dr_chunk d, dr_staging d, length (dr_slot d))"
  using assms enqueue_log by (auto simp: submit_one_def bind_eq_Some_conv logged_def)

lemma submit_body_log:
  assumes "submit_body a ws d = Some ((rc, a'), ws', d')" "hands_off ws" "opcode (sa_cmd a) \<noteq> SG_OP_COPY_H2D" "opcode (sa_cmd a) \<noteq> SG_OP_COPY_D2H"
  shows "if rc = None then operands_owned d (sa_cmd a) \<and> dr_log d' = dr_log d @ [(sa_engine a, sa_channel a, sa_cmd a)] \<and> sa_out_flags a' = sa_out_flags a
    else rc \<in> {Some EINVAL, Some EFAULT} \<and> dr_log d' = dr_log d \<and> a' = a"
  using assms submit_one_log [OF _ assms(2), of a "sa_cmd a" d rc a' ws' d']
  by (auto simp: submit_body_def Let_def operands_owned_def sg_ops cfg_def not_le split: if_splits)

lemma opcode_cases:
  assumes "(op :: u32) < SG_OP_COUNT"
  shows "op \<in> {SG_OP_NOP, SG_OP_FILL, SG_OP_COPY_H2D, SG_OP_COPY_D2H, SG_OP_COPY_D2D, SG_OP_VADD_F32, SG_OP_GEMM_F32, SG_OP_WAIT_FENCE}"
proof -
  have "unat op < 8" using assms by (simp add: sg_ops word_less_unat)
  then have "unat op \<in> {0, 1, 2, 3, 4, 5, 6, 7}" by (simp only: insert_iff empty_iff) linarith
  then have "of_nat (unat op) \<in> (of_nat ` {0, 1, 2, 3, 4, 5, 6, 7} :: u32 set)" by (rule imageI)
  then show ?thesis by (simp add: sg_ops)
qed

lemma submit_body_refuses:
  assumes "submit_body a ws d = Some ((Some er, a'), ws', d')" "hands_off ws" "opcode (sa_cmd a) < SG_OP_COUNT"
    "opcode (sa_cmd a) \<noteq> SG_OP_COPY_H2D" "opcode (sa_cmd a) \<noteq> SG_OP_COPY_D2H"
  shows "\<not> operands_owned d (sa_cmd a)"
  using assms submit_one_log [OF _ assms(2), of a "sa_cmd a" d "Some er" a' ws' d'] opcode_cases [OF assms(3)]
  by (auto simp: submit_body_def Let_def operands_owned_def sg_ops not_le split: if_splits)

lemma await_lock_cfg: "await_lock e c ws d = Some (ws', d') \<Longrightarrow> hands_off ws \<Longrightarrow> cfg d' = cfg d \<and> hands_off ws'"
proof (induction e c ws d rule: await_lock.induct)
  case (1 e c ws d)
  then show ?case by (subst (asm) (2) await_lock.simps) (auto split: if_splits list.splits)
qed

lemma lock_channel_cfg: "lock_channel e c ws d = Some (ws', d') \<Longrightarrow> hands_off ws \<Longrightarrow> cfg d' = cfg d \<and> hands_off ws'"
  by (auto simp: lock_channel_def Let_def split: if_splits dest!: await_lock_cfg)

definition contended :: "u32 \<Rightarrow> u32 \<Rightarrow> driver \<Rightarrow> bool" where
  "contended e c d \<longleftrightarrow> rd_mode (dr_ring d) = SG_SUBMIT_MUTEX \<and> rd_lock (dr_ring d) e c"

lemma lock_channel_free:
  assumes "lock_channel e c ws (d\<lparr>dr_ct := k\<rparr>) = Some (ws1, d1)" "\<not> contended e c d"
  shows "dr_allocs d1 = dr_allocs d" "rd_put (dr_ring d1) = rd_put (dr_ring d)" "dr_dev d1 = dr_dev d"
  using assms by (auto simp: lock_channel_def contended_def await_lock.simps split: if_splits)


text \<open>The byte counts of a matrix product are 64-bit: dimensions whose product is a multiple of \<open>2 ^ 62\<close> pass the check at
  any owned address, although the matrices do not fit the device.\<close>

lemma gemm_wrap_accepted:
  assumes "owns d p 0" "arg0 cmd = 0x80000000" "arg1 cmd = 0x80000000" "arg2 cmd = 0x80000000" "dst cmd = p" "src0 cmd = p" "src1 cmd = p"
    "opcode cmd = SG_OP_GEMM_F32"
  shows "operands_owned d cmd \<and> unat (arg0 cmd) * unat (arg1 cmd) * 4 > unat SG_VRAM_SIZE"
proof -
  have z: "(18446744073709551616 :: u64) = 0" by code_simp
  show ?thesis using assms by (simp add: operands_owned_def sg_ops sg_sizes) (simp only: z)
qed

section \<open>Examples\<close>

text \<open>For evaluation: a bind as a case distinction, whose branches wait for the value.\<close>

lemma bind_case: "Option.bind m f = (case m of None \<Rightarrow> None | Some x \<Rightarrow> f x)"
  by (cases m) simp_all

lemmas loops_code [code] = h2d_loop.simps [unfolded bind_case Let_def] d2h_fill.simps [unfolded bind_case Let_def] d2h_loop.simps [unfolded bind_case Let_def]
lemmas submit_code [code] = do_submit_def [unfolded bind_case Let_def] submit_body_def [unfolded Let_def] submit_one_def [unfolded bind_case]
  submit_h2d_def [unfolded bind_case Let_def] lock_channel_def [unfolded Let_def] submit_refused_def [unfolded Let_def]
lemmas issue_code [code] = d2h_issue_def [unfolded bind_case Let_def] submit_d2h_def [unfolded bind_case Let_def] enqueue_def [unfolded Let_def]
  publish_def [unfolded Let_def] await_space_def [unfolded Let_def] wait_until_def [unfolded Let_def]

text \<open>A driver with one allocation of three pages, 4096-byte staging chunks, and engines that retire what is published.\<close>

definition demo_mm :: mem_mgr where
  "demo_mm = dr_mm demo_drv"

definition demo_mem :: dev_mem where
  "demo_mem = dv_mem (dr_dev demo_drv)"

definition demo_dev :: device where
  "demo_dev =
     \<lparr>dv_ch = (\<lambda>_ _. fresh_channel\<lparr>ring_mask := 1023\<rparr>), dv_replay = (\<lambda>_ _. fresh_replay), dv_stats = (\<lambda>_. fresh_stats), dv_access = (\<lambda>_. 0),
      dv_irq = 0, dv_last_irq = 0, dv_fault_irq = 0, dv_faults = [], dv_bell = (\<lambda>_. 0), dv_inflight = (\<lambda>_. 0), dv_words = None,
      dv_host_irq = False, dv_kmod_irqs = 0, dv_asleep = (\<lambda>_. False), dv_asleep_blocked = (\<lambda>_. False), dv_wake_stamp = (\<lambda>_. 0),
      dv_num_asleep_blocked = 0, dv_idle_policy = SG_IDLE_HYBRID, dv_idle_ns = 50000, dv_timeslice_ns = 0,
      dv_mixed_priority = False, num_engines = 2, num_channels = 8, dv_mem = demo_mem, dv_running = True, dv_now = 0, dv_cpu = (\<lambda>_. 0)\<rparr>"

definition demo_copy_drv :: driver where
  "demo_copy_drv =
     \<lparr>dr_dev = demo_dev,
      dr_ring = \<lparr>rd_mode = SG_SUBMIT_MUTEX, rd_depth = 1024, rd_put = (\<lambda>_ _. 0), rd_reserve = (\<lambda>_ _. 0), rd_lock = (\<lambda>_ _. False), rd_stalls = 0\<rparr>,
      dr_mm = demo_mm, dr_allocs = [(0x1000, \<lparr>al_size = 0x3000, al_host = 0\<rparr>)], dr_pending = [], dr_pins = [], dr_staging = 0x100000,
      dr_slot = replicate 8 \<lparr>sl_fence = no_fence, sl_busy = False\<rparr>, dr_chunk = 0x1000, dr_next_slot = 0, dr_policy = SG_POLICY_SPIN,
      dr_spin_ns = 30000, dr_idle_policy = SG_IDLE_HYBRID, dr_idle_ns = 50000, dr_timeslice_ns = 0, dr_ewma = (\<lambda>_ _. 0), dr_ewma_all = 0,
      dr_ct = zero_counters, dr_uffd_hold = False, dr_kmod = False, dr_log = []\<rparr>"

definition demo_copy :: "u32 \<Rightarrow> submit_args" where
  "demo_copy op = \<lparr>sa_cmd = zero_cmd\<lparr>opcode := op, dst := 0x1800, src0 := 0x1800, cmd_size := 0x800\<rparr>, sa_host_ptr = 0x500000, sa_fence = 0,
     sa_out_flags = 0, sa_engine = 1, sa_channel = 0\<rparr>"

definition demo_engine :: others where
  "demo_engine d = d\<lparr>dr_dev := upd_ch 1 0 (ch_get_update (\<lambda>_. published d 1 0)) (dr_dev d)\<rparr>"

lemma demo_engine_hands_off: "hands_off (replicate n demo_engine)"
  by (auto simp: hands_off_def demo_engine_def)

text \<open>The memory does not matter for the examples.\<close>

declare demo_mm_def [code del] demo_mem_def [code del] blit_def [code del]

theorem owns_iff_witness: "owns demo_copy_drv 0x1800 0x2800 \<and> \<not> owns demo_copy_drv 0x1800 0x2801"
proof -
  have a: "apart (alloc_ranges demo_copy_drv)" by code_simp
  show ?thesis unfolding owns_iff [OF a] by (simp add: demo_copy_drv_def)
qed

definition demo_fill :: submit_args where
  "demo_fill = (demo_copy SG_OP_FILL)\<lparr>sa_engine := 0\<rparr>"


theorem h2d_staged_witness:
  "\<exists>a' ws' d' cs. submit_h2d (demo_copy SG_OP_COPY_H2D) (replicate 3 demo_engine) demo_copy_drv = Some ((None, a'), ws', d') \<and>
     dr_log d' = map (\<lambda>k. (1, 0, k)) cs \<and> (\<Sum>k \<leftarrow> cs. unat (cmd_size k)) = 0x800"
proof -
  let ?r = "submit_h2d (demo_copy SG_OP_COPY_H2D) (replicate 3 demo_engine) demo_copy_drv"
  have "map_option (\<lambda>((rc, a), ws, d). rc) ?r = Some None" by code_simp
  then obtain a' ws' d' where r: "?r = Some ((None, a'), ws', d')" by auto
  have s: "\<not> pinned demo_copy_drv (sa_host_ptr (demo_copy SG_OP_COPY_H2D)) (cmd_size (sa_cmd (demo_copy SG_OP_COPY_H2D)))"
    "dr_chunk demo_copy_drv = 0x1000" "dr_log demo_copy_drv = []" "cmd_size (sa_cmd (demo_copy op)) = 0x800"
    "sa_engine (demo_copy op) = 1" "sa_channel (demo_copy op) = 0" for op
    by (simp_all add: demo_copy_drv_def demo_copy_def pinned_def om_upto_def Let_def)
  from h2d_staged [OF r s(1) demo_engine_hands_off] r show ?thesis by (auto simp: s)
qed

theorem d2h_staged_witness:
  "\<exists>a' ws' d' cs. submit_d2h (demo_copy SG_OP_COPY_D2H) (replicate 3 demo_engine) demo_copy_drv = Some ((None, a'), ws', d') \<and>
     dr_log d' = map (\<lambda>k. (1, 0, k)) cs \<and> (\<Sum>k \<leftarrow> cs. unat (cmd_size k)) = 0x800"
proof -
  let ?r = "submit_d2h (demo_copy SG_OP_COPY_D2H) (replicate 3 demo_engine) demo_copy_drv"
  have "map_option (\<lambda>((rc, a), ws, d). rc) ?r = Some None" by code_simp
  then obtain a' ws' d' where r: "?r = Some ((None, a'), ws', d')" by auto
  have s: "\<not> pinned demo_copy_drv (sa_host_ptr (demo_copy SG_OP_COPY_D2H)) (cmd_size (sa_cmd (demo_copy SG_OP_COPY_D2H)))"
    "dr_chunk demo_copy_drv = 0x1000" "dr_log demo_copy_drv = []" "cmd_size (sa_cmd (demo_copy op)) = 0x800"
    "sa_engine (demo_copy op) = 1" "sa_channel (demo_copy op) = 0" for op
    by (simp_all add: demo_copy_drv_def demo_copy_def pinned_def om_upto_def Let_def)
  from d2h_staged [OF r s(1) demo_engine_hands_off] r show ?thesis by (auto simp: s)
qed

declare blit_def [code]

end
