(* ===== verification/Drv_Ioctl.thy ===== *)
theory Drv_Ioctl
  imports Drv_Submit "HOL-Library.Sublist"
begin

text \<open>
  The driver's system call interface (\<^verbatim>\<open>sg_drv_open\<close>, \<^verbatim>\<open>sg_drv_close\<close> and \<^verbatim>\<open>sg_drv_ioctl\<close> of
  \<^verbatim>\<open>src/src/driver/driver.cpp\<close>): memory is allocated, freed only once the device is done with it, host ranges are
  pinned and unpinned, and configuration and counters are reported. A request carries its argument, which is
  \<^const>\<open>None\<close> for a null pointer. The answers of the operating system are arguments of the calls.
\<close>

section \<open>Arguments\<close>

record query_args =
  qa_abi_version :: u32
  qa_staging_slots :: u32
  qa_vram_size :: u64
  qa_staging_chunk :: u64
  qa_num_engines :: u32
  qa_num_channels :: u32
  qa_wait_policy :: sg_wait_policy
  qa_submit_mode :: sg_submit_mode
  qa_spin_ns :: u64
  qa_idle_policy :: sg_idle_policy
  qa_uffd :: bool
  qa_idle_ns :: u64
  qa_priority_least :: int
  qa_priority_greatest :: int
  qa_timeslice_ns :: u64
  qa_kmod :: bool

record wait_args =
  wa_engine :: u32
  wa_channel :: u32
  wa_fence :: u64
  wa_flags :: u32

record pin_args =
  pa_addr :: u64
  pa_size :: u64

record priority_args =
  pr_engine :: u32
  pr_channel :: u32
  pr_priority :: int

record stats_args =
  ss_num_engines :: u32
  ss_busy_cycles :: "u32 \<Rightarrow> u64"
  ss_wait_cycles :: "u32 \<Rightarrow> u64"
  ss_idle_cycles :: "u32 \<Rightarrow> u64"
  ss_cmds_executed :: "u32 \<Rightarrow> u64"
  ss_batches :: "u32 \<Rightarrow> u64"
  ss_irqs :: "u32 \<Rightarrow> u64"
  ss_sleep_cycles :: "u32 \<Rightarrow> u64"
  ss_wakeups :: "u32 \<Rightarrow> u64"
  ss_missed_doorbells :: "u32 \<Rightarrow> u64"
  ss_cpu_ns :: "u32 \<Rightarrow> u64"
  ss_faults :: "u32 \<Rightarrow> u64"
  ss_preempts :: "u32 \<Rightarrow> u64"
  ss_tlb_hits :: "u32 \<Rightarrow> u64"
  ss_tlb_misses :: "u32 \<Rightarrow> u64"
  ss_submits :: u64
  ss_waits :: u64
  ss_waits_spun :: u64
  ss_waits_blocked :: u64
  ss_wake_latency_ns :: u64
  ss_lock_wait_ns :: u64
  ss_stalls :: u64
  ss_staging_waits :: u64
  ss_bytes_h2d :: u64
  ss_bytes_d2h :: u64
  ss_bytes_direct :: u64
  ss_bytes_staged :: u64
  ss_migrations :: u64
  ss_prefetches :: u64
  ss_evictions :: u64
  ss_writebacks :: u64
  ss_bytes_migrated :: u64
  ss_host_faults :: u64
  ss_host_fault_ns :: u64

text \<open>The system's answers: to the fault handling calls, to a request for page-aligned host memory of some size, and to the
  registration of a range with \<^verbatim>\<open>userfaultfd\<close>.\<close>

record host_sys =
  hs_uffd :: uffd_os
  hs_map :: "u64 \<Rightarrow> u64 option"
  hs_register :: "u64 \<Rightarrow> u64 \<Rightarrow> errno option"

section \<open>Deferred release\<close>

text \<open>What the other threads do before the next access to shared state, if anything.\<close>

fun breathe :: "others list \<Rightarrow> driver \<Rightarrow> others list \<times> driver" where
  "breathe [] d = ([], d)"
| "breathe (w # ws) d = (ws, w d)"

definition put_mm :: "(mem_mgr \<Rightarrow> mem_mgr) \<Rightarrow> driver \<Rightarrow> driver" where
  "put_mm f d = d\<lparr>dr_mm := f (dr_mm d)\<rparr>"

text \<open>One pass over the deferred list; the result has the entries to keep.\<close>

fun reclaim_loop :: "pending list \<Rightarrow> others list \<Rightarrow> driver \<Rightarrow> pending list \<times> others list \<times> driver" where
  "reclaim_loop [] ws d = ([], ws, d)"
| "reclaim_loop (p # ps) ws d =
     (let (ws1, d1) = breathe ws d in
      if all_retired (pd_fence p) d1 then reclaim_loop ps ws1 (put_mm (recycle p) d1)
      else let (keep, ws2, d2) = reclaim_loop ps ws1 d1 in (p # keep, ws2, d2))"

definition reclaim_locked :: "others list \<Rightarrow> driver \<Rightarrow> others list \<times> driver" where
  "reclaim_locked ws d =
     (let (keep, ws1, d1) = reclaim_loop (dr_pending d) ws d in (ws1, d1\<lparr>dr_pending := keep\<rparr>))"

section \<open>Requests\<close>

type_synonym 'a ioc = "('a \<times> others list \<times> driver) option"

definition ioc_wait :: "wait_args \<Rightarrow> others list \<Rightarrow> driver \<Rightarrow> errno option ioc" where
  "ioc_wait w ws d =
     (if wa_engine w = SG_WAIT_ALL then wait_snapshot (snapshot_puts d) (wa_flags w) ws d
      else if wa_engine w \<ge> num_engines (dr_dev d) \<or> wa_channel w \<ge> num_channels (dr_dev d) then Some (Some EINVAL, ws, d)
      else wait_fence \<lparr>fn_engine = wa_engine w, fn_channel = wa_channel w, fn_value = wa_fence w\<rparr> False (wa_flags w) ws d)"

definition ioc_query :: "driver \<Rightarrow> query_args" where
  "ioc_query d =
     \<lparr>qa_abi_version = SG_ABI_VERSION, qa_staging_slots = of_nat (length (dr_slot d)), qa_vram_size = SG_VRAM_SIZE,
      qa_staging_chunk = dr_chunk d, qa_num_engines = num_engines (dr_dev d), qa_num_channels = num_channels (dr_dev d),
      qa_wait_policy = dr_policy d, qa_submit_mode = rd_mode (dr_ring d), qa_spin_ns = dr_spin_ns d, qa_idle_policy = dr_idle_policy d,
      qa_uffd = mm_uffd (dr_mm d), qa_idle_ns = dr_idle_ns d, qa_priority_least = SG_PRIORITY_LEAST,
      qa_priority_greatest = SG_PRIORITY_GREATEST, qa_timeslice_ns = dr_timeslice_ns d, qa_kmod = dr_kmod d\<rparr>"

definition page_count :: "u64 \<Rightarrow> u64" where
  "page_count sz = (sz + SG_PAGE_SIZE - 1) div SG_PAGE_SIZE"

definition take_vram :: "u64 \<Rightarrow> others list \<Rightarrow> driver \<Rightarrow> u64 option \<times> others list \<times> driver" where
  "take_vram sz ws d =
     (let (ws1, d1) = breathe ws d; (r, A) = va_alloc (mm_vram (dr_mm d1)) sz in (r, ws1, put_mm (mm_vram_update (\<lambda>_. A)) d1))"

definition map_block :: "u64 \<Rightarrow> u64 \<Rightarrow> driver \<Rightarrow> (errno + u64) \<times> driver" where
  "map_block sz addr d =
     (case map_vram addr addr (page_count sz) (mm_mmu (dr_mm d)) of
        (Some er, _) \<Rightarrow> (Inl er, put_mm (free_frame addr) d)
      | (None, m) \<Rightarrow> (Inr addr, (put_mm (put_mmu m) d)
          \<lparr>dr_allocs := om_emplace addr \<lparr>al_size = page_count sz * SG_PAGE_SIZE, al_host = 0\<rparr> (dr_allocs d)\<rparr>))"

definition ioc_alloc :: "host_sys \<Rightarrow> u64 \<Rightarrow> others list \<Rightarrow> driver \<Rightarrow> (errno + u64) ioc" where
  "ioc_alloc sys sz ws d =
     (if sz = 0 then Some (Inl EINVAL, ws, d)
      else let (ws0, d0) = reclaim_locked ws d; (r, ws1, d1) = take_vram sz ws0 d0;
               fin = (\<lambda>addr ws d. case map_block sz addr d of (r, d') \<Rightarrow> Some (r, ws, d')) in
        case r of
          Some addr \<Rightarrow> fin addr ws1 d1
        | None \<Rightarrow>
            (case drain ws1 d1 of
               None \<Rightarrow> None
             | Some (Some er, ws2, d2) \<Rightarrow> Some (Inl er, ws2, d2)
             | Some (None, ws2, d2) \<Rightarrow>
                 (let (ws3, d3) = reclaim_locked ws2 d2; (r, ws4, d4) = take_vram sz ws3 d3 in
                  case r of
                    Some addr \<Rightarrow> fin addr ws4 d4
                  | None \<Rightarrow>
                      (let (ws5, d5) = breathe ws4 d4; (r, ws6, d6) = take_vram sz ws5 (put_mm (evict_all_locked (hs_uffd sys)) d5) in
                       case r of Some addr \<Rightarrow> fin addr ws6 d6 | None \<Rightarrow> Some (Inl ENOMEM, ws6, d6)))))"

definition take_va :: "u64 \<Rightarrow> driver \<Rightarrow> u64 option \<times> driver" where
  "take_va sz d = (let (r, A) = va_alloc (mm_managed_va (dr_mm d)) sz in (r, put_mm (mm_managed_va_update (\<lambda>_. A)) d))"

definition free_va :: "u64 \<Rightarrow> mem_mgr \<Rightarrow> mem_mgr" where
  "free_va addr s = s\<lparr>mm_managed_va := snd (va_dealloc (mm_managed_va s) addr)\<rparr>"

definition host_zero :: "u64 \<Rightarrow> u64 \<Rightarrow> mem_mgr \<Rightarrow> mem_mgr" where
  "host_zero hp bytes s = s\<lparr>mm_mem := (mm_mem s)\<lparr>dm_host := (\<lambda>a. if a - hp < bytes then 0 else dm_host (mm_mem s) a)\<rparr>\<rparr>"

text \<open>Back a managed range with host memory: allocate, clear, register, map.\<close>

definition map_managed :: "host_sys \<Rightarrow> u64 \<Rightarrow> u64 \<Rightarrow> driver \<Rightarrow> (errno + u64 \<times> u64) \<times> driver" where
  "map_managed sys sz addr d =
     (let pages = page_count sz; bytes = pages * SG_PAGE_SIZE in
      case hs_map sys bytes of
        None \<Rightarrow> (Inl ENOMEM, put_mm (free_va addr) d)
      | Some host \<Rightarrow>
          (let d1 = put_mm (host_zero host bytes) d in
           case (if mm_uffd (dr_mm d1) then hs_register sys host bytes else None) of
             Some er \<Rightarrow> (Inl er, put_mm (free_va addr) d1)
           | None \<Rightarrow>
               (case map_host addr host pages (mm_mmu (dr_mm d1)) of
                  (Some er, _) \<Rightarrow> (Inl er, put_mm (free_va addr) d1)
                | (None, m) \<Rightarrow>
                    (Inr (addr, host),
                     (put_mm (\<lambda>s. s\<lparr>mm_ranges := om_emplace addr \<lparr>ms_end = addr + bytes, ms_host = host\<rparr> (mm_ranges s)\<rparr>) (put_mm (put_mmu m) d1))
                     \<lparr>dr_allocs := om_emplace addr \<lparr>al_size = bytes, al_host = host\<rparr> (dr_allocs d1)\<rparr>))))"

definition ioc_alloc_managed :: "host_sys \<Rightarrow> u64 \<Rightarrow> others list \<Rightarrow> driver \<Rightarrow> (errno + u64 \<times> u64) ioc" where
  "ioc_alloc_managed sys sz ws d =
     (if sz = 0 then Some (Inl EINVAL, ws, d)
      else let (ws0, d0) = reclaim_locked ws d; (r, d1) = take_va sz d0;
               fin = (\<lambda>addr ws d. case map_managed sys sz addr d of (r, d') \<Rightarrow> Some (r, ws, d')) in
        case r of
          Some addr \<Rightarrow> fin addr ws0 d1
        | None \<Rightarrow>
            (case drain ws0 d1 of
               None \<Rightarrow> None
             | Some (Some er, ws2, d2) \<Rightarrow> Some (Inl er, ws2, d2)
             | Some (None, ws2, d2) \<Rightarrow>
                 (let (ws3, d3) = reclaim_locked ws2 d2; (r, d4) = take_va sz d3 in
                  case r of Some addr \<Rightarrow> fin addr ws3 d4 | None \<Rightarrow> Some (Inl ENOMEM, ws3, d4))))"

definition ioc_free :: "u64 \<Rightarrow> others list \<Rightarrow> driver \<Rightarrow> errno option \<times> others list \<times> driver" where
  "ioc_free addr ws d =
     (let (ws0, d0) = reclaim_locked ws d in
      case map_of (dr_allocs d0) addr of
        None \<Rightarrow> (Some EINVAL, ws0, d0)
      | Some al \<Rightarrow>
          (let d1 = d0\<lparr>dr_allocs := om_erase addr (dr_allocs d0)\<rparr>;
               p = \<lparr>pd_kind = (if al_host al \<noteq> 0 then kManaged else kVram), pd_addr = addr, pd_size = al_size al, pd_host = al_host al,
                    pd_fence = snapshot_puts d1\<rparr>;
               (ws1, d2) = breathe ws0 d1
           in (None, ws1, if all_retired (pd_fence p) d2 then put_mm (recycle p) d2 else d2\<lparr>dr_pending := dr_pending d2 @ [p]\<rparr>)))"

definition pin_overlaps :: "u64 \<Rightarrow> u64 \<Rightarrow> (u64, u64) omap \<Rightarrow> bool" where
  "pin_overlaps addr sz m \<longleftrightarrow>
     (case om_lower_bound addr m of None \<Rightarrow> False | Some (a, _) \<Rightarrow> a < addr + sz) \<or>
     (case om_before addr m of None \<Rightarrow> False | Some (a, n) \<Rightarrow> a + n > addr)"

definition ioc_pin :: "pin_args \<Rightarrow> others list \<Rightarrow> driver \<Rightarrow> errno option \<times> others list \<times> driver" where
  "ioc_pin p ws d =
     (if pa_addr p = 0 \<or> pa_size p = 0 \<or> pa_addr p + pa_size p < pa_addr p then (Some EINVAL, ws, d)
      else let (ws0, d0) = reclaim_locked ws d; (ws1, d1) = breathe ws0 d0 in
        if pin_overlaps (pa_addr p) (pa_size p) (dr_pins d1) then (Some EEXIST, ws1, d1)
        else (None, ws1, d1\<lparr>dr_pins := om_emplace (pa_addr p) (pa_size p) (dr_pins d1)\<rparr>))"

definition ioc_unpin :: "u64 \<Rightarrow> others list \<Rightarrow> driver \<Rightarrow> errno option \<times> others list \<times> driver" where
  "ioc_unpin addr ws d =
     (case map_of (dr_pins d) addr of
        None \<Rightarrow> (Some EINVAL, ws, d)
      | Some sz \<Rightarrow>
          (let (ws1, d1) = breathe ws (d\<lparr>dr_pins := om_erase addr (dr_pins d)\<rparr>);
               p = \<lparr>pd_kind = kPin, pd_addr = addr, pd_size = sz, pd_host = 0, pd_fence = snapshot_puts d1\<rparr>;
               (ws2, d2) = breathe ws1 d1
           in (None, ws2, d2\<lparr>dr_pending := dr_pending d2 @ [p]\<rparr>)))"

definition ioc_stats :: "driver \<Rightarrow> stats_args" where
  "ioc_stats d =
     (let dev = dr_dev d; s = dr_mm d; k = dr_ct d;
          per = (\<lambda>f e. if e < num_engines dev then f (dv_stats dev e) else 0);
          tlb = (\<lambda>f e. if e < num_engines dev then f (mm_mmu s) e else 0)
      in \<lparr>ss_num_engines = num_engines dev, ss_busy_cycles = per busy_cycles, ss_wait_cycles = per wait_cycles,
          ss_idle_cycles = per idle_cycles, ss_cmds_executed = per cmds_executed, ss_batches = per batches, ss_irqs = per irqs,
          ss_sleep_cycles = per sleep_cycles, ss_wakeups = per wakeups, ss_missed_doorbells = per missed_doorbells,
          ss_cpu_ns = per cpu_ns, ss_faults = per st_faults, ss_preempts = per preempts, ss_tlb_hits = tlb mmu_hits,
          ss_tlb_misses = tlb mmu_misses, ss_submits = ct_submits k, ss_waits = ct_waits k, ss_waits_spun = ct_waits_spun k,
          ss_waits_blocked = ct_waits_blocked k, ss_wake_latency_ns = ct_wake_latency_ns k, ss_lock_wait_ns = ct_lock_wait_ns k,
          ss_stalls = rd_stalls (dr_ring d), ss_staging_waits = ct_staging_waits k, ss_bytes_h2d = ct_bytes_h2d k,
          ss_bytes_d2h = ct_bytes_d2h k, ss_bytes_direct = ct_bytes_direct k, ss_bytes_staged = ct_bytes_staged k,
          ss_migrations = mm_migrations s, ss_prefetches = mm_prefetches s, ss_evictions = mm_evictions s,
          ss_writebacks = mm_writebacks s, ss_bytes_migrated = mm_bytes_migrated s, ss_host_faults = mm_host_faults s,
          ss_host_fault_ns = ct_host_fault_ns k\<rparr>)"

definition ioc_set_priority :: "priority_args \<Rightarrow> driver \<Rightarrow> errno option \<times> driver" where
  "ioc_set_priority p d =
     (case set_channel_priority (pr_engine p) (pr_channel p) (pr_priority p) (dr_dev d) of (rc, dev) \<Rightarrow> (rc, d\<lparr>dr_dev := dev\<rparr>))"

text \<open>The device's own counters, then those of the driver: \<open>zero_counters\<close> has all of them that are in \<open>dr_ct\<close>.\<close>

definition ioc_reset_stats :: "driver \<Rightarrow> driver" where
  "ioc_reset_stats d =
     d\<lparr>dr_dev := reset_stats (dr_dev d),
       dr_mm := (put_mmu (mmu_reset_stats (mm_mmu (dr_mm d))) (dr_mm d))
         \<lparr>mm_migrations := 0, mm_prefetches := 0, mm_evictions := 0, mm_writebacks := 0, mm_bytes_migrated := 0, mm_host_faults := 0\<rparr>,
       dr_ring := (dr_ring d)\<lparr>rd_stalls := 0\<rparr>, dr_ct := zero_counters\<rparr>"

datatype request =
    SG_IOC_WAIT "wait_args option"
  | SG_IOC_QUERY "unit option"
  | SG_IOC_ALLOC "u64 option"
  | SG_IOC_ALLOC_MANAGED "u64 option"
  | SG_IOC_FREE "u64 option"
  | SG_IOC_PIN "pin_args option"
  | SG_IOC_UNPIN "pin_args option"
  | SG_IOC_SUBMIT "submit_args option"
  | SG_IOC_STATS "unit option"
  | SG_IOC_SET_PRIORITY "priority_args option"
  | SG_IOC_UFFD_HOLD "int option"
  | SG_IOC_RESET_STATS
  | SG_IOC_OTHER u32

text \<open>What a request writes back into its argument.\<close>

datatype reply = Nothing | Query query_args | Addr u64 | AddrHost u64 u64 | Submitted submit_args | Stats stats_args

type_synonym answer = "errno option \<times> reply"

definition plain :: "errno option ioc \<Rightarrow> answer ioc" where
  "plain r = map_option (\<lambda>(rc, x). ((rc, Nothing), x)) r"

definition valued :: "('a \<Rightarrow> reply) \<Rightarrow> (errno + 'a) ioc \<Rightarrow> answer ioc" where
  "valued f r = map_option (\<lambda>(v, x). (case v of Inl er \<Rightarrow> (Some er, Nothing) | Inr a \<Rightarrow> (None, f a), x)) r"

fun request_body :: "host_sys \<Rightarrow> request \<Rightarrow> others list \<Rightarrow> driver \<Rightarrow> answer ioc" where
  "request_body sys (SG_IOC_WAIT (Some w)) ws d = plain (ioc_wait w ws d)"
| "request_body sys (SG_IOC_QUERY (Some _)) ws d = Some ((None, Query (ioc_query d)), ws, d)"
| "request_body sys (SG_IOC_ALLOC (Some sz)) ws d = valued Addr (ioc_alloc sys sz ws d)"
| "request_body sys (SG_IOC_ALLOC_MANAGED (Some sz)) ws d = valued (\<lambda>(a, h). AddrHost a h) (ioc_alloc_managed sys sz ws d)"
| "request_body sys (SG_IOC_FREE (Some addr)) ws d = plain (Some (ioc_free addr ws d))"
| "request_body sys (SG_IOC_PIN (Some p)) ws d = plain (Some (ioc_pin p ws d))"
| "request_body sys (SG_IOC_UNPIN (Some p)) ws d = plain (Some (ioc_unpin (pa_addr p) ws d))"
| "request_body sys (SG_IOC_SUBMIT (Some a)) ws d = map_option (\<lambda>((rc, a'), x). ((rc, Submitted a'), x)) (do_submit a ws d)"
| "request_body sys (SG_IOC_STATS (Some _)) ws d = Some ((None, Stats (ioc_stats d)), ws, d)"
| "request_body sys (SG_IOC_SET_PRIORITY (Some p)) ws d = (case ioc_set_priority p d of (rc, d') \<Rightarrow> Some ((rc, Nothing), ws, d'))"
| "request_body sys (SG_IOC_UFFD_HOLD (Some n)) ws d = Some ((None, Nothing), ws, d\<lparr>dr_uffd_hold := n \<noteq> 0\<rparr>)"
| "request_body sys SG_IOC_RESET_STATS ws d = Some ((None, Nothing), ws, ioc_reset_stats d)"
| "request_body sys (SG_IOC_OTHER _) ws d = Some ((Some ENOTTY, Nothing), ws, d)"
| "request_body sys _ ws d = Some ((Some EINVAL, Nothing), ws, d)"

section \<open>Open and close\<close>

text \<open>The process-wide driver and its reference count.\<close>

record drv_global =
  g_drv :: "driver option"
  g_refs :: int

definition kFd :: int where "kFd = 3"

text \<open>The char device as the driver sees it when it attaches: the answers to \<^verbatim>\<open>open\<close>, to \<^verbatim>\<open>SG_IOC_KMOD_MAP\<close> (the length of the
  mapping) and to \<^verbatim>\<open>mmap\<close>; \<open>ks_errno\<close> is what \<^verbatim>\<open>errno\<close> holds after a successful call.\<close>

record kmod_sys =
  ks_open :: "errno option"
  ks_map :: "u32 \<Rightarrow> u32 \<Rightarrow> u32 \<Rightarrow> errno + u32"
  ks_mmap :: "u32 \<Rightarrow> errno option"
  ks_errno :: "errno option"

text \<open>The result is the error that fails the open, or the length of the mapping if there is one.\<close>

definition attach_kmod :: "environ \<Rightarrow> kmod_sys \<Rightarrow> u32 \<Rightarrow> u32 \<Rightarrow> u32 \<Rightarrow> errno + u32 option" where
  "attach_kmod ev ks engines channels depth =
     (let fail = (\<lambda>er. if ev ''SG_KMOD'' = Some ''require'' then Inl er else Inr None) in
      if ev ''SG_KMOD'' = Some ''0'' then Inr None
      else case ks_open ks of
        Some er \<Rightarrow> fail er
      | None \<Rightarrow>
          (case ks_map ks engines channels depth of
             Inl er \<Rightarrow> fail er
           | Inr bytes \<Rightarrow>
               if bytes = 0 then fail (case ks_errno ks of Some er \<Rightarrow> er | None \<Rightarrow> EIO)
               else (case ks_mmap ks bytes of Some er \<Rightarrow> fail er | None \<Rightarrow> Inr (Some bytes))))"

definition sg_drv_open :: "environ \<Rightarrow> bool \<Rightarrow> kmod_sys \<Rightarrow> u64 \<Rightarrow> (u64 \<Rightarrow> u8) \<Rightarrow> drv_global \<Rightarrow> (errno + int) \<times> drv_global" where
  "sg_drv_open ev uffd_ok ks staging host g =
     (case g_drv g of
        Some _ \<Rightarrow> (Inr kFd, g\<lparr>g_refs := g_refs g + 1\<rparr>)
      | None \<Rightarrow>
          (case attach_kmod ev ks (1 + copy_engines_from_env ev) (channels_from_env ev) (ring_depth_from_env ev) of
             Inl er \<Rightarrow> (Inl er, g)
           | Inr km \<Rightarrow> (Inr kFd, \<lparr>g_drv = Some (driver_new ev uffd_ok (km \<noteq> None) staging host), g_refs = g_refs g + 1\<rparr>)))"

definition sg_drv_close :: "int \<Rightarrow> others list \<Rightarrow> drv_global \<Rightarrow> (errno option \<times> others list \<times> drv_global) option" where
  "sg_drv_close fd ws g =
     (if fd \<noteq> kFd \<or> g_refs g = 0 then Some (Some EBADF, ws, g)
      else if g_refs g - 1 \<noteq> 0 then Some (None, ws, g\<lparr>g_refs := g_refs g - 1\<rparr>)
      else case g_drv g of
        None \<Rightarrow> None
      | Some d \<Rightarrow>
          (case drain ws d of
             None \<Rightarrow> None
           | Some (_, ws1, d1) \<Rightarrow>
               (let (ws2, d2) = reclaim_locked ws1 d1
                in Some (None, ws2, \<lparr>g_drv = None, g_refs = 0\<rparr>))))"

definition sg_drv_ioctl :: "host_sys \<Rightarrow> int \<Rightarrow> request \<Rightarrow> others list \<Rightarrow> drv_global \<Rightarrow> (answer \<times> others list \<times> drv_global) option" where
  "sg_drv_ioctl sys fd req ws g =
     (if fd \<noteq> kFd then Some ((Some EBADF, Nothing), ws, g)
      else case g_drv g of
        None \<Rightarrow> Some ((Some EBADF, Nothing), ws, g)
      | Some d \<Rightarrow> map_option (\<lambda>(a, ws', d'). (a, ws', g\<lparr>g_drv := Some d'\<rparr>)) (request_body sys req ws d))"

section \<open>Pins\<close>

definition pins_ok :: "(u64, u64) omap \<Rightarrow> bool" where
  "pins_ok m \<longleftrightarrow> apart m \<and> (\<forall>(a, n) \<in> set m. n \<noteq> 0 \<and> unat a + unat n < 2 ^ 64)"

definition meets :: "u64 \<Rightarrow> u64 \<Rightarrow> u64 \<times> u64 \<Rightarrow> bool" where
  "meets addr sz b \<longleftrightarrow> unat (fst b) < unat addr + unat sz \<and> unat addr < unat (fst b) + unat (snd b)"

text \<open>Looking at the two neighbours is enough.\<close>

lemma pin_overlaps_iff:
  assumes m: "pins_ok m" and sz: "sz \<noteq> 0" "unat addr + unat sz < 2 ^ 64"
  shows "pin_overlaps addr sz m \<longleftrightarrow> (\<exists>b \<in> set m. meets addr sz b)"
proof -
  let ?lo = "takeWhile (\<lambda>p. fst p < addr) m" and ?hi = "dropWhile (\<lambda>p. fst p < addr) m"
  have sw: "sorted_wrt (\<lambda>a b. unat (fst a) + unat (snd a) \<le> unat (fst b)) (?lo @ ?hi)" "om_ok (?lo @ ?hi)"
    using m by (simp_all add: pins_ok_def apart_def)
  have nw: "unat (a + n) = unat a + unat n" "n \<noteq> 0" if "(a, n) \<in> set m" for a n
    using m that unat_add_64 [of a n] by (auto simp: pins_ok_def)
  have s: "unat (addr + sz) = unat addr + unat sz" using sz(2) unat_add_64 [of addr sz] by simp
  have lo: "fst b < addr" "b \<in> set m" if "b \<in> set ?lo" for b using that by (auto dest: set_takeWhileD)
  have hi_m: "b \<in> set m" if "b \<in> set ?hi" for b using that by (rule set_dropWhileD)
  have H: "(case om_lower_bound addr m of None \<Rightarrow> False | Some (a, _) \<Rightarrow> a < addr + sz) \<longleftrightarrow> (\<exists>b \<in> set ?hi. meets addr sz b)"
  proof (cases ?hi)
    case (Cons q qs)
    have q: "\<not> fst q < addr" using Cons by (simp add: dropWhile_eq_Cons_conv)
    have later: "unat (fst q) \<le> unat (fst b)" "unat addr < unat (fst b) + unat (snd b)" if "b \<in> set (q # qs)" for b
    proof -
      show "unat (fst q) \<le> unat (fst b)" using sw(1) that unfolding Cons by (auto simp: sorted_wrt_append)
      moreover have "0 < unat (snd b)" using nw(2) [of "fst b" "snd b"] hi_m [of b] that Cons by (simp add: unat_gt_0)
      ultimately show "unat addr < unat (fst b) + unat (snd b)" using q by (simp add: word_less_unat)
    qed
    then have "(\<exists>b \<in> set (q # qs). meets addr sz b) \<longleftrightarrow> unat (fst q) < unat addr + unat sz"
      unfolding meets_def by (meson le_less_trans list.set_intros(1))
    then show ?thesis unfolding om_lower_bound_def Cons by (cases q) (simp add: om_head_def word_less_unat s)
  qed (simp add: om_lower_bound_def om_head_def del: dropWhile_eq_Nil_conv)
  have L: "(case om_before addr m of None \<Rightarrow> False | Some (a, n) \<Rightarrow> a + n > addr) \<longleftrightarrow> (\<exists>b \<in> set ?lo. meets addr sz b)"
  proof (cases "?lo = []")
    case False
    then obtain us p where us: "?lo = us @ [p]" by (metis rev_exhaust)
    have p: "fst p < addr" "p \<in> set m" using lo [of p] us by simp_all
    have up: "om_before addr m = Some p" unfolding om_before_def us by (cases us) simp_all
    have "\<not> unat addr < unat (fst b) + unat (snd b)" if "b \<in> set us" for b
      using sw(1) that p(1) unfolding us by (auto simp: sorted_wrt_append word_less_unat)
    then have "(\<exists>b \<in> set ?lo. meets addr sz b) \<longleftrightarrow> unat addr < unat (fst p) + unat (snd p)"
      using p(1) unfolding us by (auto simp: meets_def word_less_unat)
    then show ?thesis using nw(1) [of "fst p" "snd p"] p(2) by (cases p) (simp add: up word_less_unat)
  qed (simp add: om_before_def)
  have "set m = set ?lo \<union> set ?hi" by (metis set_append takeWhile_dropWhile_id)
  then show ?thesis unfolding pin_overlaps_def H L by blast
qed

lemma pins_ok_emplace:
  assumes m: "pins_ok m" and sz: "sz \<noteq> 0" "unat addr + unat sz < 2 ^ 64" and free: "\<not> pin_overlaps addr sz m"
  shows "pins_ok (om_emplace addr sz m) \<and> (addr, sz) \<in> set (om_emplace addr sz m)"
proof -
  have no: "\<not> meets addr sz b" if "b \<in> set m" for b using free that pin_overlaps_iff [OF m sz] by blast
  obtain xs ys where xy: "m = xs @ ys" "\<forall>p \<in> set xs. fst p < addr" "\<forall>p \<in> set ys. addr \<le> fst p"
    using m om_split [of m addr] by (auto simp: apart_def pins_ok_def)
  have pos: "0 < unat sz" using sz(1) by (simp add: unat_gt_0)
  have lo: "unat (fst b) + unat (snd b) \<le> unat addr" if "b \<in> set xs" for b
    using no [of b] that xy(1,2) by (auto simp: meets_def word_less_unat)
  have hi: "unat addr + unat sz \<le> unat (fst b)" if "b \<in> set ys" for b
  proof -
    have "0 < unat (snd b)" using m that xy(1) by (cases b) (auto simp: pins_ok_def unat_gt_0)
    then show ?thesis using no [of b] that xy(1,3) by (auto simp: meets_def word_le_unat)
  qed
  have "\<forall>p \<in> set ys. addr < fst p"
  proof
    fix b assume "b \<in> set ys"
    from hi [OF this] pos show "addr < fst b" by (simp add: word_less_unat)
  qed
  from om_emplace_split [OF xy(2) this] have e: "om_emplace addr sz m = xs @ (addr, sz) # ys" unfolding xy(1) .
  have "om_ok (om_emplace addr sz m)" using m by (simp add: pins_ok_def apart_def om_ok_emplace)
  moreover have "sorted_wrt (\<lambda>a b. unat (fst a) + unat (snd a) \<le> unat (fst b)) (xs @ ys)" using m xy(1) by (simp add: pins_ok_def apart_def)
  ultimately have "apart (xs @ (addr, sz) # ys)"
    using lo hi unfolding apart_def e by (simp add: sorted_wrt_append)
  then have "pins_ok (xs @ (addr, sz) # ys)" using m xy(1) sz unfolding pins_ok_def by simp
  then show ?thesis using e by simp
qed

lemma pins_ok_erase: "pins_ok m \<Longrightarrow> pins_ok (om_erase k m)"
  by (auto simp: pins_ok_def apart_def om_ok_erase) (auto simp: om_erase_def intro: sorted_wrt_filter)

text \<open>A predicate on the driver that the other threads keep, that recycling and shortening the deferred list do not touch.\<close>

definition kept :: "(driver \<Rightarrow> bool) \<Rightarrow> others list \<Rightarrow> bool" where
  "kept P ws \<longleftrightarrow> (\<forall>w \<in> set ws. \<forall>d. P d \<longrightarrow> P (w d))"

lemma breathe_kept: "breathe ws d = (ws', d') \<Longrightarrow> kept P ws \<Longrightarrow> P d \<Longrightarrow> P d' \<and> kept P ws'"
  by (cases ws) (auto simp: kept_def)

lemma reclaim_loop_kept:
  "reclaim_loop ps ws d = (keep, ws', d') \<Longrightarrow> kept P ws \<Longrightarrow> P d \<Longrightarrow> (\<forall>d f. P (put_mm f d) = P d) \<Longrightarrow> P d' \<and> kept P ws'"
proof (induction ps arbitrary: keep ws d)
  case (Cons p ps)
  obtain ws1 d1 where b: "breathe ws d = (ws1, d1)" by fastforce
  note B = breathe_kept [OF b Cons.prems(2,3)]
  show ?case
  proof (cases "all_retired (pd_fence p) d1")
    case True
    then show ?thesis using Cons.prems Cons.IH [where ws = ws1 and d = "put_mm (recycle p) d1"] B b by simp
  next
    case False
    then obtain k where "reclaim_loop ps ws1 d1 = (k, ws', d')" using Cons.prems(1) b by (auto split: prod.splits)
    then show ?thesis using Cons.IH B Cons.prems(4) by blast
  qed
qed auto

lemma reclaim_locked_kept:
  assumes "reclaim_locked ws d = (ws', d')" "kept P ws" "P d" "\<forall>d f. P (put_mm f d) = P d" "\<forall>d ps. P (d\<lparr>dr_pending := ps\<rparr>) = P d"
  shows "P d' \<and> kept P ws'"
  using assms reclaim_loop_kept [OF _ assms(2,3,4)] by (auto simp: reclaim_locked_def split: prod.splits)

text \<open>C25: Pinning. As long as the other threads keep the pins apart, so does \<^verbatim>\<open>SG_IOC_PIN\<close>. It reports \<^verbatim>\<open>EINVAL\<close> exactly for a null,
  empty or wrapping range, and \<^verbatim>\<open>EEXIST\<close> only if a pin overlaps the range; otherwise the range is pinned when it returns, and
  every copy from or to a part of it goes direct.\<close>

theorem pin_correct:
  assumes "ioc_pin p ws d = (rc, ws', d')" "pins_ok (dr_pins d)" "kept (\<lambda>d. pins_ok (dr_pins d)) ws"
  shows "pins_ok (dr_pins d') \<and>
    (rc = Some EINVAL \<longleftrightarrow> pa_addr p = 0 \<or> pa_size p = 0 \<or> unat (pa_addr p) + unat (pa_size p) \<ge> 2 ^ 64) \<and>
    (rc = Some EEXIST \<longrightarrow> (\<exists>b \<in> set (dr_pins d'). meets (pa_addr p) (pa_size p) b)) \<and>
    (rc = None \<longrightarrow> (\<forall>addr len. covers (pa_addr p, pa_size p) addr len \<longrightarrow> pinned d' addr len)) \<and>
    rc \<in> {None, Some EINVAL, Some EEXIST}"
proof -
  let ?a = "pa_addr p" and ?n = "pa_size p"
  have wrap: "?a + ?n < ?a \<longleftrightarrow> unat ?a + unat ?n \<ge> 2 ^ 64"
  proof (cases "unat ?a + unat ?n < 2 ^ 64")
    case True
    then show ?thesis using unat_add_64 [of ?a ?n] by (simp add: word_less_unat)
  next
    case False
    then have "unat (?a + ?n) = unat ?a + unat ?n - 2 ^ 64"
      using unat_less_64 [of ?a] unat_less_64 [of ?n] by (simp add: unat_word_ariths mod_if)
    then show ?thesis using False unat_less_64 [of ?n] by (simp add: word_less_unat)
  qed
  show ?thesis
  proof (cases "?a = 0 \<or> ?n = 0 \<or> ?a + ?n < ?a")
    case True
    then have r: "rc = Some EINVAL" "d' = d" using assms(1) by (auto simp: ioc_pin_def)
    then show ?thesis using True assms(2) wrap by auto
  next
    case False
    obtain ws0 d0 ws1 d1 where s: "reclaim_locked ws d = (ws0, d0)" "breathe ws0 d0 = (ws1, d1)" by fastforce
    have ok: "pins_ok (dr_pins d1)"
      using reclaim_locked_kept [OF s(1) assms(3,2)] breathe_kept [OF s(2), of "\<lambda>d. pins_ok (dr_pins d)"] by (simp add: put_mm_def)
    have nz: "?n \<noteq> 0" "unat ?a + unat ?n < 2 ^ 64" using False wrap by auto
    show ?thesis
    proof (cases "pin_overlaps ?a ?n (dr_pins d1)")
      case True
      then have r: "rc = Some EEXIST" "d' = d1" using assms(1) False s by (auto simp: ioc_pin_def)
      then show ?thesis using True ok nz pin_overlaps_iff [OF ok nz] False by auto
    next
      case ov: False
      then have r: "rc = None" "dr_pins d' = om_emplace ?a ?n (dr_pins d1)" using assms(1) False s by (auto simp: ioc_pin_def)
      note E = pins_ok_emplace [OF ok nz ov]
      then have "pinned d' addr len" if "covers (?a, ?n) addr len" for addr len
        using that r(2) inside_iff [of "dr_pins d'" addr len] by (auto simp: pinned_inside pins_ok_def)
      then show ?thesis using r E nz False by auto
    qed
  qed
qed

section \<open>Deferred release\<close>

text \<open>While a caller holds \<^verbatim>\<open>alloc_lock\<close>, the other threads leave the allocations and the deferred list alone; they retire and
  publish commands, and never take either back.\<close>

definition forward :: "driver \<Rightarrow> driver \<Rightarrow> bool" where
  "forward d d' \<longleftrightarrow> num_engines (dr_dev d') = num_engines (dr_dev d) \<and> num_channels (dr_dev d') = num_channels (dr_dev d) \<and>
     (\<forall>e c. retired d e c \<le> retired d' e c \<and> published d e c \<le> published d' e c)"

definition under_lock :: "others list \<Rightarrow> bool" where
  "under_lock ws \<longleftrightarrow> (\<forall>w \<in> set ws. \<forall>d. forward d (w d) \<and> dr_pending (w d) = dr_pending d \<and> dr_allocs (w d) = dr_allocs d)"

lemma forward_refl: "forward d d"
  by (simp add: forward_def)

lemma forward_trans: "forward a b \<Longrightarrow> forward b c \<Longrightarrow> forward a c"
  unfolding forward_def by (metis order_trans)

lemma forward_upd [simp]: "forward a (put_mm f b) = forward a b" "forward a (b\<lparr>dr_pending := ps\<rparr>) = forward a b" "forward a (b\<lparr>dr_allocs := al\<rparr>) = forward a b"
  "forward (put_mm f a) b = forward a b" "forward (a\<lparr>dr_allocs := al\<rparr>) b = forward a b" "forward (a\<lparr>dr_pending := ps\<rparr>) b = forward a b"
  by (simp_all add: forward_def put_mm_def retired_def published_def)

lemma all_retired_forward:
  assumes "all_retired snap d" "forward d d'"
  shows "all_retired snap d'"
proof -
  have l: "engine_list (dr_dev d') = engine_list (dr_dev d)" "channel_list (dr_dev d') = channel_list (dr_dev d)"
    using assms(2) by (simp_all add: forward_def engine_list_def channel_list_def)
  have "snap e c \<le> retired d' e c" if "snap e c \<le> retired d e c" for e c
    using that assms(2) by (meson forward_def order_trans)
  then show ?thesis using assms(1) by (simp add: all_retired_def list_all_iff not_less l)
qed

lemma all_retired_put [simp]: "all_retired snap (put_mm f d) = all_retired snap d" "all_retired snap (d\<lparr>dr_pending := ps\<rparr>) = all_retired snap d"
  by (simp_all add: all_retired_def put_mm_def retired_def)

lemma breathe_forward:
  "breathe ws d = (ws', d') \<Longrightarrow> under_lock ws \<Longrightarrow> forward d d' \<and> dr_pending d' = dr_pending d \<and> dr_allocs d' = dr_allocs d \<and> under_lock ws'"
  by (cases ws) (auto simp: under_lock_def forward_refl)

text \<open>A pass keeps the order; it recycles what the device was done with when it started, and nothing that the device is not
  done with when it ends.\<close>

lemma reclaim_loop_exact:
  "reclaim_loop ps ws d = (keep, ws', d') \<Longrightarrow> under_lock ws \<Longrightarrow>
    forward d d' \<and> under_lock ws' \<and> dr_allocs d' = dr_allocs d \<and> subseq keep ps \<and>
    (\<forall>p \<in> set keep. \<not> all_retired (pd_fence p) d) \<and> (\<forall>p \<in> set ps. p \<in> set keep \<or> all_retired (pd_fence p) d')"
proof (induction ps arbitrary: keep ws d)
  case (Cons p ps)
  obtain ws1 d1 where b: "breathe ws d = (ws1, d1)" by fastforce
  note B = breathe_forward [OF b Cons.prems(2)]
  have fwd: "all_retired f d \<Longrightarrow> all_retired f d1" for f using all_retired_forward B by blast
  show ?case
  proof (cases "all_retired (pd_fence p) d1")
    case True
    then have r: "reclaim_loop ps ws1 (put_mm (recycle p) d1) = (keep, ws', d')" using Cons.prems b by simp
    note I = Cons.IH [OF r, simplified]
    then have f: "forward d1 d'" using B by blast
    then have "all_retired (pd_fence p) d'" using True all_retired_forward by blast
    then show ?thesis using I B f forward_trans [of d d1 d'] fwd by (auto simp: put_mm_def intro: subseq_Cons')
  next
    case False
    then obtain k where k: "reclaim_loop ps ws1 d1 = (k, ws', d')" "keep = p # k" using Cons.prems b by (auto split: prod.splits)
    note I = Cons.IH [OF k(1)]
    show ?thesis using I B False fwd forward_trans [of d d1 d'] k(2) by auto
  qed
qed (auto simp: forward_refl)

text \<open>C24: Memory outlives its commands. A reclaim keeps the deferred list in order, drops every entry whose commands had all
  retired when it was called, and drops no entry before they have retired, whatever the other threads do meanwhile.\<close>

theorem reclaim_exact:
  assumes "reclaim_locked ws d = (ws', d')" "under_lock ws"
  shows "subseq (dr_pending d') (dr_pending d) \<and> dr_allocs d' = dr_allocs d \<and>
    (\<forall>p \<in> set (dr_pending d'). \<not> all_retired (pd_fence p) d) \<and>
    (\<forall>p \<in> set (dr_pending d). p \<in> set (dr_pending d') \<or> all_retired (pd_fence p) d')"
proof -
  obtain keep d1 where r: "reclaim_loop (dr_pending d) ws d = (keep, ws', d1)" "d' = d1\<lparr>dr_pending := keep\<rparr>"
    using assms(1) by (auto simp: reclaim_locked_def split: prod.splits)
  from reclaim_loop_exact [OF r(1) assms(2)] show ?thesis unfolding r(2) by simp
qed

lemma reclaim_forward:
  assumes "reclaim_locked ws d = (ws', d')" "under_lock ws"
  shows "forward d d' \<and> under_lock ws' \<and> dr_allocs d' = dr_allocs d"
  using assms reclaim_loop_exact [OF _ assms(2)] by (auto simp: reclaim_locked_def split: prod.splits)


section \<open>Counters\<close>

definition zero_stats :: "u32 \<Rightarrow> (u32 \<Rightarrow> u64) \<Rightarrow> stats_args" where
  "zero_stats engines cpu =
     \<lparr>ss_num_engines = engines, ss_busy_cycles = (\<lambda>_. 0), ss_wait_cycles = (\<lambda>_. 0), ss_idle_cycles = (\<lambda>_. 0), ss_cmds_executed = (\<lambda>_. 0),
      ss_batches = (\<lambda>_. 0), ss_irqs = (\<lambda>_. 0), ss_sleep_cycles = (\<lambda>_. 0), ss_wakeups = (\<lambda>_. 0), ss_missed_doorbells = (\<lambda>_. 0),
      ss_cpu_ns = cpu, ss_faults = (\<lambda>_. 0), ss_preempts = (\<lambda>_. 0), ss_tlb_hits = (\<lambda>_. 0), ss_tlb_misses = (\<lambda>_. 0), ss_submits = 0,
      ss_waits = 0, ss_waits_spun = 0, ss_waits_blocked = 0, ss_wake_latency_ns = 0, ss_lock_wait_ns = 0, ss_stalls = 0,
      ss_staging_waits = 0, ss_bytes_h2d = 0, ss_bytes_d2h = 0, ss_bytes_direct = 0, ss_bytes_staged = 0, ss_migrations = 0,
      ss_prefetches = 0, ss_evictions = 0, ss_writebacks = 0, ss_bytes_migrated = 0, ss_host_faults = 0, ss_host_fault_ns = 0\<rparr>"

lemma fold_upd_stats:
  "num_engines (fold (\<lambda>e. upd_stats e f) es d) = num_engines d"
  "(\<forall>st. P (f st) = k) \<Longrightarrow> e \<in> set es \<Longrightarrow> P (dv_stats (fold (\<lambda>e. upd_stats e f) es d) e) = k"
  "(\<forall>st. P (f st) = P st) \<Longrightarrow> P (dv_stats (fold (\<lambda>e. upd_stats e f) es d) e) = P (dv_stats d e)"
proof (induction es arbitrary: d rule: rev_induct)
  case (snoc x xs)
  { case 1 show ?case using snoc(1) by (simp add: upd_stats_def) }
  { case 2 then show ?case using snoc(2) [of d] by (auto simp: upd_stats_def) }
  { case 3 then show ?case using snoc(3) [of d] by (auto simp: upd_stats_def) }
qed simp_all

lemma reset_stats_stats:
  assumes "e < num_engines d"
  shows "busy_cycles (dv_stats (reset_stats d) e) = 0" "wait_cycles (dv_stats (reset_stats d) e) = 0" "idle_cycles (dv_stats (reset_stats d) e) = 0"
    "cmds_executed (dv_stats (reset_stats d) e) = 0" "batches (dv_stats (reset_stats d) e) = 0" "irqs (dv_stats (reset_stats d) e) = 0"
    "sleep_cycles (dv_stats (reset_stats d) e) = 0" "wakeups (dv_stats (reset_stats d) e) = 0" "missed_doorbells (dv_stats (reset_stats d) e) = 0"
    "st_faults (dv_stats (reset_stats d) e) = 0" "preempts (dv_stats (reset_stats d) e) = 0"
  using in_engine_list [OF assms] by (simp_all add: reset_stats_def Let_def fold_upd_stats(2) [where k = 0] fresh_stats_def)

lemma reset_stats_rest: "num_engines (reset_stats d) = num_engines d" "cpu_ns (dv_stats (reset_stats d) e) = cpu_ns (dv_stats d e)"
  by (simp_all add: reset_stats_def Let_def fold_upd_stats(1) fold_upd_stats(3) [where P = cpu_ns])

text \<open>Resetting the counters is complete. Statistics read right after \<^verbatim>\<open>SG_IOC_RESET_STATS\<close> are zero in every counter of
  every engine and of the driver, except the engines' CPU time, which is absolute.\<close>

theorem reset_complete:
  assumes "num_engines (dr_dev d) \<le> SG_MAX_ENGINES"
  shows "ioc_stats (ioc_reset_stats d) = zero_stats (num_engines (dr_dev d)) (ss_cpu_ns (ioc_stats d))"
proof -
  have "e < SG_MAX_ENGINES" if "e < num_engines (dr_dev d)" for e using that assms by (rule less_le_trans)
  then show ?thesis
    by (simp add: ioc_stats_def ioc_reset_stats_def zero_stats_def Let_def reset_stats_rest reset_stats_stats fun_eq_iff zero_counters_def
      mmu_reset_stats_def put_mmu_def)
qed

section \<open>Lifetime\<close>

definition refs_ok :: "drv_global \<Rightarrow> bool" where
  "refs_ok g \<longleftrightarrow> 0 \<le> g_refs g \<and> (g_drv g \<noteq> None \<longleftrightarrow> 0 < g_refs g)"

text \<open>The calls of a process on the driver, in any order.\<close>

datatype drv_call =
    Open environ bool kmod_sys u64 "u64 \<Rightarrow> u8"
  | Close int "others list"
  | Ioctl host_sys int request "others list"

fun drv_step :: "drv_call \<Rightarrow> drv_global \<Rightarrow> drv_global option" where
  "drv_step (Open ev u ks st h) g = Some (snd (sg_drv_open ev u ks st h g))"
| "drv_step (Close fd ws) g = map_option (snd \<circ> snd) (sg_drv_close fd ws g)"
| "drv_step (Ioctl sys fd req ws) g = map_option (snd \<circ> snd) (sg_drv_ioctl sys fd req ws g)"

inductive drv_reachable :: "drv_global \<Rightarrow> bool" where
  start: "drv_reachable \<lparr>g_drv = None, g_refs = 0\<rparr>"
| step: "drv_reachable g \<Longrightarrow> drv_step call g = Some g' \<Longrightarrow> drv_reachable g'"

lemma drv_reachable_refs: "drv_reachable g \<Longrightarrow> refs_ok g"
proof (induction rule: drv_reachable.induct)
  case (step g call g')
  from step(2,3) show ?case
    by (cases call) (auto simp: refs_ok_def sg_drv_open_def sg_drv_close_def sg_drv_ioctl_def split: option.splits sum.splits prod.splits if_splits)
qed (simp add: refs_ok_def)

text \<open>The driver lives exactly as long as it is open. In every state a process can reach, the reference count is never
  negative, a driver exists exactly while it is positive, a request reports \<^verbatim>\<open>EBADF\<close> when there is none, and a close of
  an open descriptor never finds the driver gone.\<close>

theorem driver_lifetime:
  assumes "drv_reachable g"
  shows "0 \<le> g_refs g \<and> (g_drv g \<noteq> None \<longleftrightarrow> 0 < g_refs g) \<and>
    (g_refs g = 0 \<longrightarrow> sg_drv_ioctl sys fd req ws g = Some ((Some EBADF, Nothing), ws, g)) \<and>
    (1 < g_refs g \<longrightarrow> sg_drv_close kFd ws g = Some (None, ws, g\<lparr>g_refs := g_refs g - 1\<rparr>)) \<and>
    (\<forall>rc ws' g'. g_refs g = 1 \<longrightarrow> sg_drv_close kFd ws g = Some (rc, ws', g') \<longrightarrow> rc = None \<and> g' = \<lparr>g_drv = None, g_refs = 0\<rparr>)"
  using drv_reachable_refs [OF assms]
  by (auto simp: refs_ok_def sg_drv_ioctl_def sg_drv_close_def split: option.splits prod.splits if_splits)

section \<open>Examples\<close>

theorem pin_correct_witness:
  "fst (ioc_pin \<lparr>pa_addr = 0x5000, pa_size = 0x1000\<rparr> [] demo_drv) = None \<and>
   pinned (snd (snd (ioc_pin \<lparr>pa_addr = 0x5000, pa_size = 0x1000\<rparr> [] demo_drv))) 0x5800 0x800"
proof -
  let ?p = "\<lparr>pa_addr = 0x5000, pa_size = 0x1000\<rparr>"
  obtain rc ws' d' where r: "ioc_pin ?p [] demo_drv = (rc, ws', d')" by (rule prod_cases3)
  have "dr_pins demo_drv = []" "dr_pending demo_drv = []" by (simp_all add: demo_drv_def driver_new_def Let_def)
  then have "pins_ok (dr_pins demo_drv)" "rc = None"
    using r by (auto simp: pins_ok_def apart_def ioc_pin_def reclaim_locked_def pin_overlaps_def om_lower_bound_def om_head_def om_before_def)
  then show ?thesis using pin_correct [OF r] r by (simp add: kept_def covers_def)
qed

text \<open>A block is freed while a command is in flight on channel 0 of the compute engine; later that command retires.\<close>

definition demo_retires :: others where
  "demo_retires d = d\<lparr>dr_dev := upd_ch 0 0 (\<lambda>k. k\<lparr>ch_get := max 1 (ch_get k)\<rparr>) (dr_dev d)\<rparr>"

definition demo_freeing :: driver where
  "demo_freeing = demo_busy\<lparr>dr_allocs := [(0x1000, \<lparr>al_size = 0x3000, al_host = 0\<rparr>)]\<rparr>"

lemma demo_retires_lock: "under_lock [demo_retires]"
  by (auto simp: under_lock_def forward_def demo_retires_def upd_ch_def retired_def published_def max_def)


definition demo_pending :: driver where
  "demo_pending = snd (snd (ioc_free 0x1000 [] demo_freeing))"

theorem reclaim_exact_witness:
  "map pd_addr (dr_pending demo_pending) = [0x1000] \<and> dr_pending (snd (reclaim_locked [] demo_pending)) = dr_pending demo_pending \<and>
   dr_pending (snd (reclaim_locked [] (demo_retires demo_pending))) = []"
proof -
  have e: "map pd_addr (dr_pending demo_pending) = [0x1000]" "list_all (\<lambda>p. \<not> all_retired (pd_fence p) demo_pending) (dr_pending demo_pending)"
    "list_all (\<lambda>p. all_retired (pd_fence p) (demo_retires demo_pending)) (dr_pending demo_pending)" by code_simp+
  have l: "under_lock []" by (simp add: under_lock_def)
  obtain ws1 d1 ws2 d2 where r: "reclaim_locked [] demo_pending = (ws1, d1)" "reclaim_locked [] (demo_retires demo_pending) = (ws2, d2)" by fastforce
  have p: "dr_pending (demo_retires demo_pending) = dr_pending demo_pending" by (simp add: demo_retires_def)
  note A = reclaim_exact [OF r(1) l] and B = reclaim_exact [OF r(2) l, unfolded p]
  have "dr_dev d1 = dr_dev demo_pending" using reclaim_locked_kept [OF r(1), of "\<lambda>d. dr_dev d = dr_dev demo_pending"] by (simp add: kept_def put_mm_def)
  then have "all_retired f d1 = all_retired f demo_pending" for f by (simp add: all_retired_def retired_def)
  then have sub: "set (dr_pending demo_pending) \<subseteq> set (dr_pending d1)" using A e(2) by (auto simp: list_all_iff)
  obtain p where p1: "dr_pending demo_pending = [p]" using e(1) by auto
  have "length (dr_pending d1) \<le> 1" using A list_emb_length [of "(=)" "dr_pending d1" "dr_pending demo_pending"] by (simp add: p1)
  then have "dr_pending d1 = dr_pending demo_pending" using sub by (cases "dr_pending d1") (auto simp: p1)
  moreover have "dr_pending d2 = []"
  proof (rule ccontr)
    assume "dr_pending d2 \<noteq> []"
    then obtain q qs where q: "dr_pending d2 = q # qs" by (cases "dr_pending d2") auto
    then have "q \<in> set (dr_pending demo_pending)" using B list_emb_set [of "(=)" "dr_pending d2" "dr_pending demo_pending" q] by auto
    then show False using B q e(3) by (auto simp: list_all_iff)
  qed
  ultimately show ?thesis using e(1) r by simp
qed

theorem reset_complete_witness: "ss_submits (ioc_stats (ioc_reset_stats demo_drv)) = 0 \<and> ss_num_engines (ioc_stats (ioc_reset_stats demo_drv)) = 2"
proof -
  have n: "num_engines (dr_dev demo_drv) = 2" by code_simp
  then have "num_engines (dr_dev demo_drv) \<le> SG_MAX_ENGINES" by (simp add: SG_MAX_ENGINES_def)
  from reset_complete [OF this] show ?thesis by (simp add: zero_stats_def n)
qed

definition demo_ks :: kmod_sys where
  "demo_ks = \<lparr>ks_open = Some ENODEV, ks_map = (\<lambda>_ _ _. Inl ENODEV), ks_mmap = (\<lambda>_. Some ENODEV), ks_errno = None\<rparr>"

definition demo_open :: drv_global where
  "demo_open = snd (sg_drv_open (\<lambda>_. None) True demo_ks 0x100000 (\<lambda>_. 0) \<lparr>g_drv = None, g_refs = 0\<rparr>)"

theorem driver_lifetime_witness:
  "g_refs demo_open = 1 \<and> g_drv demo_open \<noteq> None \<and>
   (\<exists>ws'. sg_drv_close kFd [] demo_open = Some (None, ws', \<lparr>g_drv = None, g_refs = 0\<rparr>))"
proof -
  have "drv_step (Open (\<lambda>_. None) True demo_ks 0x100000 (\<lambda>_. 0)) \<lparr>g_drv = None, g_refs = 0\<rparr> = Some demo_open" by (simp add: demo_open_def)
  then have re: "drv_reachable demo_open" using drv_reachable.intros by blast
  have one: "g_refs demo_open = 1" by (simp add: demo_open_def sg_drv_open_def attach_kmod_def demo_ks_def)
  have "sg_drv_close kFd [] demo_open \<noteq> None" by code_simp
  then obtain rc ws' g' where c: "sg_drv_close kFd [] demo_open = Some (rc, ws', g')" by (metis not_None_eq prod.exhaust)
  from driver_lifetime [OF re, where ws = "[]"] one c show ?thesis by auto
qed

end
