(* ===== verification/Kmod.thy ===== *)
theory Kmod
  imports Drv_Ioctl
begin

text \<open>
  The kernel module (\<^verbatim>\<open>src/kmod/softgpu.c\<close>): one open file of \<^verbatim>\<open>/dev/softgpu\<close>, with the mapping of the control page and the
  rings, the interrupt line as a work item, and the sleep of the host waiters. The copies from and to user space, the
  memory allocator and the scheduler are the system's: whether they succeed, and when the work item runs, is an argument.
\<close>

section \<open>State and calls\<close>

text \<open>\<open>sf_mem\<close> is whether the mapping is there (\<^verbatim>\<open>mem\<close> and \<^verbatim>\<open>ctrl\<close> are set together); \<open>sf_work\<close> whether the work item is queued;
  \<open>sf_wakes\<close> counts \<^verbatim>\<open>wake_up_all\<close>.\<close>

record sg_file =
  sf_mem :: bool
  sf_irq_seq :: u32
  sf_bytes :: u64
  sf_work :: bool
  sf_wakes :: nat

record kmod_map =
  km_num_engines :: u32
  km_num_channels :: u32
  km_depth :: u32
  km_bytes :: u32

definition sg_open :: sg_file where
  "sg_open = \<lparr>sf_mem = False, sf_irq_seq = 0, sf_bytes = 0, sf_work = False, sf_wakes = 0\<rparr>"

definition sg_irq_work :: "sg_file \<Rightarrow> sg_file" where
  "sg_irq_work s = (let s1 = s\<lparr>sf_work := False\<rparr> in
     if \<not> sf_mem s1 then s1 else s1\<lparr>sf_irq_seq := sf_irq_seq s1 + 1, sf_wakes := sf_wakes s1 + 1\<rparr>)"

definition sg_mmap :: "u64 \<Rightarrow> u64 \<Rightarrow> errno option \<Rightarrow> sg_file \<Rightarrow> errno option" where
  "sg_mmap vm_start vm_end remap s =
     (if \<not> sf_mem s then Some ENODEV else if vm_end - vm_start > sf_bytes s then Some EINVAL else remap)"

definition map_args_ok :: "kmod_map \<Rightarrow> bool" where
  "map_args_ok m \<longleftrightarrow> \<not> (km_num_engines m = 0 \<or> km_num_engines m > SG_MAX_ENGINES \<or> km_num_channels m = 0 \<or> km_num_channels m > SG_MAX_CHANNELS) \<and>
     \<not> (km_depth m < 2 \<or> km_depth m > 65536 \<or> km_depth m AND (km_depth m - 1) \<noteq> 0)"

definition sg_do_map :: "kmod_map option \<Rightarrow> bool \<Rightarrow> bool \<Rightarrow> sg_file \<Rightarrow> (errno + kmod_map) \<times> sg_file" where
  "sg_do_map arg mem_ok out_ok s =
     (case arg of
        None \<Rightarrow> (Inl EFAULT, s)
      | Some m \<Rightarrow>
          if sf_mem s then (Inl EBUSY, s)
          else if \<not> map_args_ok m then (Inl EINVAL, s)
          else let bytes = sg_kmod_map_bytes (km_num_engines m) (km_num_channels m) (km_depth m) in
            if \<not> mem_ok then (Inl ENOMEM, s)
            else if \<not> out_ok then (Inl EFAULT, s\<lparr>sf_mem := False, sf_bytes := 0\<rparr>)
            else (Inr (m\<lparr>km_bytes := ucast bytes\<rparr>), s\<lparr>sf_mem := True, sf_irq_seq := 0, sf_bytes := bytes\<rparr>))"

text \<open>The sleep: the condition may hold at once, or when the waiter is woken, or the timeout ends it; a signal interrupts it.
  The list has what has happened to the file each time the waiter looks; an exhausted list is the timeout.\<close>

fun wait_seq :: "u32 \<Rightarrow> (sg_file \<Rightarrow> sg_file) list \<Rightarrow> sg_file \<Rightarrow> bool \<times> sg_file" where
  "wait_seq seen [] s = (sf_irq_seq s \<noteq> seen, s)"
| "wait_seq seen (f # fs) s = (if sf_irq_seq s \<noteq> seen then (True, s) else wait_seq seen fs (f s))"

definition sg_do_sleep :: "u32 option \<Rightarrow> bool \<Rightarrow> (sg_file \<Rightarrow> sg_file) list \<Rightarrow> sg_file \<Rightarrow> errno option \<times> sg_file" where
  "sg_do_sleep arg signal fs s =
     (case arg of
        None \<Rightarrow> (Some EFAULT, s)
      | Some seen \<Rightarrow>
          if \<not> sf_mem s then (Some ENODEV, s)
          else (case wait_seq seen fs s of (woken, s') \<Rightarrow> (if \<not> woken \<and> signal then Some EINTR else None, s')))"

datatype kmod_req =
    SG_IOC_KMOD_MAP "kmod_map option" bool bool
  | SG_IOC_KMOD_IRQ
  | SG_IOC_KMOD_SLEEP "u32 option" bool "(sg_file \<Rightarrow> sg_file) list"
  | Classic request

fun sg_ioctl :: "kmod_req \<Rightarrow> sg_file \<Rightarrow> (errno option \<times> kmod_map option) \<times> sg_file" where
  "sg_ioctl (SG_IOC_KMOD_MAP arg mem_ok out_ok) s =
     (case sg_do_map arg mem_ok out_ok s of (Inl er, s') \<Rightarrow> ((Some er, None), s') | (Inr m, s') \<Rightarrow> ((None, Some m), s'))"
| "sg_ioctl SG_IOC_KMOD_IRQ s = (if \<not> sf_mem s then ((Some ENODEV, None), s) else ((None, None), s\<lparr>sf_work := True\<rparr>))"
| "sg_ioctl (SG_IOC_KMOD_SLEEP arg signal fs) s = (case sg_do_sleep arg signal fs s of (rc, s') \<Rightarrow> ((rc, None), s'))"
| "sg_ioctl (Classic _) s = ((Some ENOTTY, None), s)"

section \<open>The mapping\<close>

lemma unat_round_page:
  "unat ((x :: u64) AND NOT 4095) = unat x div 4096 * 4096"
proof -
  have m: "(4095 :: u64) = mask 12" by (simp add: mask_eq_exp_minus_1)
  have "x AND NOT (mask 12) = push_bit 12 (drop_bit 12 x)" by (simp add: bit_eq_iff bit_simps) auto
  then have "unat (x AND NOT (mask 12)) = take_bit 64 (push_bit 12 (unat x div 2 ^ 12))"
    by (simp add: unsigned_push_bit_eq unsigned_drop_bit_eq drop_bit_eq_div unat_div)
  also have "\<dots> = unat x div 4096 * 4096"
    using le_less_trans [OF div_times_less_eq_dividend unat_less_64 [of x], of 4096] by (simp add: push_bit_eq_mult take_bit_nat_eq_self)
  finally show ?thesis by (simp add: m)
qed

lemma ring_bytes_nat:
  assumes "depth \<le> 65536"
  shows "unat depth * 64 \<le> unat (sg_kmod_ring_bytes depth)" "4096 dvd unat (sg_kmod_ring_bytes depth)" "unat (sg_kmod_ring_bytes depth) \<le> 65536 * 64 + 4095"
proof -
  have u: "unat (ucast depth :: u64) = unat depth" using unat_less_32 [of depth] by (simp add: unsigned_ucast_eq take_bit_nat_eq_self)
  have d: "unat depth \<le> 65536" using assms by (simp add: word_le_unat)
  have "unat (ucast depth * 64 + 4095 :: u64) = unat depth * 64 + 4095" using d u by (simp add: unat_word_ariths)
  then have r: "unat (sg_kmod_ring_bytes depth) = (unat depth * 64 + 4095) div 4096 * 4096"
    by (simp only: sg_kmod_ring_bytes_def Let_def unat_round_page)
  show "unat depth * 64 \<le> unat (sg_kmod_ring_bytes depth)" unfolding r by linarith
  show "4096 dvd unat (sg_kmod_ring_bytes depth)" unfolding r by simp
  show "unat (sg_kmod_ring_bytes depth) \<le> 65536 * 64 + 4095" unfolding r using d by linarith
qed

lemma ucast_nat: "unat (ucast (x :: u32) :: u64) = unat x"
  using unat_less_32 [of x] by (simp add: unsigned_ucast_eq take_bit_nat_eq_self)

lemma map_args_nat:
  assumes "map_args_ok m"
  shows "0 < unat (km_num_engines m)" "unat (km_num_engines m) \<le> 4" "0 < unat (km_num_channels m)" "unat (km_num_channels m) \<le> 8"
    "2 \<le> unat (km_depth m)" "km_depth m \<le> 65536"
  using assms by (simp_all add: map_args_ok_def SG_MAX_ENGINES_def SG_MAX_CHANNELS_def word_less_unat word_le_unat not_less unat_gt_0)

text \<open>Byte counts and offsets of a mapping that was accepted do not wrap.\<close>

lemma mapping_nat:
  assumes "map_args_ok m"
  defines "R \<equiv> unat (sg_kmod_ring_bytes (km_depth m))"
  shows "unat (sg_kmod_map_bytes (km_num_engines m) (km_num_channels m) (km_depth m)) = 4096 + unat (km_num_engines m) * unat (km_num_channels m) * R"
    "4096 + unat (km_num_engines m) * unat (km_num_channels m) * R < 2 ^ 32"
    "e < km_num_engines m \<Longrightarrow> c < km_num_channels m \<Longrightarrow>
      unat (sg_kmod_ring_off e c (km_num_channels m) (km_depth m)) = 4096 + (unat e * unat (km_num_channels m) + unat c) * R"
proof -
  note N = map_args_nat [OF assms(1)]
  have R: "R \<le> 65536 * 64 + 4095" unfolding R_def by (rule ring_bytes_nat(3) [OF N(6)])
  have lim: "k * R \<le> 32 * (65536 * 64 + 4095)" if "k \<le> 32" for k using that R by (rule mult_le_mono)
  have ec: "unat (km_num_engines m) * unat (km_num_channels m) \<le> 32" using mult_le_mono [OF N(2,4)] by simp
  show b: "4096 + unat (km_num_engines m) * unat (km_num_channels m) * R < 2 ^ 32" using lim [OF ec] by simp
  have "unat (ucast (km_num_engines m) * ucast (km_num_channels m) :: u64) = unat (km_num_engines m) * unat (km_num_channels m)"
    using ec by (subst unat_mult_64) (simp_all add: ucast_nat)
  then have "unat (ucast (km_num_engines m) * ucast (km_num_channels m) * sg_kmod_ring_bytes (km_depth m)) =
      unat (km_num_engines m) * unat (km_num_channels m) * R"
    using b by (subst unat_mult_64) (simp_all add: R_def)
  then show "unat (sg_kmod_map_bytes (km_num_engines m) (km_num_channels m) (km_depth m)) = 4096 + unat (km_num_engines m) * unat (km_num_channels m) * R"
    unfolding sg_kmod_map_bytes_def using b by (subst unat_add_64) simp_all
  assume e: "e < km_num_engines m" and c: "c < km_num_channels m"
  let ?k = "unat e * unat (km_num_channels m) + unat c"
  have "unat e \<le> 3" "unat c \<le> 7" using e c N(2,4) by (simp_all add: word_less_unat)
  then have k: "unat e * unat (km_num_channels m) \<le> 24" "?k \<le> 32" using mult_le_mono [of "unat e" 3, OF _ N(4)] by simp_all
  have "unat (ucast e * ucast (km_num_channels m) :: u64) = unat e * unat (km_num_channels m)"
    using k(1) by (subst unat_mult_64) (simp_all add: ucast_nat)
  then have "unat (ucast e * ucast (km_num_channels m) + ucast c :: u64) = ?k"
    using k(2) by (subst unat_add_64) (simp_all add: ucast_nat)
  then have "unat ((ucast e * ucast (km_num_channels m) + ucast c) * sg_kmod_ring_bytes (km_depth m)) = ?k * R"
    using lim [OF k(2)] by (subst unat_mult_64) (simp_all add: R_def)
  then show "unat (sg_kmod_ring_off e c (km_num_channels m) (km_depth m)) = 4096 + ?k * R"
    unfolding sg_kmod_ring_off_def using lim [OF k(2)] by (subst unat_add_64) simp_all
qed

lemma ring_index_inj:
  assumes "c < C" "c' < C" "e * C + c = e' * C + (c' :: nat)"
  shows "e = e' \<and> c = c'"
proof -
  have "(e * C + c) div C = e" "(e' * C + c') div C = e'" using assms(1,2) by simp_all
  then show ?thesis using assms(3) by auto
qed

text \<open>C26: The layout of the char device. When \<^verbatim>\<open>SG_IOC_KMOD_MAP\<close> succeeds, the length it reports is the length of the mapping, and
  every ring of the engines and channels asked for lies in the mapping, behind the control page, page-aligned, with room
  for its commands; two rings never overlap. An \<^verbatim>\<open>mmap\<close> of more than the mapping is refused.\<close>

theorem kmod_layout:
  assumes "sg_do_map (Some m) mem_ok out_ok s = (Inr m', s')"
  shows "unat (km_bytes m') = unat (sf_bytes s') \<and>
    (\<forall>e c. e < km_num_engines m \<longrightarrow> c < km_num_channels m \<longrightarrow>
       (let off = unat (sg_kmod_ring_off e c (km_num_channels m) (km_depth m)) in
        4096 \<le> off \<and> 4096 dvd off \<and> off + unat (km_depth m) * 64 \<le> unat (sf_bytes s') \<and>
        (\<forall>e' c'. e' < km_num_engines m \<longrightarrow> c' < km_num_channels m \<longrightarrow> (e, c) \<noteq> (e', c') \<longrightarrow>
           (let off' = unat (sg_kmod_ring_off e' c' (km_num_channels m) (km_depth m)) in
            off + unat (km_depth m) * 64 \<le> off' \<or> off' + unat (km_depth m) * 64 \<le> off)))) \<and>
    (\<forall>vs ve remap. ve - vs > sf_bytes s' \<longrightarrow> sg_mmap vs ve remap s' = Some EINVAL)"
proof -
  let ?E = "unat (km_num_engines m)" and ?C = "unat (km_num_channels m)" and ?D = "unat (km_depth m) * 64"
  define R where "R = unat (sg_kmod_ring_bytes (km_depth m))"
  have ok: "map_args_ok m" and s': "sf_bytes s' = sg_kmod_map_bytes (km_num_engines m) (km_num_channels m) (km_depth m)" "sf_mem s'"
    "km_bytes m' = ucast (sf_bytes s')"
    using assms by (auto simp: sg_do_map_def Let_def split: if_splits)
  note M = mapping_nat [OF ok, folded R_def]
  note B = ring_bytes_nat [OF map_args_nat(6) [OF ok], folded R_def]
  have "unat (km_bytes m') = unat (sf_bytes s')" using s' M(1,2) by (simp add: unsigned_ucast_eq take_bit_nat_eq_self)
  moreover have "?D + (4096 + k * R) \<le> 4096 + k' * R" if "k < k'" for k k'
  proof -
    have "Suc k * R \<le> k' * R" using that by (intro mult_le_mono1) simp
    then show ?thesis using B(1) by simp
  qed
  note step = this
  have one: "4096 \<le> off \<and> 4096 dvd off \<and> off + ?D \<le> unat (sf_bytes s')"
    if e: "e < km_num_engines m" and c: "c < km_num_channels m" and off: "off = unat (sg_kmod_ring_off e c (km_num_channels m) (km_depth m))" for e c off
  proof -
    have "unat e * ?C + unat c < unat e * ?C + ?C" using c by (simp add: word_less_unat)
    also have "\<dots> = Suc (unat e) * ?C" by simp
    also have "\<dots> \<le> ?E * ?C" using e by (intro mult_le_mono1) (simp add: word_less_unat)
    finally show ?thesis using step off M(1) M(3) [OF e c] s'(1) B(2) by (simp add: add.commute)
  qed
  have two: "off + ?D \<le> off' \<or> off' + ?D \<le> off"
    if "e < km_num_engines m" "c < km_num_channels m" "e' < km_num_engines m" "c' < km_num_channels m" "(e, c) \<noteq> (e', c')"
      "off = unat (sg_kmod_ring_off e c (km_num_channels m) (km_depth m))" "off' = unat (sg_kmod_ring_off e' c' (km_num_channels m) (km_depth m))"
    for e c e' c' off off'
  proof -
    have "unat e * ?C + unat c \<noteq> unat e' * ?C + unat c'"
      using ring_index_inj [of "unat c" ?C "unat c'" "unat e" "unat e'"] that(2,4,5) by (auto simp: word_less_unat word_eq_unat)
    then show ?thesis using step that(6,7) M(3) [OF that(1,2)] M(3) [OF that(3,4)] by (metis add.commute nat_neq_iff)
  qed
  ultimately show ?thesis using one two s'(2) by (simp add: Let_def sg_mmap_def)
qed

section \<open>Attaching the driver\<close>

text \<open>The system with the module loaded and enough memory, as the driver meets it: the calls go to a fresh file.\<close>

definition module_sys :: "u32 \<Rightarrow> u32 \<Rightarrow> u32 \<Rightarrow> kmod_sys" where
  "module_sys engines channels depth =
     (let (r, s) = sg_do_map (Some \<lparr>km_num_engines = engines, km_num_channels = channels, km_depth = depth, km_bytes = 0\<rparr>) True True sg_open
      in \<lparr>ks_open = None, ks_map = (\<lambda>_ _ _. case r of Inl er \<Rightarrow> Inl er | Inr m \<Rightarrow> Inr (km_bytes m)),
          ks_mmap = (\<lambda>bytes. sg_mmap 0 (ucast bytes) None s), ks_errno = None\<rparr>)"

lemma pow2_trick:
  assumes "pow2 d"
  shows "d AND (d - 1) = 0"
proof -
  obtain k where k: "k < 32" "unat d = 2 ^ k" using assms by (auto simp: pow2_def)
  then have "d = of_nat (2 ^ k)" by (metis of_nat_unat ucast_id)
  then have "d = 2 ^ k" by simp
  moreover have "(2 ^ k :: u32) AND mask k = 0" by (rule bit_word_eqI) (auto simp: bit_simps)
  ultimately show ?thesis by (simp add: mask_eq_exp_minus_1)
qed

lemma module_map:
  assumes "map_args_ok \<lparr>km_num_engines = e, km_num_channels = c, km_depth = depth, km_bytes = 0\<rparr>"
  shows "ks_open (module_sys e c depth) = None" "ks_map (module_sys e c depth) = (\<lambda>_ _ _. Inr (ucast (sg_kmod_map_bytes e c depth)))"
    "unat (ucast (sg_kmod_map_bytes e c depth) :: u32) = unat (sg_kmod_map_bytes e c depth)" "(ucast (sg_kmod_map_bytes e c depth) :: u32) \<noteq> 0"
    "ks_mmap (module_sys e c depth) (ucast (sg_kmod_map_bytes e c depth)) = None"
proof -
  let ?b = "sg_kmod_map_bytes e c depth"
  have M: "unat ?b < 2 ^ 32" "4096 \<le> unat ?b" using mapping_nat(1,2) [OF assms] by simp_all
  then show u: "unat (ucast ?b :: u32) = unat ?b" by (simp add: unsigned_ucast_eq take_bit_nat_eq_self)
  then show "(ucast ?b :: u32) \<noteq> 0" using M(2) by (metis not_numeral_le_zero unat_0)
  have "(ucast (ucast ?b :: u32) :: u64) = ?b" using u by (simp only: word_eq_unat ucast_nat)
  then show "ks_mmap (module_sys e c depth) (ucast ?b) = None" using assms
    by (simp add: module_sys_def sg_do_map_def sg_open_def sg_mmap_def Let_def)
qed (use assms in \<open>simp_all add: module_sys_def sg_do_map_def sg_open_def Let_def\<close>)


section \<open>The interrupt line\<close>

datatype irq_event = Irq | Run

text \<open>The device raises the interrupt; the kernel runs the work item when it is queued.\<close>

fun irq_step :: "irq_event \<Rightarrow> sg_file \<Rightarrow> sg_file" where
  "irq_step Irq s = snd (sg_ioctl SG_IOC_KMOD_IRQ s)"
| "irq_step Run s = (if sf_work s then sg_irq_work s else s)"

lemma irq_steps:
  assumes "sf_mem s"
  shows "\<exists>n \<le> length evs. sf_mem (fold irq_step evs s) \<and> sf_irq_seq (fold irq_step evs s) = sf_irq_seq s + of_nat n \<and>
    sf_wakes (fold irq_step evs s) = sf_wakes s + n \<and> (sf_work s \<longrightarrow> sf_work (fold irq_step evs s) \<or> 0 < n)"
  using assms
proof (induction evs arbitrary: s)
  case (Cons x evs)
  show ?case
  proof (cases "x = Run \<and> sf_work s")
    case True
    let ?s = "sg_irq_work s"
    have "sf_mem ?s" "sf_irq_seq ?s = sf_irq_seq s + 1" "sf_wakes ?s = Suc (sf_wakes s)" using Cons.prems by (simp_all add: sg_irq_work_def Let_def)
    with Cons.IH [of ?s] obtain n where "n \<le> length evs" "sf_mem (fold irq_step evs ?s)"
      "sf_irq_seq (fold irq_step evs ?s) = sf_irq_seq s + 1 + of_nat n" "sf_wakes (fold irq_step evs ?s) = Suc (sf_wakes s) + n" by auto
    then show ?thesis using True by (intro exI [of _ "Suc n"]) (simp add: add.assoc)
  next
    case False
    let ?s = "irq_step x s"
    have "sf_mem ?s" "sf_irq_seq ?s = sf_irq_seq s" "sf_wakes ?s = sf_wakes s" "sf_work s \<longrightarrow> sf_work ?s"
      using Cons.prems False by (cases x; simp)+
    with Cons.IH [of ?s] obtain n where "n \<le> length evs" "sf_mem (fold irq_step evs ?s)" "sf_irq_seq (fold irq_step evs ?s) = sf_irq_seq s + of_nat n"
      "sf_wakes (fold irq_step evs ?s) = sf_wakes s + n" "sf_work s \<longrightarrow> sf_work (fold irq_step evs ?s) \<or> 0 < n" by auto
    then show ?thesis by (intro exI [of _ n]) simp
  qed
qed simp

text \<open>C28: Interrupts are not lost. A waiter that read the sequence number before the device raised the interrupt does not
  sleep past it, however many interrupts are merged into one run of the work item: once no work is queued, the number has
  changed and the waiters have been woken, so \<^verbatim>\<open>SG_IOC_KMOD_SLEEP\<close> returns at once.\<close>

theorem irq_not_lost:
  assumes "sf_mem s" "s' = fold irq_step (Irq # evs) s" "\<not> sf_work s'" "length evs < 2 ^ 32"
  shows "sf_irq_seq s' \<noteq> sf_irq_seq s \<and> sf_wakes s < sf_wakes s' \<and> sg_do_sleep (Some (sf_irq_seq s)) signal fs s' = (None, s')"
proof -
  let ?s1 = "s\<lparr>sf_work := True\<rparr>"
  have s1: "s' = fold irq_step evs ?s1" using assms(1,2) by simp
  from irq_steps [of ?s1 evs] assms(1,3) obtain n where n: "n \<le> length evs" "0 < n" "sf_mem s'" "sf_irq_seq s' = sf_irq_seq s + of_nat n"
    "sf_wakes s' = sf_wakes s + n" unfolding s1 by auto
  have "unat (of_nat n :: u32) = n" using n(1) assms(4) by (simp add: unsigned_of_nat take_bit_nat_eq_self)
  then have "(of_nat n :: u32) \<noteq> 0" using n(2) by auto
  then have ne: "sf_irq_seq s' \<noteq> sf_irq_seq s" using n(4) by simp
  then have "wait_seq (sf_irq_seq s) fs s' = (True, s')" by (cases fs) simp_all
  then show ?thesis using ne n(2,3,5) by (simp add: sg_do_sleep_def)
qed

section \<open>Examples\<close>

definition demo_map :: kmod_map where
  "demo_map = \<lparr>km_num_engines = 2, km_num_channels = 8, km_depth = 1024, km_bytes = 0\<rparr>"

theorem kmod_layout_witness:
  "\<exists>m' s'. sg_do_map (Some demo_map) True True sg_open = (Inr m', s') \<and> unat (km_bytes m') = unat (sf_bytes s') \<and>
     sf_bytes s' = 0x101000 \<and> 4096 dvd unat (sg_kmod_ring_off 1 7 8 1024) \<and> sg_mmap 0 0x101001 None s' = Some EINVAL"
proof -
  have "sg_do_map (Some demo_map) True True sg_open = (Inr (demo_map\<lparr>km_bytes := 0x101000\<rparr>), sg_open\<lparr>sf_mem := True, sf_bytes := 0x101000\<rparr>)"
    by code_simp
  from kmod_layout [OF this] this show ?thesis by (simp add: demo_map_def Let_def)
qed


definition demo_file :: sg_file where
  "demo_file = sg_open\<lparr>sf_mem := True, sf_bytes := 0x101000\<rparr>"

theorem irq_not_lost_witness:
  "sg_do_sleep (Some 0) False [] (fold irq_step [Irq, Irq, Run] demo_file) = (None, fold irq_step [Irq, Irq, Run] demo_file)"
proof -
  have "sf_mem demo_file" "\<not> sf_work (fold irq_step [Irq, Irq, Run] demo_file)" "sf_irq_seq demo_file = 0" by code_simp+
  with irq_not_lost [OF _ refl, of demo_file "[Irq, Run]"] show ?thesis by simp
qed

end
