(* ===== verification/Runtime.thy ===== *)
theory Runtime
  imports Drv_Ioctl
begin

text \<open>
  The user-mode runtime (\<^verbatim>\<open>src/src/runtime/runtime.cpp\<close>): streams and events over the driver's channels and fences. The state
  has the globals of the file, the stream and event objects by handle, and the driver below. A null stream is the default
  stream. A call is of one thread; what the device and the other threads do to the driver meanwhile is the list of
  the waits, as in the driver. A call that does not return, or uses a destroyed handle, is \<^const>\<open>None\<close>.
\<close>

section \<open>State\<close>

datatype sg_error = SG_OK | SG_ERR_NOT_INITIALIZED | SG_ERR_ALREADY_INITIALIZED | SG_ERR_INVALID_VALUE | SG_ERR_OUT_OF_MEMORY
  | SG_ERR_INVALID_ADDRESS | SG_ERR_DEVICE | SG_ERR_UNKNOWN

datatype sg_sync_policy = SG_SYNC_DEFAULT | SG_SYNC_SPIN | SG_SYNC_BLOCK | SG_SYNC_OTHER

type_synonym sgFence = fence

record sg_stream =
  sm_id :: u32
  sm_ce :: u32
  sm_channel :: u32
  sm_has_tail :: bool
  sm_tail :: sgFence
  sm_extra_waits :: "sgFence list"

record sg_event =
  ev_recorded :: bool
  ev_at :: sgFence

record chan_bind =
  cb_priority :: int
  cb_users :: int

record runtime =
  rt_fd :: int
  rt_managed_coherent :: bool
  rt_kmod :: bool
  rt_num_engines :: u32
  rt_num_ce :: u32
  rt_num_channels :: u32
  rt_prio_least :: int
  rt_prio_greatest :: int
  rt_timeslice_ns :: u64
  rt_sync_flags :: u32
  rt_next_stream_id :: u32
  rt_default :: sg_stream
  rt_bind :: "u32 \<Rightarrow> chan_bind"
  rt_streams :: "nat \<Rightarrow> sg_stream option"
  rt_events :: "nat \<Rightarrow> sg_event option"
  rt_next_obj :: nat
  rt_drv :: drv_global

type_synonym 'a rt = "('a \<times> others list \<times> runtime) option"

definition new_stream :: sg_stream where
  "new_stream = \<lparr>sm_id = 0, sm_ce = 1, sm_channel = 0, sm_has_tail = False, sm_tail = no_fence, sm_extra_waits = []\<rparr>"

definition no_bind :: chan_bind where
  "no_bind = \<lparr>cb_priority = 0, cb_users = 0\<rparr>"

definition runtime_new :: "drv_global \<Rightarrow> runtime" where
  "runtime_new g =
     \<lparr>rt_fd = -1, rt_managed_coherent = False, rt_kmod = False, rt_num_engines = 1, rt_num_ce = 0, rt_num_channels = 1,
      rt_prio_least = SG_PRIORITY_LEAST, rt_prio_greatest = SG_PRIORITY_GREATEST, rt_timeslice_ns = 0, rt_sync_flags = SG_WAIT_DEFAULT,
      rt_next_stream_id = 1, rt_default = new_stream, rt_bind = (\<lambda>_. no_bind), rt_streams = (\<lambda>_. None), rt_events = (\<lambda>_. None),
      rt_next_obj = 0, rt_drv = g\<rparr>"

text \<open>A handle, or the null stream.\<close>

definition get_stream :: "nat option \<Rightarrow> runtime \<Rightarrow> sg_stream option" where
  "get_stream h r = (case h of None \<Rightarrow> Some (rt_default r) | Some n \<Rightarrow> rt_streams r n)"

definition put_stream :: "nat option \<Rightarrow> sg_stream \<Rightarrow> runtime \<Rightarrow> runtime" where
  "put_stream h s r = (case h of None \<Rightarrow> r\<lparr>rt_default := s\<rparr> | Some n \<Rightarrow> r\<lparr>rt_streams := (rt_streams r)(n \<mapsto> s)\<rparr>)"

section \<open>Helpers\<close>

definition ioctl :: "host_sys \<Rightarrow> request \<Rightarrow> others list \<Rightarrow> runtime \<Rightarrow> answer rt" where
  "ioctl sys req ws r = map_option (\<lambda>(a, ws', g). (a, ws', r\<lparr>rt_drv := g\<rparr>)) (sg_drv_ioctl sys (rt_fd r) req ws (rt_drv r))"

fun from_errno :: "errno option \<Rightarrow> sg_error" where
  "from_errno None = SG_OK"
| "from_errno (Some EINVAL) = SG_ERR_INVALID_VALUE"
| "from_errno (Some ENOMEM) = SG_ERR_OUT_OF_MEMORY"
| "from_errno (Some EFAULT) = SG_ERR_INVALID_ADDRESS"
| "from_errno (Some EBADF) = SG_ERR_NOT_INITIALIZED"
| "from_errno (Some EIO) = SG_ERR_DEVICE"
| "from_errno (Some EEXIST) = SG_ERR_INVALID_VALUE"
| "from_errno (Some _) = SG_ERR_UNKNOWN"

definition status :: "host_sys \<Rightarrow> request \<Rightarrow> others list \<Rightarrow> runtime \<Rightarrow> sg_error rt" where
  "status sys req ws r = map_option (\<lambda>((rc, _), x). (from_errno rc, x)) (ioctl sys req ws r)"

definition clamp_priority :: "int \<Rightarrow> runtime \<Rightarrow> int" where
  "clamp_priority p r = (if p < rt_prio_greatest r then rt_prio_greatest r else if p > rt_prio_least r then rt_prio_least r else p)"

fun set_priority_engines :: "host_sys \<Rightarrow> u32 list \<Rightarrow> u32 \<Rightarrow> int \<Rightarrow> others list \<Rightarrow> runtime \<Rightarrow> errno option rt" where
  "set_priority_engines sys [] c p ws r = Some (None, ws, r)"
| "set_priority_engines sys (e # es) c p ws r =
     (case ioctl sys (SG_IOC_SET_PRIORITY (Some \<lparr>pr_engine = e, pr_channel = c, pr_priority = p\<rparr>)) ws r of
        None \<Rightarrow> None
      | Some ((Some er, _), ws1, r1) \<Rightarrow> Some (Some er, ws1, r1)
      | Some ((None, _), ws1, r1) \<Rightarrow> set_priority_engines sys es c p ws1 r1)"

definition set_priority_all :: "host_sys \<Rightarrow> u32 \<Rightarrow> int \<Rightarrow> others list \<Rightarrow> runtime \<Rightarrow> errno option rt" where
  "set_priority_all sys c p ws r = set_priority_engines sys (map of_nat [0 ..< unat (rt_num_engines r)]) c p ws r"

definition all_channels :: "runtime \<Rightarrow> u32 list" where
  "all_channels r = map of_nat [0 ..< unat (rt_num_channels r)]"

text \<open>The least used channel of a priority, the first of equals.\<close>

fun least_used :: "u32 list \<Rightarrow> (u32 \<Rightarrow> chan_bind) \<Rightarrow> int \<Rightarrow> u32 option \<Rightarrow> u32 option" where
  "least_used [] b p found = found"
| "least_used (c # cs) b p found =
     (if cb_priority (b c) \<noteq> p then least_used cs b p found
      else case found of
        None \<Rightarrow> least_used cs b p (Some c)
      | Some f \<Rightarrow> least_used cs b p (if cb_users (b c) < cb_users (b f) then Some c else Some f))"

definition add_user :: "u32 \<Rightarrow> runtime \<Rightarrow> runtime" where
  "add_user c r = r\<lparr>rt_bind := (rt_bind r)(c := (rt_bind r c)\<lparr>cb_users := cb_users (rt_bind r c) + 1\<rparr>)\<rparr>"

text \<open>The channel, or the error.\<close>

definition bind_channel :: "host_sys \<Rightarrow> int \<Rightarrow> others list \<Rightarrow> runtime \<Rightarrow> (sg_error + u32) rt" where
  "bind_channel sys p ws r =
     (case least_used (all_channels r) (rt_bind r) p None of
        Some c \<Rightarrow> Some (Inr c, ws, add_user c r)
      | None \<Rightarrow>
          (case find (\<lambda>c. cb_users (rt_bind r c) = 0) (all_channels r) of
             None \<Rightarrow> Some (Inl SG_ERR_INVALID_VALUE, ws, r)
           | Some c \<Rightarrow>
               (case set_priority_all sys c p ws r of
                  None \<Rightarrow> None
                | Some (Some er, ws1, r1) \<Rightarrow>
                    (case set_priority_all sys c SG_PRIORITY_LEAST ws1 r1 of
                       None \<Rightarrow> None
                     | Some (_, ws2, r2) \<Rightarrow> Some (Inl (from_errno (Some er)), ws2, r2))
                | Some (None, ws1, r1) \<Rightarrow>
                    Some (Inr c, ws1, add_user c (r1\<lparr>rt_bind := (rt_bind r1)(c := (rt_bind r1 c)\<lparr>cb_priority := p\<rparr>)\<rparr>)))))"

definition unbind_channel :: "host_sys \<Rightarrow> sg_stream \<Rightarrow> others list \<Rightarrow> runtime \<Rightarrow> unit rt" where
  "unbind_channel sys s ws r =
     (let c = sm_channel s; b = rt_bind r c;
          b1 = (if cb_users b > 0 then b\<lparr>cb_users := cb_users b - 1\<rparr> else b);
          r1 = r\<lparr>rt_bind := (rt_bind r)(c := b1)\<rparr>
      in if cb_users b1 = 0 \<and> cb_priority b1 \<noteq> SG_PRIORITY_LEAST then
           (case set_priority_all sys c SG_PRIORITY_LEAST ws r1 of
              None \<Rightarrow> None
            | Some (Some _, ws2, r2) \<Rightarrow> Some ((), ws2, r2)
            | Some (None, ws2, r2) \<Rightarrow> Some ((), ws2, r2\<lparr>rt_bind := (rt_bind r2)(c := (rt_bind r2 c)\<lparr>cb_priority := SG_PRIORITY_LEAST\<rparr>)\<rparr>))
         else Some ((), ws, r1))"

definition create_stream :: "host_sys \<Rightarrow> bool \<Rightarrow> int \<Rightarrow> others list \<Rightarrow> runtime \<Rightarrow> (sg_error \<times> nat option) rt" where
  "create_stream sys has_out p ws r =
     (if rt_fd r < 0 then Some ((SG_ERR_NOT_INITIALIZED, None), ws, r)
      else if \<not> has_out then Some ((SG_ERR_INVALID_VALUE, None), ws, r)
      else let sid = rt_next_stream_id r;
               s = new_stream\<lparr>sm_id := sid, sm_ce := (if rt_num_ce r \<noteq> 0 then 1 + (sid mod rt_num_ce r) else 0)\<rparr>;
               r1 = r\<lparr>rt_next_stream_id := sid + 1\<rparr>
        in case bind_channel sys (clamp_priority p r1) ws r1 of
             None \<Rightarrow> None
           | Some (Inl er, ws1, r2) \<Rightarrow> Some ((er, None), ws1, r2)
           | Some (Inr c, ws1, r2) \<Rightarrow>
               Some ((SG_OK, Some (rt_next_obj r2)), ws1,
                 put_stream (Some (rt_next_obj r2)) (s\<lparr>sm_channel := c\<rparr>) (r2\<lparr>rt_next_obj := rt_next_obj r2 + 1\<rparr>)))"

definition rt_wait_fence :: "host_sys \<Rightarrow> sgFence \<Rightarrow> others list \<Rightarrow> runtime \<Rightarrow> sg_error rt" where
  "rt_wait_fence sys f ws r =
     status sys (SG_IOC_WAIT (Some \<lparr>wa_engine = fn_engine f, wa_channel = fn_channel f, wa_fence = fn_value f, wa_flags = rt_sync_flags r\<rparr>)) ws r"

definition wait_all :: "host_sys \<Rightarrow> others list \<Rightarrow> runtime \<Rightarrow> sg_error rt" where
  "wait_all sys ws r =
     status sys (SG_IOC_WAIT (Some \<lparr>wa_engine = SG_WAIT_ALL, wa_channel = 0, wa_fence = 0, wa_flags = rt_sync_flags r\<rparr>)) ws r"

definition make_cmd :: "u32 \<Rightarrow> sg_cmd" where
  "make_cmd op = zero_cmd\<lparr>opcode := op\<rparr>"

text \<open>The answer of a raw submit: the error, or the fence and whether the copy went direct.\<close>

definition raw_submit :: "host_sys \<Rightarrow> u32 \<Rightarrow> u32 \<Rightarrow> sg_cmd \<Rightarrow> u64 \<Rightarrow> others list \<Rightarrow> runtime \<Rightarrow> (errno + u64 \<times> bool) rt" where
  "raw_submit sys e c cmd host_ptr ws r =
     (case ioctl sys (SG_IOC_SUBMIT (Some \<lparr>sa_cmd = cmd, sa_host_ptr = host_ptr, sa_fence = 0, sa_out_flags = 0, sa_engine = e, sa_channel = c\<rparr>)) ws r of
        Some ((None, Submitted a), ws1, r1) \<Rightarrow> Some (Inr (sa_fence a, sa_out_flags a AND SG_SUBMIT_DIRECT \<noteq> 0), ws1, r1)
      | Some ((Some er, _), ws1, r1) \<Rightarrow> Some (Inl er, ws1, r1)
      | _ \<Rightarrow> None)"

definition wait_cmd :: "sgFence \<Rightarrow> sg_cmd" where
  "wait_cmd f = (make_cmd SG_OP_WAIT_FENCE)\<lparr>arg0 := fn_engine f, arg1 := fn_channel f, src1 := fn_value f\<rparr>"

definition same_ring :: "u32 \<Rightarrow> u32 \<Rightarrow> sgFence \<Rightarrow> bool" where
  "same_ring e c f \<longleftrightarrow> fn_engine f = e \<and> fn_channel f = c"

text \<open>Submit a wait for each fence that another ring retires.\<close>

fun flush_waits :: "(sg_cmd \<Rightarrow> others list \<Rightarrow> 'r \<Rightarrow> ((errno + 'a) \<times> others list \<times> 'r) option) \<Rightarrow> u32 \<Rightarrow> u32 \<Rightarrow> sgFence list \<Rightarrow> others list \<Rightarrow> 'r \<Rightarrow>
    (errno option \<times> others list \<times> 'r) option" where
  "flush_waits submit e c [] ws r = Some (None, ws, r)"
| "flush_waits submit e c (f # fs) ws r =
     (if same_ring e c f then flush_waits submit e c fs ws r
      else case submit (wait_cmd f) ws r of
        None \<Rightarrow> None
      | Some (Inl er, ws1, r1) \<Rightarrow> Some (Some er, ws1, r1)
      | Some (Inr _, ws1, r1) \<Rightarrow> flush_waits submit e c fs ws1 r1)"

text \<open>The error, and for a success the fence and whether the copy went direct.\<close>

definition stream_submit :: "host_sys \<Rightarrow> nat option \<Rightarrow> u32 \<Rightarrow> sg_cmd \<Rightarrow> u64 \<Rightarrow> others list \<Rightarrow> runtime \<Rightarrow> (sg_error \<times> (u64 \<times> bool) option) rt" where
  "stream_submit sys h e cmd host_ptr ws r =
     (if rt_fd r < 0 then Some ((SG_ERR_NOT_INITIALIZED, None), ws, r)
      else case get_stream h r of
        None \<Rightarrow> None
      | Some s \<Rightarrow>
          (let submit = (\<lambda>w. raw_submit sys e (sm_channel s) w 0) in
           case flush_waits submit e (sm_channel s) (sm_extra_waits s) ws r of
             None \<Rightarrow> None
           | Some (Some er, ws1, r1) \<Rightarrow> Some ((from_errno (Some er), None), ws1, r1)
           | Some (None, ws1, r1) \<Rightarrow>
               (let s1 = s\<lparr>sm_extra_waits := []\<rparr>; r2 = put_stream h s1 r1 in
                case flush_waits submit e (sm_channel s) (if sm_has_tail s then [sm_tail s] else []) ws1 r2 of
                  None \<Rightarrow> None
                | Some (Some er, ws2, r3) \<Rightarrow> Some ((from_errno (Some er), None), ws2, r3)
                | Some (None, ws2, r3) \<Rightarrow>
                    (case raw_submit sys e (sm_channel s) cmd host_ptr ws2 r3 of
                       None \<Rightarrow> None
                     | Some (Inl er, ws3, r4) \<Rightarrow> Some ((from_errno (Some er), None), ws3, r4)
                     | Some (Inr (f, direct), ws3, r4) \<Rightarrow>
                         Some ((SG_OK, Some (f, direct)), ws3,
                           put_stream h (s1\<lparr>sm_has_tail := True, sm_tail := \<lparr>fn_engine = e, fn_channel = sm_channel s, fn_value = f\<rparr>\<rparr>) r4)))))"

definition copy_sync :: "host_sys \<Rightarrow> nat option \<Rightarrow> sg_cmd \<Rightarrow> u64 \<Rightarrow> others list \<Rightarrow> runtime \<Rightarrow> sg_error rt" where
  "copy_sync sys h cmd host_ptr ws r =
     (case get_stream h r of
        None \<Rightarrow> None
      | Some s \<Rightarrow>
          (case stream_submit sys h (sm_ce s) cmd host_ptr ws r of
             Some ((SG_OK, Some (f, True)), ws1, r1) \<Rightarrow>
               rt_wait_fence sys \<lparr>fn_engine = sm_ce s, fn_channel = sm_channel s, fn_value = f\<rparr> ws1 r1
           | Some ((er, _), ws1, r1) \<Rightarrow> Some (er, ws1, r1)
           | None \<Rightarrow> None))"

section \<open>Start and stop\<close>

definition sgInit :: "host_sys \<Rightarrow> environ \<Rightarrow> bool \<Rightarrow> kmod_sys \<Rightarrow> u64 \<Rightarrow> (u64 \<Rightarrow> u8) \<Rightarrow> others list \<Rightarrow> runtime \<Rightarrow> sg_error rt" where
  "sgInit sys ev uffd_ok ks staging host ws r =
     (if rt_fd r \<ge> 0 then Some (SG_ERR_ALREADY_INITIALIZED, ws, r)
      else case sg_drv_open ev uffd_ok ks staging host (rt_drv r) of
        (Inl er, g) \<Rightarrow> Some (from_errno (Some er), ws, r\<lparr>rt_drv := g\<rparr>)
      | (Inr fd, g) \<Rightarrow>
          (case sg_drv_ioctl sys fd (SG_IOC_QUERY (Some ())) ws g of
             Some ((None, Query q), ws1, g1) \<Rightarrow>
               if qa_abi_version q \<noteq> SG_ABI_VERSION then
                 map_option (\<lambda>(_, ws2, g2). (SG_ERR_DEVICE, ws2, r\<lparr>rt_drv := g2\<rparr>)) (sg_drv_close fd ws1 g1)
               else Some (SG_OK, ws1, r\<lparr>rt_drv := g1, rt_fd := fd, rt_managed_coherent := qa_uffd q, rt_kmod := qa_kmod q,
                 rt_num_engines := qa_num_engines q, rt_num_ce := qa_num_engines q - 1, rt_num_channels := qa_num_channels q,
                 rt_prio_least := qa_priority_least q, rt_prio_greatest := qa_priority_greatest q, rt_timeslice_ns := qa_timeslice_ns q,
                 rt_bind := (\<lambda>c. if c < SG_MAX_CHANNELS then no_bind else rt_bind r c)(0 := no_bind\<lparr>cb_users := 1\<rparr>),
                 rt_default := (rt_default r)\<lparr>sm_has_tail := False, sm_extra_waits := [],
                   sm_ce := (if qa_num_engines q - 1 \<noteq> 0 then 1 else 0), sm_channel := 0\<rparr>\<rparr>)
           | Some ((Some er, _), ws1, g1) \<Rightarrow>
               map_option (\<lambda>(_, ws2, g2). (from_errno (Some er), ws2, r\<lparr>rt_drv := g2\<rparr>)) (sg_drv_close fd ws1 g1)
           | _ \<Rightarrow> None))"

definition sgShutdown :: "others list \<Rightarrow> runtime \<Rightarrow> sg_error rt" where
  "sgShutdown ws r =
     (if rt_fd r < 0 then Some (SG_ERR_NOT_INITIALIZED, ws, r)
      else map_option (\<lambda>(rc, ws1, g). (from_errno rc, ws1, r\<lparr>rt_fd := -1, rt_managed_coherent := False, rt_kmod := False, rt_drv := g\<rparr>))
        (sg_drv_close (rt_fd r) ws (rt_drv r)))"

definition sgManagedCoherent :: "runtime \<Rightarrow> bool" where
  "sgManagedCoherent r \<longleftrightarrow> rt_fd r \<ge> 0 \<and> rt_managed_coherent r"

definition sgUsingKernel :: "runtime \<Rightarrow> bool" where
  "sgUsingKernel r \<longleftrightarrow> rt_fd r \<ge> 0 \<and> rt_kmod r"

definition sgHoldHostFaults :: "host_sys \<Rightarrow> int \<Rightarrow> others list \<Rightarrow> runtime \<Rightarrow> unit rt" where
  "sgHoldHostFaults sys hold ws r =
     (if rt_fd r < 0 then Some ((), ws, r) else map_option (\<lambda>(_, x). ((), x)) (ioctl sys (SG_IOC_UFFD_HOLD (Some hold)) ws r))"

section \<open>Memory\<close>

text \<open>\<open>has_out\<close> says that the result pointer is not null; a host pointer is null when it is 0.\<close>

definition sgMalloc :: "host_sys \<Rightarrow> bool \<Rightarrow> u64 \<Rightarrow> others list \<Rightarrow> runtime \<Rightarrow> (sg_error \<times> u64 option) rt" where
  "sgMalloc sys has_out bytes ws r =
     (if rt_fd r < 0 then Some ((SG_ERR_NOT_INITIALIZED, None), ws, r)
      else if \<not> has_out \<or> bytes = 0 then Some ((SG_ERR_INVALID_VALUE, None), ws, r)
      else map_option (\<lambda>((rc, rep), x). ((from_errno rc, case rep of Addr a \<Rightarrow> Some a | _ \<Rightarrow> None), x)) (ioctl sys (SG_IOC_ALLOC (Some bytes)) ws r))"

definition sgFree :: "host_sys \<Rightarrow> u64 \<Rightarrow> others list \<Rightarrow> runtime \<Rightarrow> sg_error rt" where
  "sgFree sys p ws r = (if rt_fd r < 0 then Some (SG_ERR_NOT_INITIALIZED, ws, r) else status sys (SG_IOC_FREE (Some p)) ws r)"

definition sgMallocManaged :: "host_sys \<Rightarrow> bool \<Rightarrow> bool \<Rightarrow> u64 \<Rightarrow> others list \<Rightarrow> runtime \<Rightarrow> (sg_error \<times> (u64 \<times> u64) option) rt" where
  "sgMallocManaged sys has_dev has_host bytes ws r =
     (if rt_fd r < 0 then Some ((SG_ERR_NOT_INITIALIZED, None), ws, r)
      else if \<not> has_dev \<or> \<not> has_host \<or> bytes = 0 then Some ((SG_ERR_INVALID_VALUE, None), ws, r)
      else map_option (\<lambda>((rc, rep), x). ((from_errno rc, case rep of AddrHost a h \<Rightarrow> Some (a, h) | _ \<Rightarrow> None), x))
        (ioctl sys (SG_IOC_ALLOC_MANAGED (Some bytes)) ws r))"

definition sgMallocHost :: "host_sys \<Rightarrow> bool \<Rightarrow> u64 \<Rightarrow> others list \<Rightarrow> runtime \<Rightarrow> (sg_error \<times> u64 option) rt" where
  "sgMallocHost sys has_out bytes ws r =
     (if rt_fd r < 0 then Some ((SG_ERR_NOT_INITIALIZED, None), ws, r)
      else if \<not> has_out \<or> bytes = 0 then Some ((SG_ERR_INVALID_VALUE, None), ws, r)
      else let rounded = (bytes + 4096 - 1) div 4096 * 4096 in
        case hs_map sys rounded of
          None \<Rightarrow> Some ((SG_ERR_OUT_OF_MEMORY, None), ws, r)
        | Some p \<Rightarrow>
            map_option (\<lambda>((rc, _), x). (if rc \<noteq> None then (from_errno rc, None) else (SG_OK, Some p), x))
              (ioctl sys (SG_IOC_PIN (Some \<lparr>pa_addr = p, pa_size = rounded\<rparr>)) ws r))"

text \<open>The flag says whether the memory was given back to the allocator.\<close>

definition sgFreeHost :: "host_sys \<Rightarrow> u64 \<Rightarrow> others list \<Rightarrow> runtime \<Rightarrow> (sg_error \<times> bool) rt" where
  "sgFreeHost sys p ws r =
     (if rt_fd r < 0 then Some ((SG_ERR_NOT_INITIALIZED, False), ws, r)
      else if p = 0 then Some ((SG_ERR_INVALID_VALUE, False), ws, r)
      else case ioctl sys (SG_IOC_UNPIN (Some \<lparr>pa_addr = p, pa_size = 0\<rparr>)) ws r of
        None \<Rightarrow> None
      | Some ((Some er, _), ws1, r1) \<Rightarrow> Some ((from_errno (Some er), False), ws1, r1)
      | Some ((None, _), ws1, r1) \<Rightarrow> map_option (\<lambda>(e, x). ((e, True), x)) (wait_all sys ws1 r1))"

definition sgHostRegister :: "host_sys \<Rightarrow> u64 \<Rightarrow> u64 \<Rightarrow> others list \<Rightarrow> runtime \<Rightarrow> sg_error rt" where
  "sgHostRegister sys p bytes ws r =
     (if rt_fd r < 0 then Some (SG_ERR_NOT_INITIALIZED, ws, r)
      else if p = 0 \<or> bytes = 0 then Some (SG_ERR_INVALID_VALUE, ws, r)
      else status sys (SG_IOC_PIN (Some \<lparr>pa_addr = p, pa_size = bytes\<rparr>)) ws r)"

definition sgHostUnregister :: "host_sys \<Rightarrow> u64 \<Rightarrow> others list \<Rightarrow> runtime \<Rightarrow> sg_error rt" where
  "sgHostUnregister sys p ws r =
     (if rt_fd r < 0 then Some (SG_ERR_NOT_INITIALIZED, ws, r)
      else if p = 0 then Some (SG_ERR_INVALID_VALUE, ws, r)
      else status sys (SG_IOC_UNPIN (Some \<lparr>pa_addr = p, pa_size = 0\<rparr>)) ws r)"

section \<open>Streams and events\<close>

definition sgStreamCreate :: "host_sys \<Rightarrow> bool \<Rightarrow> others list \<Rightarrow> runtime \<Rightarrow> (sg_error \<times> nat option) rt" where
  "sgStreamCreate sys has_out ws r = create_stream sys has_out SG_PRIORITY_LEAST ws r"

definition sgStreamCreateWithPriority :: "host_sys \<Rightarrow> bool \<Rightarrow> int \<Rightarrow> others list \<Rightarrow> runtime \<Rightarrow> (sg_error \<times> nat option) rt" where
  "sgStreamCreateWithPriority sys has_out p ws r = create_stream sys has_out p ws r"

definition sgDeviceGetStreamPriorityRange :: "runtime \<Rightarrow> int \<times> int" where
  "sgDeviceGetStreamPriorityRange r = (if rt_fd r \<ge> 0 then rt_prio_least r else 0, if rt_fd r \<ge> 0 then rt_prio_greatest r else 0)"

definition sgTimesliceNs :: "runtime \<Rightarrow> u64" where
  "sgTimesliceNs r = (if rt_fd r \<ge> 0 then rt_timeslice_ns r else 0)"

definition sgNumChannels :: "runtime \<Rightarrow> u32" where
  "sgNumChannels r = (if rt_fd r \<ge> 0 then rt_num_channels r else 0)"

definition sgStreamDestroy :: "host_sys \<Rightarrow> nat option \<Rightarrow> others list \<Rightarrow> runtime \<Rightarrow> sg_error rt" where
  "sgStreamDestroy sys h ws r =
     (if rt_fd r < 0 then Some (SG_ERR_NOT_INITIALIZED, ws, r)
      else case h of
        None \<Rightarrow> Some (SG_ERR_INVALID_VALUE, ws, r)
      | Some n \<Rightarrow>
          (case rt_streams r n of
             None \<Rightarrow> None
           | Some s \<Rightarrow>
               (case unbind_channel sys s ws r of
                  None \<Rightarrow> None
                | Some (_, ws1, r1) \<Rightarrow> Some (SG_OK, ws1, r1\<lparr>rt_streams := (rt_streams r1)(n := None)\<rparr>))))"

definition sgStreamSynchronize :: "host_sys \<Rightarrow> nat option \<Rightarrow> others list \<Rightarrow> runtime \<Rightarrow> sg_error rt" where
  "sgStreamSynchronize sys h ws r =
     (if rt_fd r < 0 then Some (SG_ERR_NOT_INITIALIZED, ws, r)
      else case get_stream h r of
        None \<Rightarrow> None
      | Some s \<Rightarrow> if \<not> sm_has_tail s then Some (SG_OK, ws, r) else rt_wait_fence sys (sm_tail s) ws r)"

definition sgEventCreate :: "bool \<Rightarrow> runtime \<Rightarrow> (sg_error \<times> nat option) \<times> runtime" where
  "sgEventCreate has_out r =
     (if rt_fd r < 0 then ((SG_ERR_NOT_INITIALIZED, None), r)
      else if \<not> has_out then ((SG_ERR_INVALID_VALUE, None), r)
      else ((SG_OK, Some (rt_next_obj r)),
            r\<lparr>rt_events := (rt_events r)(rt_next_obj r \<mapsto> \<lparr>ev_recorded = False, ev_at = no_fence\<rparr>), rt_next_obj := rt_next_obj r + 1\<rparr>))"

definition sgEventDestroy :: "nat option \<Rightarrow> runtime \<Rightarrow> sg_error \<times> runtime" where
  "sgEventDestroy ev r =
     (if rt_fd r < 0 then (SG_ERR_NOT_INITIALIZED, r)
      else case ev of None \<Rightarrow> (SG_ERR_INVALID_VALUE, r) | Some n \<Rightarrow> (SG_OK, r\<lparr>rt_events := (rt_events r)(n := None)\<rparr>))"

definition sgEventRecord :: "host_sys \<Rightarrow> nat option \<Rightarrow> nat option \<Rightarrow> others list \<Rightarrow> runtime \<Rightarrow> sg_error rt" where
  "sgEventRecord sys ev h ws r =
     (if rt_fd r < 0 then Some (SG_ERR_NOT_INITIALIZED, ws, r)
      else case ev of
        None \<Rightarrow> Some (SG_ERR_INVALID_VALUE, ws, r)
      | Some n \<Rightarrow>
          (case get_stream h r of
             None \<Rightarrow> None
           | Some s \<Rightarrow>
               (let e = (if sm_has_tail s then fn_engine (sm_tail s) else SG_ENGINE_COMPUTE) in
                case stream_submit sys h e (make_cmd SG_OP_NOP) 0 ws r of
                  Some ((SG_OK, Some (f, _)), ws1, r1) \<Rightarrow>
                    Some (SG_OK, ws1, r1\<lparr>rt_events := (rt_events r1)(n \<mapsto>
                      \<lparr>ev_recorded = True, ev_at = \<lparr>fn_engine = e, fn_channel = sm_channel s, fn_value = f\<rparr>\<rparr>)\<rparr>)
                | Some ((er, _), ws1, r1) \<Rightarrow> Some (er, ws1, r1)
                | None \<Rightarrow> None)))"

definition sgEventSynchronize :: "host_sys \<Rightarrow> nat option \<Rightarrow> others list \<Rightarrow> runtime \<Rightarrow> sg_error rt" where
  "sgEventSynchronize sys ev ws r =
     (if rt_fd r < 0 then Some (SG_ERR_NOT_INITIALIZED, ws, r)
      else case ev of
        None \<Rightarrow> Some (SG_ERR_INVALID_VALUE, ws, r)
      | Some n \<Rightarrow>
          (case rt_events r n of
             None \<Rightarrow> None
           | Some x \<Rightarrow> if \<not> ev_recorded x then Some (SG_OK, ws, r) else rt_wait_fence sys (ev_at x) ws r))"

definition sgStreamWaitEvent :: "nat option \<Rightarrow> nat option \<Rightarrow> runtime \<Rightarrow> (sg_error \<times> runtime) option" where
  "sgStreamWaitEvent h ev r =
     (if rt_fd r < 0 then Some (SG_ERR_NOT_INITIALIZED, r)
      else case ev of
        None \<Rightarrow> Some (SG_ERR_INVALID_VALUE, r)
      | Some n \<Rightarrow>
          (case (rt_events r n, get_stream h r) of
             (Some x, Some s) \<Rightarrow>
               if \<not> ev_recorded x then Some (SG_OK, r)
               else Some (SG_OK, put_stream h (s\<lparr>sm_extra_waits := sm_extra_waits s @ [ev_at x]\<rparr>) r)
           | _ \<Rightarrow> None))"

section \<open>Copies and kernels\<close>

abbreviation result :: "(sg_error \<times> (u64 \<times> bool) option) rt \<Rightarrow> sg_error rt" where
  "result \<equiv> map_option (\<lambda>((er, _), x). (er, x))"

definition sgMemsetAsync :: "host_sys \<Rightarrow> u64 \<Rightarrow> int \<Rightarrow> u64 \<Rightarrow> nat option \<Rightarrow> others list \<Rightarrow> runtime \<Rightarrow> sg_error rt" where
  "sgMemsetAsync sys to v bytes h ws r =
     result (stream_submit sys h SG_ENGINE_COMPUTE ((make_cmd SG_OP_FILL)\<lparr>dst := to, cmd_size := bytes, val := of_int v AND 0xff\<rparr>) 0 ws r)"

definition sgMemset :: "host_sys \<Rightarrow> u64 \<Rightarrow> int \<Rightarrow> u64 \<Rightarrow> others list \<Rightarrow> runtime \<Rightarrow> sg_error rt" where
  "sgMemset sys to v bytes ws r = sgMemsetAsync sys to v bytes None ws r"

definition sgMemcpyH2D :: "host_sys \<Rightarrow> u64 \<Rightarrow> u64 \<Rightarrow> u64 \<Rightarrow> others list \<Rightarrow> runtime \<Rightarrow> sg_error rt" where
  "sgMemcpyH2D sys to from bytes ws r =
     (if from = 0 then Some (SG_ERR_INVALID_VALUE, ws, r)
      else copy_sync sys None ((make_cmd SG_OP_COPY_H2D)\<lparr>dst := to, cmd_size := bytes\<rparr>) from ws r)"

definition sgMemcpyD2H :: "host_sys \<Rightarrow> u64 \<Rightarrow> u64 \<Rightarrow> u64 \<Rightarrow> others list \<Rightarrow> runtime \<Rightarrow> sg_error rt" where
  "sgMemcpyD2H sys to from bytes ws r =
     (if to = 0 then Some (SG_ERR_INVALID_VALUE, ws, r)
      else copy_sync sys None ((make_cmd SG_OP_COPY_D2H)\<lparr>src0 := from, cmd_size := bytes\<rparr>) to ws r)"

definition on_copy_engine :: "host_sys \<Rightarrow> nat option \<Rightarrow> sg_cmd \<Rightarrow> u64 \<Rightarrow> others list \<Rightarrow> runtime \<Rightarrow> sg_error rt" where
  "on_copy_engine sys h cmd host_ptr ws r =
     (case get_stream h r of None \<Rightarrow> None | Some s \<Rightarrow> result (stream_submit sys h (sm_ce s) cmd host_ptr ws r))"

definition sgMemcpyD2DAsync :: "host_sys \<Rightarrow> u64 \<Rightarrow> u64 \<Rightarrow> u64 \<Rightarrow> nat option \<Rightarrow> others list \<Rightarrow> runtime \<Rightarrow> sg_error rt" where
  "sgMemcpyD2DAsync sys to from bytes h ws r =
     on_copy_engine sys h ((make_cmd SG_OP_COPY_D2D)\<lparr>dst := to, src0 := from, cmd_size := bytes\<rparr>) 0 ws r"

definition sgMemcpyD2D :: "host_sys \<Rightarrow> u64 \<Rightarrow> u64 \<Rightarrow> u64 \<Rightarrow> others list \<Rightarrow> runtime \<Rightarrow> sg_error rt" where
  "sgMemcpyD2D sys to from bytes ws r = sgMemcpyD2DAsync sys to from bytes None ws r"

definition sgMemcpyH2DAsync :: "host_sys \<Rightarrow> u64 \<Rightarrow> u64 \<Rightarrow> u64 \<Rightarrow> nat option \<Rightarrow> others list \<Rightarrow> runtime \<Rightarrow> sg_error rt" where
  "sgMemcpyH2DAsync sys to from bytes h ws r =
     (if from = 0 then Some (SG_ERR_INVALID_VALUE, ws, r)
      else on_copy_engine sys h ((make_cmd SG_OP_COPY_H2D)\<lparr>dst := to, cmd_size := bytes\<rparr>) from ws r)"

definition sgMemcpyD2HAsync :: "host_sys \<Rightarrow> u64 \<Rightarrow> u64 \<Rightarrow> u64 \<Rightarrow> nat option \<Rightarrow> others list \<Rightarrow> runtime \<Rightarrow> sg_error rt" where
  "sgMemcpyD2HAsync sys to from bytes h ws r =
     (if to = 0 then Some (SG_ERR_INVALID_VALUE, ws, r)
      else on_copy_engine sys h ((make_cmd SG_OP_COPY_D2H)\<lparr>src0 := from, cmd_size := bytes\<rparr>) to ws r)"

definition sgVaddF32Async :: "host_sys \<Rightarrow> u64 \<Rightarrow> u64 \<Rightarrow> u64 \<Rightarrow> u32 \<Rightarrow> nat option \<Rightarrow> others list \<Rightarrow> runtime \<Rightarrow> sg_error rt" where
  "sgVaddF32Async sys c a b n h ws r =
     result (stream_submit sys h SG_ENGINE_COMPUTE ((make_cmd SG_OP_VADD_F32)\<lparr>dst := c, src0 := a, src1 := b, arg0 := n\<rparr>) 0 ws r)"

definition sgVaddF32 :: "host_sys \<Rightarrow> u64 \<Rightarrow> u64 \<Rightarrow> u64 \<Rightarrow> u32 \<Rightarrow> others list \<Rightarrow> runtime \<Rightarrow> sg_error rt" where
  "sgVaddF32 sys c a b n ws r = sgVaddF32Async sys c a b n None ws r"

definition sgGemmF32Async :: "host_sys \<Rightarrow> u64 \<Rightarrow> u64 \<Rightarrow> u64 \<Rightarrow> u32 \<Rightarrow> u32 \<Rightarrow> u32 \<Rightarrow> nat option \<Rightarrow> others list \<Rightarrow> runtime \<Rightarrow> sg_error rt" where
  "sgGemmF32Async sys c a b m n k h ws r =
     result (stream_submit sys h SG_ENGINE_COMPUTE
       ((make_cmd SG_OP_GEMM_F32)\<lparr>dst := c, src0 := a, src1 := b, arg0 := m, arg1 := n, arg2 := k\<rparr>) 0 ws r)"

definition sgGemmF32 :: "host_sys \<Rightarrow> u64 \<Rightarrow> u64 \<Rightarrow> u64 \<Rightarrow> u32 \<Rightarrow> u32 \<Rightarrow> u32 \<Rightarrow> others list \<Rightarrow> runtime \<Rightarrow> sg_error rt" where
  "sgGemmF32 sys c a b m n k ws r = sgGemmF32Async sys c a b m n k None ws r"

section \<open>Synchronization and telemetry\<close>

fun sgSetSyncPolicy :: "sg_sync_policy \<Rightarrow> runtime \<Rightarrow> sg_error \<times> runtime" where
  "sgSetSyncPolicy SG_SYNC_DEFAULT r = (SG_OK, r\<lparr>rt_sync_flags := SG_WAIT_DEFAULT\<rparr>)"
| "sgSetSyncPolicy SG_SYNC_SPIN r = (SG_OK, r\<lparr>rt_sync_flags := SG_WAIT_SPIN\<rparr>)"
| "sgSetSyncPolicy SG_SYNC_BLOCK r = (SG_OK, r\<lparr>rt_sync_flags := SG_WAIT_BLOCK\<rparr>)"
| "sgSetSyncPolicy SG_SYNC_OTHER r = (SG_ERR_INVALID_VALUE, r)"

definition sgDeviceSynchronize :: "host_sys \<Rightarrow> others list \<Rightarrow> runtime \<Rightarrow> sg_error rt" where
  "sgDeviceSynchronize sys ws r = (if rt_fd r < 0 then Some (SG_ERR_NOT_INITIALIZED, ws, r) else wait_all sys ws r)"

record sg_stats =
  gs_num_engines :: u32
  gs_engine_busy_cycles :: "u32 \<Rightarrow> u64"
  gs_engine_wait_cycles :: "u32 \<Rightarrow> u64"
  gs_engine_idle_cycles :: "u32 \<Rightarrow> u64"
  gs_engine_cmds :: "u32 \<Rightarrow> u64"
  gs_engine_batches :: "u32 \<Rightarrow> u64"
  gs_engine_irqs :: "u32 \<Rightarrow> u64"
  gs_engine_sleep_cycles :: "u32 \<Rightarrow> u64"
  gs_engine_wakeups :: "u32 \<Rightarrow> u64"
  gs_engine_missed_doorbells :: "u32 \<Rightarrow> u64"
  gs_engine_cpu_ns :: "u32 \<Rightarrow> u64"
  gs_engine_faults :: "u32 \<Rightarrow> u64"
  gs_engine_preempts :: "u32 \<Rightarrow> u64"
  gs_engine_tlb_hits :: "u32 \<Rightarrow> u64"
  gs_engine_tlb_misses :: "u32 \<Rightarrow> u64"
  gs_driver_submits :: u64
  gs_driver_waits :: u64
  gs_waits_spun :: u64
  gs_waits_blocked :: u64
  gs_wake_latency_ns :: u64
  gs_lock_wait_ns :: u64
  gs_driver_stalls :: u64
  gs_staging_waits :: u64
  gs_bytes_h2d :: u64
  gs_bytes_d2h :: u64
  gs_bytes_direct :: u64
  gs_bytes_staged :: u64
  gs_um_migrations :: u64
  gs_um_prefetches :: u64
  gs_um_evictions :: u64
  gs_um_writebacks :: u64
  gs_um_bytes_migrated :: u64
  gs_um_host_faults :: u64
  gs_um_host_fault_ns :: u64

definition SG_MAX_ENGINES_RT :: u32 where "SG_MAX_ENGINES_RT = 4"

definition copy_stats :: "stats_args \<Rightarrow> sg_stats" where
  "copy_stats s =
     (let per = (\<lambda>f e. if e < ss_num_engines s \<and> e < SG_MAX_ENGINES_RT then f s e else 0) in
      \<lparr>gs_num_engines = ss_num_engines s, gs_engine_busy_cycles = per ss_busy_cycles, gs_engine_wait_cycles = per ss_wait_cycles,
       gs_engine_idle_cycles = per ss_idle_cycles, gs_engine_cmds = per ss_cmds_executed, gs_engine_batches = per ss_batches,
       gs_engine_irqs = per ss_irqs, gs_engine_sleep_cycles = per ss_sleep_cycles, gs_engine_wakeups = per ss_wakeups,
       gs_engine_missed_doorbells = per ss_missed_doorbells, gs_engine_cpu_ns = per ss_cpu_ns, gs_engine_faults = per ss_faults,
       gs_engine_preempts = per ss_preempts, gs_engine_tlb_hits = per ss_tlb_hits, gs_engine_tlb_misses = per ss_tlb_misses,
       gs_driver_submits = ss_submits s, gs_driver_waits = ss_waits s, gs_waits_spun = ss_waits_spun s, gs_waits_blocked = ss_waits_blocked s,
       gs_wake_latency_ns = ss_wake_latency_ns s, gs_lock_wait_ns = ss_lock_wait_ns s, gs_driver_stalls = ss_stalls s,
       gs_staging_waits = ss_staging_waits s, gs_bytes_h2d = ss_bytes_h2d s, gs_bytes_d2h = ss_bytes_d2h s,
       gs_bytes_direct = ss_bytes_direct s, gs_bytes_staged = ss_bytes_staged s, gs_um_migrations = ss_migrations s,
       gs_um_prefetches = ss_prefetches s, gs_um_evictions = ss_evictions s, gs_um_writebacks = ss_writebacks s,
       gs_um_bytes_migrated = ss_bytes_migrated s, gs_um_host_faults = ss_host_faults s, gs_um_host_fault_ns = ss_host_fault_ns s\<rparr>)"

definition sgGetStats :: "host_sys \<Rightarrow> bool \<Rightarrow> others list \<Rightarrow> runtime \<Rightarrow> (sg_error \<times> sg_stats option) rt" where
  "sgGetStats sys has_out ws r =
     (if rt_fd r < 0 then Some ((SG_ERR_NOT_INITIALIZED, None), ws, r)
      else if \<not> has_out then Some ((SG_ERR_INVALID_VALUE, None), ws, r)
      else map_option (\<lambda>((rc, rep), x). ((from_errno rc, case rep of Stats s \<Rightarrow> Some (copy_stats s) | _ \<Rightarrow> None), x)) (ioctl sys (SG_IOC_STATS (Some ())) ws r))"

definition sgResetStats :: "host_sys \<Rightarrow> others list \<Rightarrow> runtime \<Rightarrow> sg_error rt" where
  "sgResetStats sys ws r = (if rt_fd r < 0 then Some (SG_ERR_NOT_INITIALIZED, ws, r) else status sys SG_IOC_RESET_STATS ws r)"

fun sgErrorString :: "sg_error \<Rightarrow> string" where
  "sgErrorString SG_OK = ''no error''"
| "sgErrorString SG_ERR_NOT_INITIALIZED = ''runtime not initialized''"
| "sgErrorString SG_ERR_ALREADY_INITIALIZED = ''runtime already initialized''"
| "sgErrorString SG_ERR_INVALID_VALUE = ''invalid value''"
| "sgErrorString SG_ERR_OUT_OF_MEMORY = ''out of device memory''"
| "sgErrorString SG_ERR_INVALID_ADDRESS = ''invalid device address''"
| "sgErrorString SG_ERR_DEVICE = ''device error''"
| "sgErrorString SG_ERR_UNKNOWN = ''unknown error''"

end
