(* ===== verification/Streams.thy ===== *)
theory Streams
  imports Runtime
begin

text \<open>
  What the runtime promises about streams: commands of one stream run in order also across engines, because of the waits
  submitted ahead of each command; priorities are kept apart on the channels; and pinned memory is given back only when the
  device is done with it.
\<close>

section \<open>Everything a submission enqueues is on its ring\<close>

definition on_ring :: "u32 \<Rightarrow> u32 \<Rightarrow> driver \<Rightarrow> driver \<Rightarrow> bool" where
  "on_ring e c d d' \<longleftrightarrow> (\<exists>cs. dr_log d' = dr_log d @ map (\<lambda>k. (e, c, k)) cs)"

lemma on_ring_refl: "dr_log d' = dr_log d \<Longrightarrow> on_ring e c d d'"
  by (auto simp: on_ring_def intro: exI [of _ "[]"])

lemma on_ring_trans:
  assumes "on_ring e c d1 d2" "on_ring e c d2 d3"
  shows "on_ring e c d1 d3"
proof -
  obtain cs ds where "dr_log d2 = dr_log d1 @ map (\<lambda>k. (e, c, k)) cs" "dr_log d3 = dr_log d2 @ map (\<lambda>k. (e, c, k)) ds"
    using assms by (auto simp: on_ring_def)
  then have "dr_log d3 = dr_log d1 @ map (\<lambda>k. (e, c, k)) (cs @ ds)" by simp
  then show ?thesis unfolding on_ring_def by blast
qed

lemma on_ring_cfg: "on_ring e c d d' \<Longrightarrow> cfg d1 = cfg d \<Longrightarrow> cfg d2 = cfg d' \<Longrightarrow> on_ring e c d1 d2"
  by (simp add: on_ring_def cfg_def)

definition ringed :: "u32 \<Rightarrow> u32 \<Rightarrow> driver \<Rightarrow> others list \<times> driver \<Rightarrow> bool" where
  "ringed e c d x \<longleftrightarrow> on_ring e c d (snd x) \<and> hands_off (fst x)"

lemma ringed_trans: "on_ring e c d d1 \<Longrightarrow> ringed e c d1 x \<Longrightarrow> ringed e c d x"
  by (auto simp: ringed_def intro: on_ring_trans)

lemma ringed_cfg: "cfg d1 = cfg d \<Longrightarrow> hands_off ws \<Longrightarrow> ringed e c d (ws, d1)"
  by (auto simp: ringed_def cfg_def intro: on_ring_refl)

lemma enqueue_ringed: "enqueue e c cmd ws d = Some (f, x) \<Longrightarrow> hands_off ws \<Longrightarrow> ringed e c d x"
  using enqueue_log [of e c cmd ws d f "fst x" "snd x"] by (auto simp: ringed_def on_ring_def logged_def cfg_def intro: exI [of _ "[cmd]"])

lemma slot_then_ringed:
  assumes "acquire_slot ws d = Some ((s, prev), ws1, d1)" "wait_fence prev st fl ws1 d1 = Some (rc, ws2, d2)" "hands_off ws"
  shows "hands_off ws2 \<and> cfg d2 = cfg d"
  using acquire_slot_cfg [OF assms(1,3)] wait_fence_cfg [OF assms(2)] by auto

definition h2d_ring :: "submit_args \<Rightarrow> u64 \<Rightarrow> others list \<Rightarrow> driver \<Rightarrow> submitted \<Rightarrow> bool" where
  "h2d_ring a off ws d r \<longleftrightarrow> (hands_off ws \<longrightarrow> ringed (sa_engine a) (sa_channel a) d (snd r))"

lemma h2d_loop_ringed:
  assumes "h2d_loop a off ws d = Some r"
  shows "h2d_ring a off ws d r"
proof (rule h2d_loop.raw_induct [where P = h2d_ring, OF _ assms])
  fix loop a off ws d r
  assume IH: "\<And>a off ws d r. loop a off ws d = Some r \<Longrightarrow> h2d_ring a off ws d r"
  assume body: "(let cmd = sa_cmd a; total = cmd_size cmd; e = sa_engine a; c = sa_channel a in
      if \<not> off < total then Some ((None, a), ws, d)
      else Option.bind (acquire_slot ws d) (\<lambda>((s, prev), ws1, d1).
        Option.bind (wait_fence prev True SG_WAIT_DEFAULT ws1 d1) (\<lambda>(rc, ws2, d2).
          if rc \<noteq> None then Some ((rc, a), ws2, release_slot s prev d2)
          else let n = min (dr_chunk d) (total - off); d3 = host_copy (slot_ptr d2 s) (sa_host_ptr a + off) n d2 in
            Option.bind (enqueue e c (cmd\<lparr>src0 := slot_ptr d2 s, dst := dst cmd + off, cmd_size := n\<rparr>) ws2 d3) (\<lambda>(f, ws3, d4).
              loop (a\<lparr>sa_fence := f\<rparr>) (off + dr_chunk d) ws3
                (release_slot s \<lparr>fn_engine = e, fn_channel = c, fn_value = f\<rparr> d4))))) = Some r"
  show "h2d_ring a off ws d r"
    unfolding h2d_ring_def
  proof
    assume h: "hands_off ws"
    show "ringed (sa_engine a) (sa_channel a) d (snd r)"
    proof (cases "off < cmd_size (sa_cmd a)")
      case False
      then show ?thesis using body h by (auto intro!: ringed_cfg)
    next
      case True
      with body obtain s prev ws1 d1 rc ws2 d2 where w: "acquire_slot ws d = Some ((s, prev), ws1, d1)"
        "wait_fence prev True SG_WAIT_DEFAULT ws1 d1 = Some (rc, ws2, d2)" by (auto simp: Let_def bind_eq_Some_conv)
      note c = slot_then_ringed [OF w h]
      show ?thesis
      proof (cases rc)
        case None
        with body True w obtain cmd d3 f ws3 d4 a' off' where en: "enqueue (sa_engine a) (sa_channel a) cmd ws2 d3 = Some (f, ws3, d4)" "cfg d3 = cfg d2"
          and lo: "loop a' off' ws3 (release_slot s \<lparr>fn_engine = sa_engine a, fn_channel = sa_channel a, fn_value = f\<rparr> d4) = Some r"
            "sa_engine a' = sa_engine a" "sa_channel a' = sa_channel a"
          by (fastforce simp: Let_def bind_eq_Some_conv)
        note R = enqueue_ringed [OF en(1)] IH [OF lo(1)]
        then have x: "on_ring (sa_engine a) (sa_channel a) d3 d4" "hands_off ws3" using c by (auto simp: ringed_def)
        have "on_ring (sa_engine a) (sa_channel a) d (release_slot s \<lparr>fn_engine = sa_engine a, fn_channel = sa_channel a, fn_value = f\<rparr> d4)"
          using on_ring_cfg [OF x(1), of d] c en(2) by simp
        then show ?thesis using R(2) x(2) lo(2,3) ringed_trans by (auto simp: h2d_ring_def)
      next
        case (Some er)
        then show ?thesis using body True w c by (auto simp: Let_def intro!: ringed_cfg)
      qed
    qed
  qed
qed

lemma d2h_issue_ringed:
  assumes "d2h_issue a st ws d = Some (y, x)" "hands_off ws"
  shows "ringed (sa_engine a) (sa_channel a) d x"
proof -
  from assms(1) obtain s prev ws1 d1 rc ws2 d2 where w: "acquire_slot ws d = Some ((s, prev), ws1, d1)"
    "wait_fence prev True SG_WAIT_DEFAULT ws1 d1 = Some (rc, ws2, d2)" by (auto simp: d2h_issue_def Let_def bind_eq_Some_conv)
  note c = slot_then_ringed [OF w assms(2)]
  show ?thesis
  proof (cases rc)
    case None
    with assms(1) w obtain cmd f where "enqueue (sa_engine a) (sa_channel a) cmd ws2 d2 = Some (f, x)"
      by (auto simp: d2h_issue_def Let_def bind_eq_Some_conv)
    from enqueue_ringed [OF this] c show ?thesis by (auto simp: ringed_def on_ring_def cfg_def)
  next
    case (Some er)
    then show ?thesis using assms(1) w c by (auto simp: d2h_issue_def Let_def intro!: ringed_cfg)
  qed
qed

definition fill_ring :: "submit_args \<Rightarrow> u64 \<Rightarrow> d2h_state \<Rightarrow> others list \<Rightarrow> driver \<Rightarrow> (errno option \<times> d2h_state) \<times> others list \<times> driver \<Rightarrow> bool" where
  "fill_ring a lim st ws d r \<longleftrightarrow> (hands_off ws \<longrightarrow> ringed (sa_engine a) (sa_channel a) d (snd r))"

lemma d2h_fill_ringed:
  assumes "d2h_fill a lim st ws d = Some r"
  shows "fill_ring a lim st ws d r"
proof (rule d2h_fill.raw_induct [where P = fill_ring, OF _ assms])
  fix loop a lim st ws d r
  assume IH: "\<And>a lim st ws d r. loop a lim st ws d = Some r \<Longrightarrow> fill_ring a lim st ws d r"
  assume body: "(if \<not> ds_issued st < lim then Some ((None, st), ws, d)
      else Option.bind (d2h_issue a st ws d) (\<lambda>((rc, st1), ws1, d1).
        if rc \<noteq> None then Some ((rc, st1), ws1, d1) else loop a lim st1 ws1 d1)) = Some r"
  show "fill_ring a lim st ws d r"
    unfolding fill_ring_def
  proof
    assume h: "hands_off ws"
    show "ringed (sa_engine a) (sa_channel a) d (snd r)"
    proof (cases "ds_issued st < lim")
      case False
      then show ?thesis using body h by (auto intro!: ringed_cfg)
    next
      case True
      with body obtain rc st1 ws1 d1 where i: "d2h_issue a st ws d = Some ((rc, st1), ws1, d1)"
        and k: "(if rc \<noteq> None then Some ((rc, st1), ws1, d1) else loop a lim st1 ws1 d1) = Some r" by (auto simp: bind_eq_Some_conv)
      note R = d2h_issue_ringed [OF i h]
      show ?thesis using k R IH [of a lim st1 ws1 d1 r] ringed_trans [of "sa_engine a" "sa_channel a" d d1 "snd r"]
        by (auto simp: fill_ring_def ringed_def split: if_splits)
    qed
  qed
qed

definition d2h_ring :: "submit_args \<Rightarrow> u64 \<Rightarrow> d2h_state \<Rightarrow> others list \<Rightarrow> driver \<Rightarrow> submitted \<Rightarrow> bool" where
  "d2h_ring a n st ws d r \<longleftrightarrow> (hands_off ws \<longrightarrow> ringed (sa_engine a) (sa_channel a) d (snd r))"

lemma d2h_loop_ringed:
  assumes "d2h_loop a nchunks st ws d = Some r"
  shows "d2h_ring a nchunks st ws d r"
proof (rule d2h_loop.raw_induct [where P = d2h_ring, OF _ assms])
  fix loop a nchunks st ws d r
  assume IH: "\<And>a nchunks st ws d r. loop a nchunks st ws d = Some r \<Longrightarrow> d2h_ring a nchunks st ws d r"
  assume body: "(let e = sa_engine a; c = sa_channel a; total = cmd_size (sa_cmd a) in
      if \<not> ds_done st < nchunks then Some ((None, a\<lparr>sa_fence := published d e c\<rparr>), ws, d)
      else let (s, f) = hd (ds_window st); st1 = st\<lparr>ds_window := tl (ds_window st)\<rparr>;
               fn = \<lparr>fn_engine = e, fn_channel = c, fn_value = f\<rparr>; off = ds_done st * dr_chunk d in
        Option.bind (wait_fence fn False SG_WAIT_DEFAULT ws d) (\<lambda>(rc, ws1, d1).
          if rc \<noteq> None then Some ((rc, a), ws1, release_slot s fn d1)
          else let n = min (dr_chunk d) (total - off);
                   d2 = release_slot s fn (host_copy (sa_host_ptr a + off) (slot_ptr d1 s) n d1);
                   st2 = st1\<lparr>ds_done := ds_done st1 + 1\<rparr> in
            if ds_issued st2 < nchunks
            then Option.bind (d2h_issue a st2 ws1 d2) (\<lambda>((rc, st3), ws2, d3).
              if rc \<noteq> None then Some ((rc, a), ws2, d3) else loop a nchunks st3 ws2 d3)
            else loop a nchunks st2 ws1 d2)) = Some r"
  show "d2h_ring a nchunks st ws d r"
    unfolding d2h_ring_def
  proof
    assume h: "hands_off ws"
    show "ringed (sa_engine a) (sa_channel a) d (snd r)"
    proof (cases "ds_done st < nchunks")
      case False
      then show ?thesis using body h by (auto intro!: ringed_cfg)
    next
      case True
      obtain s f where w: "hd (ds_window st) = (s, f)" by (cases "hd (ds_window st)")
      let ?fn = "\<lparr>fn_engine = sa_engine a, fn_channel = sa_channel a, fn_value = f\<rparr>" and ?off = "ds_done st * dr_chunk d"
      let ?st2 = "st\<lparr>ds_window := tl (ds_window st), ds_done := ds_done st + 1\<rparr>"
      define K where "K ws1 d2 = (if ds_issued ?st2 < nchunks
            then Option.bind (d2h_issue a ?st2 ws1 d2) (\<lambda>((rc, st3), ws2, d3).
              if rc \<noteq> None then Some ((rc, a), ws2, d3) else loop a nchunks st3 ws2 d3)
            else loop a nchunks ?st2 ws1 d2)" for ws1 d2
      have bnd: "Option.bind (wait_fence ?fn False SG_WAIT_DEFAULT ws d) (\<lambda>(rc, ws1, d1).
          if rc \<noteq> None then Some ((rc, a), ws1, release_slot s ?fn d1)
          else K ws1 (release_slot s ?fn (host_copy (sa_host_ptr a + ?off) (slot_ptr d1 s) (min (dr_chunk d) (cmd_size (sa_cmd a) - ?off)) d1))) = Some r"
        using body True w by (simp add: Let_def K_def cong: if_cong)
      then obtain rc ws1 d1 where wt: "wait_fence ?fn False SG_WAIT_DEFAULT ws d = Some (rc, ws1, d1)" by (auto simp: bind_eq_Some_conv)
      note c = wait_fence_cfg [OF wt h]
      have K: "ringed (sa_engine a) (sa_channel a) d (snd r)" if k: "K ws1 d2 = Some r" and d2: "cfg d2 = cfg d" for d2
      proof (cases "ds_issued ?st2 < nchunks")
        case False
        then have "d2h_ring a nchunks ?st2 ws1 d2 r" using k IH by (simp add: K_def)
        then show ?thesis using c d2 by (auto simp: d2h_ring_def ringed_def on_ring_def cfg_def)
      next
        case True
        with k obtain rc st3 ws2 d3 where i: "d2h_issue a ?st2 ws1 d2 = Some ((rc, st3), ws2, d3)"
          and l: "(if rc \<noteq> None then Some ((rc, a), ws2, d3) else loop a nchunks st3 ws2 d3) = Some r" by (auto simp: K_def bind_eq_Some_conv)
        note R = d2h_issue_ringed [OF i conjunct2 [OF c]]
        have o: "on_ring (sa_engine a) (sa_channel a) d d3" using R d2 by (auto simp: ringed_def on_ring_def cfg_def)
        show ?thesis using l o R IH [of a nchunks st3 ws2 d3 r] ringed_trans [OF o, of "snd r"]
          by (auto simp: d2h_ring_def ringed_def split: if_splits)
      qed
      show ?thesis
      proof (cases rc)
        case None
        then show ?thesis using bnd wt K c by simp
      next
        case (Some er)
        then show ?thesis using bnd wt c by (auto intro!: ringed_cfg)
      qed
    qed
  qed
qed

lemma submit_one_ringed: "submit_one a cmd ws d = Some (y, x) \<Longrightarrow> hands_off ws \<Longrightarrow> ringed (sa_engine a) (sa_channel a) d x"
  by (auto simp: submit_one_def bind_eq_Some_conv dest: enqueue_ringed)

lemma count_bytes_cfg [simp]: "cfg (count_bytes f d) = cfg d"
  by (simp add: count_bytes_def)

lemma direct_ringed:
  assumes "Option.bind (submit_one a cmd ws (count_bytes f d)) (\<lambda>((rc, a1), ws1, d2). Some ((rc, a1\<lparr>sa_out_flags := sa_out_flags a1 OR SG_SUBMIT_DIRECT\<rparr>), ws1, count_bytes k d2)) = Some (y, x)" "hands_off ws"
  shows "ringed (sa_engine a) (sa_channel a) d x"
  using assms submit_one_ringed [OF _ assms(2)] by (fastforce simp: bind_eq_Some_conv ringed_def on_ring_def count_bytes_def)

lemma submit_h2d_ringed:
  assumes "submit_h2d a ws d = Some (y, x)" "hands_off ws"
  shows "ringed (sa_engine a) (sa_channel a) d x"
proof -
  have "ringed (sa_engine a) (sa_channel a) d x" if "h2d_loop a 0 ws (count_bytes f (count_bytes g d)) = Some (y, x)" for f g
    using h2d_loop_ringed [OF that] assms(2) by (simp add: h2d_ring_def ringed_def on_ring_def count_bytes_def)
  then show ?thesis using assms direct_ringed [where y = y and x = x, OF _ assms(2)]
    by (auto simp: submit_h2d_def Let_def intro!: ringed_cfg split: if_splits)
qed

lemma submit_d2h_ringed:
  assumes "submit_d2h a ws d = Some (y, x)" "hands_off ws"
  shows "ringed (sa_engine a) (sa_channel a) d x"
proof -
  have "ringed (sa_engine a) (sa_channel a) d x"
    if t: "Option.bind (d2h_fill a lim st0 ws (count_bytes f (count_bytes g d))) (\<lambda>((rc, st), ws1, d3).
      if rc \<noteq> None then Some ((rc, a), ws1, d3) else d2h_loop a n st ws1 d3) = Some (y, x)" for f g lim st0 n
  proof -
    from t obtain rc st ws1 d3 where fi: "d2h_fill a lim st0 ws (count_bytes f (count_bytes g d)) = Some ((rc, st), ws1, d3)"
      and k: "(if rc \<noteq> None then Some ((rc, a), ws1, d3) else d2h_loop a n st ws1 d3) = Some (y, x)" by (auto simp: bind_eq_Some_conv)
    have o: "on_ring (sa_engine a) (sa_channel a) d d3" "hands_off ws1"
      using d2h_fill_ringed [OF fi] assms(2) by (simp_all add: fill_ring_def ringed_def on_ring_def count_bytes_def)
    show ?thesis using k o d2h_loop_ringed [of a n st ws1 d3 "(y, x)"] ringed_trans [OF o(1), of x]
      by (auto simp: d2h_ring_def ringed_def split: if_splits)
  qed
  then show ?thesis using assms direct_ringed [where y = y and x = x, OF _ assms(2)] unfolding submit_d2h_def Let_def
    by (auto intro!: ringed_cfg cong: if_cong split: if_splits)
qed

lemma submit_body_ringed:
  assumes "submit_body a ws d = Some (y, x)" "hands_off ws"
  shows "ringed (sa_engine a) (sa_channel a) d x"
  using assms submit_one_ringed [where y = y and x = x, OF _ assms(2)] submit_h2d_ringed [where y = y and x = x, OF _ assms(2)] submit_d2h_ringed [where y = y and x = x, OF _ assms(2)]
  by (auto simp: submit_body_def Let_def intro!: ringed_cfg split: if_splits)

lemma do_submit_ringed:
  assumes "do_submit a ws d = Some (y, ws', d')" "hands_off ws"
  shows "ringed (sa_engine a) (sa_channel a) d (ws', d')"
proof (cases "submit_refused a d")
  case (Some er)
  then show ?thesis using assms by (auto simp: do_submit_def intro!: ringed_cfg)
next
  case None
  then obtain ws1 d1 d2 where l: "lock_channel (sa_engine a) (sa_channel a) ws (d\<lparr>dr_ct := (dr_ct d)\<lparr>ct_submits := ct_submits (dr_ct d) + 1\<rparr>\<rparr>) = Some (ws1, d1)"
    and b: "submit_body (a\<lparr>sa_out_flags := 0\<rparr>) ws1 d1 = Some (y, ws', d2)" and u: "d' = unlock_channel (sa_engine a) (sa_channel a) d2"
    using assms(1) by (auto simp: do_submit_def bind_eq_Some_conv)
  have "cfg d1 = cfg d" "hands_off ws1" using lock_channel_cfg [OF l assms(2)] by simp_all
  then show ?thesis using submit_body_ringed [OF b] u by (auto simp: ringed_def on_ring_def cfg_def unlock_channel_def)
qed

text \<open>A command that is not a copy between host and device: its fence is what the ring has published when the call returns.\<close>

definition is_plain :: "sg_cmd \<Rightarrow> bool" where
  "is_plain cmd \<longleftrightarrow> opcode cmd \<noteq> SG_OP_COPY_H2D \<and> opcode cmd \<noteq> SG_OP_COPY_D2H"

lemma enqueue_published: "enqueue e c cmd ws d = Some (f, ws', d') \<Longrightarrow> published d' e c = f"
  by (auto simp: enqueue_def Let_def publish_def published_def set2_def split: prod.splits option.splits)

lemma submit_one_published: "submit_one a cmd ws d = Some ((None, a'), ws', d') \<Longrightarrow> published d' (sa_engine a) (sa_channel a) = sa_fence a'"
  by (auto simp: submit_one_def bind_eq_Some_conv dest: enqueue_published)

lemma do_submit_plain:
  assumes "do_submit a ws d = Some ((None, a'), ws', d')" "hands_off ws" "is_plain (sa_cmd a)"
  shows "dr_log d' = dr_log d @ [(sa_engine a, sa_channel a, sa_cmd a)] \<and> published d' (sa_engine a) (sa_channel a) = sa_fence a'"
proof -
  have "submit_refused a d = None" using assms(1) by (cases "submit_refused a d") (auto simp: do_submit_def)
  then obtain ws1 d1 d2 where l: "lock_channel (sa_engine a) (sa_channel a) ws (d\<lparr>dr_ct := (dr_ct d)\<lparr>ct_submits := ct_submits (dr_ct d) + 1\<rparr>\<rparr>) = Some (ws1, d1)"
    and b: "submit_body (a\<lparr>sa_out_flags := 0\<rparr>) ws1 d1 = Some ((None, a'), ws', d2)" and u: "d' = unlock_channel (sa_engine a) (sa_channel a) d2"
    using assms(1) by (auto simp: do_submit_def bind_eq_Some_conv)
  have c: "cfg d1 = cfg d" "hands_off ws1" using lock_channel_cfg [OF l assms(2)] by simp_all
  have o: "submit_one (a\<lparr>sa_out_flags := 0\<rparr>) (sa_cmd a) ws1 d1 = Some ((None, a'), ws', d2)"
    using b assms(3) by (auto simp: submit_body_def Let_def is_plain_def split: if_splits)
  have "dr_log d2 = dr_log d @ [(sa_engine a, sa_channel a, sa_cmd a)]" using submit_one_log [OF o c(2)] c(1) by (simp add: cfg_def)
  then show ?thesis using submit_one_published [OF o] u by (simp add: unlock_channel_def published_def)
qed

section \<open>The submission port\<close>

text \<open>What streams need of the layer below: a submission that succeeds adds to the ring it names, and a plain command adds
  exactly itself, under a fence that the ring has then published.\<close>

locale submit_port =
  fixes port :: "u32 \<Rightarrow> u32 \<Rightarrow> sg_cmd \<Rightarrow> u64 \<Rightarrow> others list \<Rightarrow> 'r \<Rightarrow> ((errno + u64 \<times> bool) \<times> others list \<times> 'r) option"
    and hist :: "'r \<Rightarrow> (u32 \<times> u32 \<times> sg_cmd) list"
    and pub :: "'r \<Rightarrow> u32 \<Rightarrow> u32 \<Rightarrow> u64"
    and calm :: "others list \<Rightarrow> bool"
  assumes port_ring: "port e c cmd hp ws r = Some (Inr v, ws', r') \<Longrightarrow> calm ws \<Longrightarrow> \<exists>cs. hist r' = hist r @ map (\<lambda>k. (e, c, k)) cs"
    and port_calm: "port e c cmd hp ws r = Some (Inr v, ws', r') \<Longrightarrow> calm ws \<Longrightarrow> calm ws'"
    and port_plain: "port e c cmd hp ws r = Some (Inr (f, direct), ws', r') \<Longrightarrow> calm ws \<Longrightarrow> is_plain cmd \<Longrightarrow>
      hist r' = hist r @ [(e, c, cmd)] \<and> pub r' e c = f"
begin

lemma wait_plain: "is_plain (wait_cmd f)"
  by (simp add: is_plain_def wait_cmd_def make_cmd_def sg_ops)

text \<open>The waits go out in order, one for each fence of another ring, ahead of what follows.\<close>

lemma flush_hist:
  "flush_waits (\<lambda>w. port e c w hp) e c fs ws r = Some (None, ws', r') \<Longrightarrow> calm ws \<Longrightarrow>
    hist r' = hist r @ map (\<lambda>f. (e, c, wait_cmd f)) (filter (\<lambda>f. \<not> same_ring e c f) fs) \<and> calm ws'"
proof (induction fs arbitrary: ws r)
  case (Cons f fs)
  show ?case
  proof (cases "same_ring e c f")
    case True
    then show ?thesis using Cons by simp
  next
    case False
    with Cons.prems(1) obtain v ws1 r1 where p: "port e c (wait_cmd f) hp ws r = Some (Inr v, ws1, r1)"
      and k: "flush_waits (\<lambda>w. port e c w hp) e c fs ws1 r1 = Some (None, ws', r')"
      by (auto split: option.splits sum.splits prod.splits)
    obtain g direct where v: "v = (g, direct)" by (cases v)
    have "hist r1 = hist r @ [(e, c, wait_cmd f)]" using port_plain [OF p [unfolded v] Cons.prems(2) wait_plain] by simp
    then show ?thesis using Cons.IH [OF k port_calm [OF p Cons.prems(2)]] False by simp
  qed
qed simp

end

definition rt_driver :: "runtime \<Rightarrow> driver" where
  "rt_driver r = the (g_drv (rt_drv r))"

definition set_driver :: "driver \<Rightarrow> runtime \<Rightarrow> runtime" where
  "set_driver d r = r\<lparr>rt_drv := (rt_drv r)\<lparr>g_drv := Some d\<rparr>\<rparr>"

lemma set_driver_simps [simp]: "rt_driver (set_driver d r) = d" "rt_fd (set_driver d r) = rt_fd r" "get_stream h (set_driver d r) = get_stream h r"
  "rt_bind (set_driver d r) = rt_bind r" "rt_num_engines (set_driver d r) = rt_num_engines r" "rt_num_channels (set_driver d r) = rt_num_channels r"
  "g_drv (rt_drv (set_driver d r)) = Some d" "rt_streams (set_driver d r) = rt_streams r"
  by (simp_all add: rt_driver_def set_driver_def get_stream_def split: option.split)

lemma rt_driver_put_stream [simp]: "rt_driver (put_stream h s r) = rt_driver r" "rt_fd (put_stream h s r) = rt_fd r"
  by (simp_all add: rt_driver_def put_stream_def split: option.split)

lemma get_put_stream [simp]: "get_stream h (put_stream h s r) = Some s"
  by (simp add: get_stream_def put_stream_def split: option.split)

lemma ioctl_Some:
  assumes "ioctl sys req ws r = Some (a, ws', r')" "a \<noteq> (Some EBADF, Nothing)"
  obtains d d' where "rt_fd r = kFd" "g_drv (rt_drv r) = Some d" "request_body sys req ws d = Some (a, ws', d')" "r' = set_driver d' r"
  using assms by (auto simp: ioctl_def sg_drv_ioctl_def set_driver_def split: if_splits option.splits)

lemma raw_submit_ok:
  assumes "raw_submit sys e c cmd hp ws r = Some (Inr (f, direct), ws', r')"
  obtains d a d' where "rt_fd r = kFd" "g_drv (rt_drv r) = Some d" "r' = set_driver d' r" "sa_fence a = f" "direct = (sa_out_flags a AND SG_SUBMIT_DIRECT \<noteq> 0)"
    "do_submit \<lparr>sa_cmd = cmd, sa_host_ptr = hp, sa_fence = 0, sa_out_flags = 0, sa_engine = e, sa_channel = c\<rparr> ws d = Some ((None, a), ws', d')"
proof -
  let ?a = "\<lparr>sa_cmd = cmd, sa_host_ptr = hp, sa_fence = 0, sa_out_flags = 0, sa_engine = e, sa_channel = c\<rparr>"
  from assms obtain a where i: "ioctl sys (SG_IOC_SUBMIT (Some ?a)) ws r = Some ((None, Submitted a), ws', r')" "f = sa_fence a"
    "direct = (sa_out_flags a AND SG_SUBMIT_DIRECT \<noteq> 0)"
    by (auto simp: raw_submit_def split: option.splits prod.splits reply.splits)
  from i(1) obtain d d' where "rt_fd r = kFd" "g_drv (rt_drv r) = Some d" "request_body sys (SG_IOC_SUBMIT (Some ?a)) ws d = Some ((None, Submitted a), ws', d')"
    "r' = set_driver d' r" by (rule ioctl_Some) simp
  with i that show ?thesis by auto
qed

interpretation port: submit_port "raw_submit sys" "\<lambda>r. dr_log (rt_driver r)" "\<lambda>r. published (rt_driver r)" hands_off
  for sys
proof
  fix e c cmd hp ws r v ws' r'
  assume p: "raw_submit sys e c cmd hp ws r = Some (Inr v, ws', r')" and h: "hands_off ws"
  obtain f direct where v: "v = (f, direct)" by (cases v)
  from p [unfolded v] obtain d a d' where d: "g_drv (rt_drv r) = Some d" "r' = set_driver d' r"
    "do_submit \<lparr>sa_cmd = cmd, sa_host_ptr = hp, sa_fence = 0, sa_out_flags = 0, sa_engine = e, sa_channel = c\<rparr> ws d = Some ((None, a), ws', d')"
    by (rule raw_submit_ok)
  from do_submit_ringed [OF d(3) h] d(1,2) show "\<exists>cs. dr_log (rt_driver r') = dr_log (rt_driver r) @ map (\<lambda>k. (e, c, k)) cs" "hands_off ws'"
    by (simp_all add: ringed_def on_ring_def rt_driver_def)
next
  fix e c cmd hp ws r f direct ws' r'
  assume p: "raw_submit sys e c cmd hp ws r = Some (Inr (f, direct), ws', r')" and h: "hands_off ws" and pl: "is_plain cmd"
  from p obtain d a d' where d: "g_drv (rt_drv r) = Some d" "r' = set_driver d' r" "sa_fence a = f"
    "do_submit \<lparr>sa_cmd = cmd, sa_host_ptr = hp, sa_fence = 0, sa_out_flags = 0, sa_engine = e, sa_channel = c\<rparr> ws d = Some ((None, a), ws', d')"
    by (rule raw_submit_ok)
  from do_submit_plain [OF d(4) h] pl d(1-3) show "dr_log (rt_driver r') = dr_log (rt_driver r) @ [(e, c, cmd)] \<and> published (rt_driver r') e c = f"
    by (simp add: rt_driver_def)
qed

section \<open>Stream order\<close>

definition depends_on :: "sg_stream \<Rightarrow> sgFence list" where
  "depends_on s = sm_extra_waits s @ (if sm_has_tail s then [sm_tail s] else [])"


text \<open>C39: An empty copy loses the order. A copy of zero bytes from pageable host memory succeeds without a command, with fence 0, and
  becomes the stream's tail in place of the command before it on that ring. What the stream submits next on another engine
  waits for fence 0, which every channel has retired.\<close>

theorem empty_copy_loses_tail:
  assumes "rt_fd r = kFd" "g_drv (rt_drv r) = Some d" "get_stream h r = Some s" "sm_extra_waits s = []" "sm_has_tail s" "same_ring e (sm_channel s) (sm_tail s)"
    and "opcode cmd = SG_OP_COPY_H2D" "cmd_size cmd = 0" "host \<noteq> 0" "owns d (dst cmd) 0" "\<not> pinned d host 0" "rd_mode (dr_ring d) = SG_SUBMIT_MUTEX \<longrightarrow> \<not> rd_lock (dr_ring d) e (sm_channel s)"
    and "submit_refused \<lparr>sa_cmd = cmd, sa_host_ptr = host, sa_fence = 0, sa_out_flags = 0, sa_engine = e, sa_channel = sm_channel s\<rparr> d = None"
  shows "\<exists>r'. stream_submit sys h e cmd host ws r = Some ((SG_OK, Some (0, False)), ws, r') \<and>
    dr_log (rt_driver r') = dr_log d \<and> retired (rt_driver r') e (sm_channel s) = retired d e (sm_channel s) \<and>
    get_stream h r' = Some (s\<lparr>sm_tail := \<lparr>fn_engine = e, fn_channel = sm_channel s, fn_value = 0\<rparr>\<rparr>) \<and>
    (\<forall>x. passed \<lparr>fn_engine = e, fn_channel = sm_channel s, fn_value = 0\<rparr> x)"
proof -
  let ?a = "\<lparr>sa_cmd = cmd, sa_host_ptr = host, sa_fence = 0, sa_out_flags = 0, sa_engine = e, sa_channel = sm_channel s\<rparr>"
  let ?ct = "(dr_ct d)\<lparr>ct_submits := ct_submits (dr_ct d) + 1\<rparr>"
  define d1 where "d1 = (if rd_mode (dr_ring d) = SG_SUBMIT_MUTEX
    then d\<lparr>dr_ct := ?ct, dr_ring := (dr_ring d)\<lparr>rd_lock := set2 e (sm_channel s) True (rd_lock (dr_ring d))\<rparr>\<rparr> else d\<lparr>dr_ct := ?ct\<rparr>)"
  define d2 where "d2 = count_bytes (\<lambda>k. k\<lparr>ct_bytes_staged := ct_bytes_staged k + 0\<rparr>) (count_bytes (\<lambda>k. k\<lparr>ct_bytes_h2d := ct_bytes_h2d k + 0\<rparr>) d1)"
  define d3 where "d3 = unlock_channel e (sm_channel s) d2"
  have lock: "lock_channel e (sm_channel s) ws (d\<lparr>dr_ct := ?ct\<rparr>) = Some (ws, d1)"
    using assms(12) by (simp add: lock_channel_def d1_def await_lock.simps)
  have same: "owns d1 x n = owns d x n" "pinned (count_bytes k d1) x n = pinned d x n" for x n k by (simp_all add: owns_def pinned_def d1_def count_bytes_def)
  have "submit_h2d ?a ws d1 = Some ((None, ?a), ws, d2)"
    using assms(8-11) by (simp add: submit_h2d_def Let_def same h2d_loop.simps d2_def)
  then have du: "do_submit ?a ws d = Some ((None, ?a), ws, d3)"
    using assms(7,13) lock by (simp add: do_submit_def submit_body_def Let_def sg_ops d3_def)
  have d3: "dr_log d3 = dr_log d" "dr_dev d3 = dr_dev d" by (simp_all add: d3_def unlock_channel_def d2_def d1_def count_bytes_def)
  have raw: "raw_submit sys e (sm_channel s) cmd host ws x = Some (Inr (0, False), ws, set_driver d3 x)"
    if "rt_fd x = kFd" "g_drv (rt_drv x) = Some d" for x
    using that du by (simp add: raw_submit_def ioctl_def sg_drv_ioctl_def set_driver_def)
  let ?x = "put_stream h (s\<lparr>sm_extra_waits := []\<rparr>) r"
  have "rt_fd ?x = kFd" "g_drv (rt_drv ?x) = Some d" using assms(1,2) by (simp_all add: put_stream_def split: option.split)
  note R = raw [OF this]
  have "sm_extra_waits s = [] \<Longrightarrow> s\<lparr>sm_extra_waits := []\<rparr> = s" by simp
  then have s0: "s\<lparr>sm_extra_waits := []\<rparr> = s" using assms(4) by simp
  have "\<not> rt_fd r < 0" using assms(1) by (simp add: kFd_def)
  then show ?thesis using assms(3-6) R unfolding s0
    by (simp add: stream_submit_def Let_def retired_def passed_def s0 d3)
qed

section \<open>Priorities\<close>

lemma set_driver_same: "g_drv (rt_drv r) = Some d \<Longrightarrow> set_driver d r = r"
  by (cases r; cases "rt_drv r") (simp add: set_driver_def)

lemma set_driver_twice [simp]: "set_driver d (set_driver d' r) = set_driver d r"
  by (simp add: set_driver_def)

lemma least_used_spec:
  "least_used cs b p found = (case v of None \<Rightarrow> None | Some c \<Rightarrow> Some c) \<Longrightarrow> (\<forall>f. found = Some f \<longrightarrow> cb_priority (b f) = p) \<Longrightarrow>
    (case v of
       None \<Rightarrow> found = None \<and> (\<forall>c \<in> set cs. cb_priority (b c) \<noteq> p)
     | Some c \<Rightarrow> cb_priority (b c) = p \<and> (c \<in> set cs \<or> found = Some c) \<and> (\<forall>f. found = Some f \<longrightarrow> cb_users (b c) \<le> cb_users (b f)) \<and>
         (\<forall>c' \<in> set cs. cb_priority (b c') = p \<longrightarrow> cb_users (b c) \<le> cb_users (b c')))"
proof (induction cs arbitrary: found)
  case (Cons x cs)
  show ?case
  proof (cases "cb_priority (b x) = p")
    case False
    then show ?thesis using Cons.IH [of found] Cons.prems by (auto split: option.splits)
  next
    case True
    define found' where "found' = (case found of None \<Rightarrow> Some x | Some f \<Rightarrow> if cb_users (b x) < cb_users (b f) then Some x else Some f)"
    have l: "least_used cs b p found' = (case v of None \<Rightarrow> None | Some c \<Rightarrow> Some c)"
      using Cons.prems(1) True by (auto simp: found'_def split: option.splits if_splits)
    have f: "\<forall>g. found' = Some g \<longrightarrow> cb_priority (b g) = p" using Cons.prems(2) True by (auto simp: found'_def split: option.splits if_splits)
    obtain g where g: "found' = Some g" "g = x \<or> found = Some g" "cb_users (b g) \<le> cb_users (b x)" "\<forall>f. found = Some f \<longrightarrow> cb_users (b g) \<le> cb_users (b f)"
      using that by (cases found; cases "cb_users (b x) < cb_users (b (the found))") (auto simp: found'_def)
    from Cons.IH [OF l f] g True show ?thesis by (cases v) (auto intro: order_trans)
  qed
qed (auto split: option.splits)

lemma all_channels_set: "c \<in> set (all_channels r) \<longleftrightarrow> c < rt_num_channels r"
proof
  assume "c \<in> set (all_channels r)"
  then obtain i where "i < unat (rt_num_channels r)" "c = of_nat i" by (auto simp: all_channels_def)
  then show "c < rt_num_channels r" using unat_less_32 [of "rt_num_channels r"] by (simp add: word_less_unat unsigned_of_nat take_bit_nat_eq_self)
qed (unfold all_channels_def, rule below_list)

abbreviation prio :: "driver \<Rightarrow> u32 \<Rightarrow> u32 \<Rightarrow> int" where
  "prio d e c \<equiv> priority (dv_ch (dr_dev d) e c)"

lemma set_priority_call:
  assumes "rt_fd r = kFd" "g_drv (rt_drv r) = Some d"
  shows "\<exists>rc d'. ioctl sys (SG_IOC_SET_PRIORITY (Some \<lparr>pr_engine = e, pr_channel = c, pr_priority = p\<rparr>)) ws r = Some ((rc, Nothing), ws, set_driver d' r) \<and>
    (rc = None \<longrightarrow> prio d' e c = p) \<and> (\<forall>e' c'. (e', c') \<noteq> (e, c) \<longrightarrow> prio d' e' c' = prio d e' c')"
proof -
  obtain rc dev where s: "set_channel_priority e c p (dr_dev d) = (rc, dev)" by fastforce
  have "rc = None \<longrightarrow> priority (dv_ch dev e c) = p" "\<forall>e' c'. (e', c') \<noteq> (e, c) \<longrightarrow> priority (dv_ch dev e' c') = prio d e' c'"
    using s by (auto simp: set_channel_priority_def Let_def upd_ch_def split: if_splits)
  moreover have "ioctl sys (SG_IOC_SET_PRIORITY (Some \<lparr>pr_engine = e, pr_channel = c, pr_priority = p\<rparr>)) ws r =
      Some ((rc, Nothing), ws, set_driver (d\<lparr>dr_dev := dev\<rparr>) r)"
    using assms s by (simp add: ioctl_def sg_drv_ioctl_def ioc_set_priority_def set_driver_def)
  ultimately show ?thesis by (intro exI [of _ rc] exI [of _ "d\<lparr>dr_dev := dev\<rparr>"]) simp
qed

lemma set_priority_engines_spec:
  assumes "set_priority_engines sys es c p ws r = Some (rc, ws', r')" "rt_fd r = kFd" "g_drv (rt_drv r) = Some d"
  shows "\<exists>d'. r' = set_driver d' r \<and> (rc = None \<longrightarrow> (\<forall>e \<in> set es. prio d' e c = p)) \<and> (\<forall>e' c'. c' \<noteq> c \<or> e' \<notin> set es \<longrightarrow> prio d' e' c' = prio d e' c')"
  using assms
proof (induction es arbitrary: ws r d)
  case Nil
  then show ?case by (intro exI [of _ d]) (simp add: set_driver_same)
next
  case (Cons e es)
  obtain rc1 d1 where s: "ioctl sys (SG_IOC_SET_PRIORITY (Some \<lparr>pr_engine = e, pr_channel = c, pr_priority = p\<rparr>)) ws r = Some ((rc1, Nothing), ws, set_driver d1 r)"
    "rc1 = None \<longrightarrow> prio d1 e c = p" "\<forall>e' c'. (e', c') \<noteq> (e, c) \<longrightarrow> prio d1 e' c' = prio d e' c'"
    using set_priority_call [OF Cons.prems(2,3)] by blast
  show ?case
  proof (cases rc1)
    case None
    with Cons.prems s have "set_priority_engines sys es c p ws (set_driver d1 r) = Some (rc, ws', r')" by simp
    from Cons.IH [OF this, of d1] Cons.prems(2) obtain d' where d': "r' = set_driver d' r" "rc = None \<longrightarrow> (\<forall>e \<in> set es. prio d' e c = p)"
      "\<forall>e' c'. c' \<noteq> c \<or> e' \<notin> set es \<longrightarrow> prio d' e' c' = prio d1 e' c'" by auto
    have "prio d' e c = p" if "rc = None" using that d'(2,3) s(2) None by (cases "e \<in> set es") auto
    then show ?thesis using d' s(3) by (intro exI [of _ d']) auto
  next
    case (Some er)
    with Cons.prems s have "rc = Some er" "r' = set_driver d1 r" by auto
    then show ?thesis using s(3) by (intro exI [of _ d1]) auto
  qed
qed

text \<open>C36: Priorities are kept apart. Binding a stream to a channel picks a least used one of the channels that have the
  priority; if there is none, a channel that no stream uses is programmed to it on every engine. Otherwise it fails and
  binds nothing. No other channel changes its priority, on the device or in the table.\<close>

theorem bind_channel_correct:
  assumes "bind_channel sys p ws r = Some (v, ws', r')" "rt_fd r = kFd" "g_drv (rt_drv r) = Some d" "rt_num_engines r = num_engines (dr_dev d)"
  shows "case v of
      Inr c \<Rightarrow> c < rt_num_channels r \<and> rt_bind r' = (rt_bind r)(c := \<lparr>cb_priority = p, cb_users = cb_users (rt_bind r c) + 1\<rparr>) \<and>
        (\<forall>e c'. c' \<noteq> c \<longrightarrow> prio (rt_driver r') e c' = prio d e c') \<and>
        (if cb_priority (rt_bind r c) = p
         then rt_driver r' = d \<and> (\<forall>c'. c' < rt_num_channels r \<longrightarrow> cb_priority (rt_bind r c') = p \<longrightarrow> cb_users (rt_bind r c) \<le> cb_users (rt_bind r c'))
         else cb_users (rt_bind r c) = 0 \<and> (\<forall>c'. c' < rt_num_channels r \<longrightarrow> cb_priority (rt_bind r c') \<noteq> p) \<and>
           (\<forall>e. e < num_engines (dr_dev d) \<longrightarrow> prio (rt_driver r') e c = p))
    | Inl er \<Rightarrow> rt_bind r' = rt_bind r \<and> (\<forall>c'. c' < rt_num_channels r \<longrightarrow> cb_priority (rt_bind r c') \<noteq> p) \<and>
        (er = SG_ERR_INVALID_VALUE \<or> (\<exists>c'. c' < rt_num_channels r \<and> cb_users (rt_bind r c') = 0))"
proof (cases "least_used (all_channels r) (rt_bind r) p None")
  case (Some c)
  have L: "cb_priority (rt_bind r c) = p" "c < rt_num_channels r" "\<forall>c'. c' < rt_num_channels r \<longrightarrow> cb_priority (rt_bind r c') = p \<longrightarrow> cb_users (rt_bind r c) \<le> cb_users (rt_bind r c')"
    using least_used_spec [of "all_channels r" "rt_bind r" p None "Some c"] Some all_channels_set [of _ r] by auto
  have "v = Inr c" "r' = add_user c r" using assms(1) Some by (simp_all add: bind_channel_def)
  moreover have "(rt_bind r c)\<lparr>cb_users := k\<rparr> = \<lparr>cb_priority = p, cb_users = k\<rparr>" for k using L(1) by (cases "rt_bind r c") simp
  ultimately show ?thesis using L assms(3) by (simp add: add_user_def rt_driver_def)
next
  case None
  have L: "\<forall>c'. c' < rt_num_channels r \<longrightarrow> cb_priority (rt_bind r c') \<noteq> p"
    using least_used_spec [of "all_channels r" "rt_bind r" p None None] None all_channels_set [of _ r] by auto
  show ?thesis
  proof (cases "find (\<lambda>c. cb_users (rt_bind r c) = 0) (all_channels r)")
    case f: None
    then show ?thesis using assms(1) None L by (auto simp: bind_channel_def)
  next
    case f: (Some c)
    then have c: "c < rt_num_channels r" "cb_users (rt_bind r c) = 0" using all_channels_set [of c r] by (auto simp: find_Some_iff)
    obtain rc ws1 r1 where s: "set_priority_all sys c p ws r = Some (rc, ws1, r1)"
      using assms(1) None f by (auto simp: bind_channel_def split: option.splits prod.splits)
    from set_priority_engines_spec [OF s [unfolded set_priority_all_def] assms(2,3)] obtain d1 where d1: "r1 = set_driver d1 r"
      "rc = None \<longrightarrow> (\<forall>e \<in> set (map of_nat [0 ..< unat (rt_num_engines r)]). prio d1 e c = p)" "\<forall>e' c'. c' \<noteq> c \<longrightarrow> prio d1 e' c' = prio d e' c'" by auto
    show ?thesis
    proof (cases rc)
      case rcN: None
      have eng: "\<forall>e. e < num_engines (dr_dev d) \<longrightarrow> prio d1 e c = p" using d1(2) rcN below_list assms(4) by auto
      have "v = Inr c" "r' = add_user c (r1\<lparr>rt_bind := (rt_bind r1)(c := (rt_bind r1 c)\<lparr>cb_priority := p\<rparr>)\<rparr>)"
        using assms(1) None f s rcN by (simp_all add: bind_channel_def)
      moreover have "(rt_bind r c)\<lparr>cb_priority := p, cb_users := k\<rparr> = \<lparr>cb_priority = p, cb_users = k\<rparr>" for k by (cases "rt_bind r c") simp
      ultimately show ?thesis using L c d1(1,3) eng by (simp add: add_user_def rt_driver_def set_driver_def)
    next
      case (Some er)
      with assms(1) None f s obtain rc2 ws2 where s2: "set_priority_all sys c SG_PRIORITY_LEAST ws1 r1 = Some (rc2, ws2, r')" "v = Inl (from_errno (Some er))"
        by (auto simp: bind_channel_def split: option.splits prod.splits)
      from set_priority_engines_spec [OF s2(1) [unfolded set_priority_all_def], of d1] d1(1) assms(2) obtain d2 where "r' = set_driver d2 r1" by auto
      then show ?thesis using s2(2) d1(1) L c by auto
    qed
  qed
qed

section \<open>Pinned memory\<close>

definition going :: "others list \<Rightarrow> bool" where
  "going ws \<longleftrightarrow> (\<forall>w \<in> set ws. \<forall>d. forward d (w d))"

lemma going_Cons [simp]: "going (w # ws) \<longleftrightarrow> (\<forall>d. forward d (w d)) \<and> going ws"
  by (auto simp: going_def)

lemma spin_forward: "spin pred budget n t0 ws d = Some (x, ws', d') \<Longrightarrow> going ws \<Longrightarrow> forward d d' \<and> going ws'"
proof (induction pred budget n t0 ws d rule: spin.induct)
  case (2 pred budget n t0 w ws d)
  then show ?case using forward_trans [of d "w d" d'] by (auto split: if_splits)
qed (auto simp: forward_refl split: if_splits)

lemma block_forward:
  "block pred am ws d = Some (ws', d') \<Longrightarrow> going ws \<Longrightarrow> (\<And>d. forward d (am d)) \<Longrightarrow> forward d d' \<and> going ws'"
proof (induction pred am ws d rule: block.induct)
  case (1 pred am w1 w2 w3 ws d)
  have f: "forward d (w2 (am (w1 d)))" "forward (w2 (am (w1 d))) (w3 (w2 (am (w1 d))))"
  proof -
    have "forward d (w1 d)" "forward (w1 d) (am (w1 d))" "forward (am (w1 d)) (w2 (am (w1 d)))" using 1(3,4) by simp_all
    then show "forward d (w2 (am (w1 d)))" by (blast intro: forward_trans)
  qed (use 1(3) in simp)
  then have g: "forward d (w3 (w2 (am (w1 d))))" by (rule forward_trans)
  then have h: "forward (w3 (w2 (am (w1 d)))) d' \<Longrightarrow> forward d d'" by (rule forward_trans)
  show ?case using 1 f(1) g h by (auto simp: Let_def split: if_splits)
qed auto

lemma book_free_forward: "book_free (forward d)"
  by (simp add: book_free_def forward_def retired_def published_def)

lemma arm_snapshot_forward: "forward d (arm_snapshot snap d)"
proof -
  have one: "forward x (if P x then arm_fence e c v x else x)" for x P e c v
    by (simp add: forward_def arm_fence_def arm_irq_def retired_def published_def upd_ch_def)
  have fold: "forward d (fold f xs d)" if "\<And>x d. forward d (f x d)" for f :: "u32 \<Rightarrow> driver \<Rightarrow> driver" and xs d
    using that by (induction xs arbitrary: d) (auto intro: forward_refl forward_trans)
  show ?thesis unfolding arm_snapshot_def
    by (intro fold) (rule one [of _ "\<lambda>d. snap _ _ \<noteq> 0 \<and> retired d _ _ < snap _ _"])
qed

lemma wait_until_forward:
  assumes "wait_until pred am flags ew ws d = Some (k, ws', d')" "going ws" "\<And>d. forward d (am d)"
  shows "forward d d'"
proof (cases "pred d")
  case True
  then show ?thesis using assms(1) by (simp add: wait_until_def forward_refl)
next
  case False
  let ?p = "wait_policy flags d"
  obtain dn t0 ws1 d1 where s: "spin pred (wait_budget ?p ew d) 512 0 ws d = Some ((dn, t0), ws1, d1)"
    using assms(1) False by (auto simp: wait_until_def Let_def split: option.splits)
  note S = spin_forward [OF s assms(2)]
  have ct: "forward x (y\<lparr>dr_ct := z\<rparr>) = forward x y" "forward (y\<lparr>dr_ct := z\<rparr>) x = forward y x" for x y z
    by (simp_all add: forward_def retired_def published_def)
  show ?thesis
  proof (cases dn)
    case True
    then have "d' = update_ewma ?p ew True t0 (d1\<lparr>dr_ct := (dr_ct d1)\<lparr>ct_waits_spun := ct_waits_spun (dr_ct d1) + 1\<rparr>\<rparr>)"
      using assms(1) False s by (simp add: wait_until_def Let_def)
    then show ?thesis using S book_freeD(1) [OF book_free_forward] by (simp add: ct)
  next
    case nd: False
    then obtain d2 where b: "block pred am ws1 (d1\<lparr>dr_ct := (dr_ct d1)\<lparr>ct_waits_blocked := ct_waits_blocked (dr_ct d1) + 1\<rparr>\<rparr>) = Some (ws', d2)"
      "d' = update_ewma ?p ew False t0 d2" using assms(1) False s by (auto simp: wait_until_def Let_def split: option.splits)
    have "forward d1 d2" using block_forward [OF b(1) _ assms(3)] S by (simp add: ct)
    then have "forward d d2" using S forward_trans by blast
    then show ?thesis using b(2) book_freeD(1) [OF book_free_forward] by simp
  qed
qed

lemma wait_snapshot_forward:
  assumes "wait_snapshot snap flags ws d = Some (rc, ws', d')" "going ws"
  shows "all_retired snap d' \<and> forward d d'"
proof -
  obtain k ws1 d1 where w: "wait_until (all_retired snap) (arm_snapshot snap) flags EwmaAll ws d = Some (k, ws1, d1)"
    and e: "end_wait False k d1 = (rc, d')" using assms(1) by (auto simp: wait_snapshot_def split: option.splits prod.splits)
  have "all_retired snap d'"
    using wait_until_sound [OF w book_free_regs(2)] book_freeD(2) [OF book_free_regs(2), of snap False k d1] e by simp
  moreover have "forward d d'"
    using wait_until_forward [OF w assms(2) arm_snapshot_forward] book_freeD(2) [OF book_free_forward, of d False k d1] e by simp
  ultimately show ?thesis by simp
qed

lemma unpin_forward:
  assumes "ioc_unpin addr ws d = (rc, ws', d')" "going ws"
  shows "forward d d' \<and> going ws'"
proof -
  have b: "forward x y \<and> going vs'" if "breathe vs x = (vs', y)" "going vs" for vs x vs' y
    using that by (cases vs) (auto simp: forward_refl)
  have pins: "forward (d\<lparr>dr_pins := m\<rparr>) x = forward d x" for x m by (simp add: forward_def retired_def published_def)
  show ?thesis
  proof (cases "map_of (dr_pins d) addr")
    case None
    then show ?thesis using assms by (simp add: ioc_unpin_def forward_refl)
  next
    case (Some sz)
    obtain ws1 d1 ws2 d2 where s: "breathe ws (d\<lparr>dr_pins := om_erase addr (dr_pins d)\<rparr>) = (ws1, d1)" "breathe ws1 d1 = (ws2, d2)" by fastforce
    have "forward d d1" "going ws1" using b [OF s(1) assms(2)] pins by simp_all
    then have "forward d d2" "going ws2" using b [OF s(2)] forward_trans by blast+
    then show ?thesis using assms(1) Some s by (auto simp: ioc_unpin_def Let_def)
  qed
qed

text \<open>C37: Pinned memory outlives its transfers. When \<^verbatim>\<open>sgFreeHost\<close> gives the memory back, every command published on any channel
  before the call has retired, also if the wait reports a device error.\<close>

theorem free_host_drained:
  assumes "sgFreeHost sys p ws r = Some ((er, True), ws', r')" "g_drv (rt_drv r) = Some d" "going ws"
    and "e < num_engines (dr_dev d)" "c < num_channels (dr_dev d)"
  shows "published d e c \<le> retired (rt_driver r') e c"
proof -
  let ?w = "\<lparr>wa_engine = SG_WAIT_ALL, wa_channel = 0, wa_fence = 0, wa_flags = rt_sync_flags r\<rparr>"
  from assms(1) obtain rep ws1 r1 where u: "ioctl sys (SG_IOC_UNPIN (Some \<lparr>pa_addr = p, pa_size = 0\<rparr>)) ws r = Some ((None, rep), ws1, r1)"
    and w: "wait_all sys ws1 r1 = Some (er, ws', r')" by (auto simp: sgFreeHost_def split: if_splits option.splits prod.splits)
  from u obtain d1 where d1: "rt_fd r = kFd" "ioc_unpin p ws d = (None, ws1, d1)" "r1 = set_driver d1 r"
    using assms(2) by (auto simp: plain_def elim!: ioctl_Some split: prod.splits)
  note U = unpin_forward [OF d1(2) assms(3)]
  from w d1 obtain rc d2 where s: "wait_snapshot (snapshot_puts d1) (rt_sync_flags r) ws1 d1 = Some (rc, ws', d2)" "r' = set_driver d2 r"
    by (auto simp: wait_all_def status_def ioctl_def sg_drv_ioctl_def plain_def ioc_wait_def set_driver_def)
  note W = wait_snapshot_forward [OF s(1) conjunct2 [OF U]]
  have n: "num_engines (dr_dev d2) = num_engines (dr_dev d)" "num_channels (dr_dev d2) = num_channels (dr_dev d)"
    "num_engines (dr_dev d1) = num_engines (dr_dev d)" "num_channels (dr_dev d1) = num_channels (dr_dev d)" using U W by (auto simp: forward_def)
  have "published d e c \<le> published d1 e c" using U by (simp add: forward_def)
  also have "\<dots> = snapshot_puts d1 e c" using assms(4,5) n by (simp add: snapshot_puts_def)
  also have "\<dots> \<le> retired d2 e c" using all_retiredD [of "snapshot_puts d1" d2 e c] W n assms(4,5) by simp
  finally show ?thesis using s(2) by simp
qed

section \<open>Examples\<close>

lemmas stream_code [code] = stream_submit_def [unfolded Let_def] ioc_unpin_def [unfolded Let_def] set_channel_priority_def [unfolded Let_def]

text \<open>A runtime as \<^verbatim>\<open>sgInit\<close> leaves it on two engines, whose default stream last ran a copy.\<close>

definition demo_rt :: "driver \<Rightarrow> runtime" where
  "demo_rt d = (runtime_new \<lparr>g_drv = Some d, g_refs = 1\<rparr>)\<lparr>rt_fd := kFd, rt_num_engines := 2, rt_num_ce := 1, rt_num_channels := 8,
     rt_bind := (\<lambda>_. no_bind)(0 := no_bind\<lparr>cb_users := 1\<rparr>),
     rt_default := new_stream\<lparr>sm_has_tail := True, sm_tail := \<lparr>fn_engine = 1, fn_channel = 0, fn_value = 1\<rparr>\<rparr>\<rparr>"

definition demo_sys :: host_sys where
  "demo_sys = \<lparr>hs_uffd = \<lparr>uo_copy = (\<lambda>_. None), uo_dontneed = (\<lambda>_. True)\<rparr>, hs_map = (\<lambda>_. None), hs_register = (\<lambda>_ _. None)\<rparr>"

definition demo_copied :: driver where
  "demo_copied = demo_copy_drv\<lparr>dr_ring := (dr_ring demo_copy_drv)\<lparr>rd_put := set2 1 0 1 (rd_put (dr_ring demo_copy_drv)), rd_mode := SG_SUBMIT_TICKET\<rparr>\<rparr>"

definition demo_set :: sg_cmd where
  "demo_set = (make_cmd SG_OP_FILL)\<lparr>dst := 0x1000, cmd_size := 16\<rparr>"

lemma demo_rt_stream: "get_stream None (demo_rt d) = Some (new_stream\<lparr>sm_has_tail := True, sm_tail := \<lparr>fn_engine = 1, fn_channel = 0, fn_value = 1\<rparr>\<rparr>)"
  "rt_driver (demo_rt d) = d" "rt_fd (demo_rt d) = kFd" "g_drv (rt_drv (demo_rt d)) = Some d" "rt_num_engines (demo_rt d) = 2" "rt_num_channels (demo_rt d) = 8"
  by (simp_all add: demo_rt_def get_stream_def rt_driver_def runtime_new_def)

lemma demo_copied_log: "dr_log demo_copied = []"
  by (simp add: demo_copied_def demo_copy_drv_def demo_drv_def driver_new_def Let_def)

text \<open>A ring whose tickets are all published and that has room takes a command at once.\<close>

definition ready :: "u64 \<Rightarrow> driver \<Rightarrow> bool" where
  "ready n d \<longleftrightarrow> rd_mode (dr_ring d) = SG_SUBMIT_TICKET \<and> rd_depth (dr_ring d) = 1024 \<and> rd_reserve (dr_ring d) 0 0 = n \<and> published d 0 0 = n \<and>
     retired d 0 0 = 0 \<and> published d 1 0 = 1 \<and> dr_allocs d = dr_allocs demo_copy_drv \<and> num_engines (dr_dev d) = 2 \<and> num_channels (dr_dev d) = 8 \<and> (\<forall>e c. sticky_error (dv_ch (dr_dev d) e c) = None)"

lemma ready_ct [simp]: "ready n (d\<lparr>dr_ct := k\<rparr>) \<longleftrightarrow> ready n d"
  by (simp add: ready_def published_def retired_def)

lemma ready_sticky: "ready n d \<Longrightarrow> sticky d = None"
proof -
  assume "ready n d"
  then have "find (\<lambda>x. x \<noteq> None) (concat (map (\<lambda>e. map (\<lambda>c. sticky_error (dv_ch (dr_dev d) e c)) (channel_list (dr_dev d))) (engine_list (dr_dev d)))) = None"
    by (auto simp: ready_def find_None_iff)
  then show ?thesis by (simp add: sticky_def)
qed


lemma enqueue_ready:
  assumes "ready n d" "n < 1024"
  obtains d' where "enqueue 0 0 cmd ws d = Some (n + 1, ws, d')" "ready (n + 1) d'"
proof -
  let ?d0 = "d\<lparr>dr_ring := (dr_ring d)\<lparr>rd_reserve := set2 0 0 (n + 1) (rd_reserve (dr_ring d))\<rparr>\<rparr>"
  let ?d' = "publish 0 0 n (write_slot 0 0 n cmd ?d0)"
  have "\<not> 1024 \<le> n" using assms(2) by simp
  then have "enqueue 0 0 cmd ws d = Some (n + 1, ws, ?d')"
    using assms by (simp add: ready_def enqueue_def reserve_slot_def await_space_def await_turn.simps write_slot_def published_def retired_def Let_def)
  moreover have "ready (n + 1) ?d'"
    using assms by (simp add: ready_def publish_def write_slot_def published_def retired_def sticky_def set2_def upd_ch_def begin_doorbell_def end_doorbell_def
      doorbell_def stamp_and_signal_def signal_bell_def Let_def split: option.splits)
  ultimately show ?thesis by (rule that)
qed

lemma ready_submit:
  assumes "ready n d" "n < 1024" "cmd = demo_set \<or> cmd = wait_cmd \<lparr>fn_engine = 1, fn_channel = 0, fn_value = 1\<rparr>" "rt_fd r = kFd" "g_drv (rt_drv r) = Some d"
  obtains d' where "raw_submit demo_sys 0 0 cmd 0 ws r = Some (Inr (n + 1, False), ws, r\<lparr>rt_drv := (rt_drv r)\<lparr>g_drv := Some d'\<rparr>\<rparr>)" "ready (n + 1) d'"
proof -
  let ?a = "\<lparr>sa_cmd = cmd, sa_host_ptr = 0, sa_fence = 0, sa_out_flags = 0, sa_engine = 0, sa_channel = 0\<rparr>"
  let ?d = "d\<lparr>dr_ct := (dr_ct d)\<lparr>ct_submits := ct_submits (dr_ct d) + 1\<rparr>\<rparr>"
  obtain d' where e: "enqueue 0 0 cmd ws ?d = Some (n + 1, ws, d')" "ready (n + 1) d'"
    by (rule enqueue_ready [where n = n and d = ?d and cmd = cmd and ws = ws]) (use assms(1,2) in simp_all)
  have r: "rd_mode (dr_ring d) = SG_SUBMIT_TICKET" "rd_mode (dr_ring d') = SG_SUBMIT_TICKET" "published d 1 0 = 1" "num_engines (dr_dev d) = 2" "num_channels (dr_dev d) = 8"
    "dr_allocs d = dr_allocs demo_copy_drv" using assms(1) e(2) by (simp_all add: ready_def)
  have le8: "\<not> (8 :: u32) \<le> 1" "\<not> (2 :: u32) \<le> 1" by (simp_all add: word_le_nat_alt)
  have "submit_refused ?a d = None"
    using assms(3) r ready_sticky [OF assms(1)] by (auto simp: submit_refused_def demo_set_def wait_cmd_def make_cmd_def zero_cmd_def sg_ops is_copy_op_def is_compute_op_def SG_ENGINE_COMPUTE_def le8 Let_def)
  moreover have "owns ?d 0x1000 16" using r(6) by (simp add: owns_def om_upto_def demo_copy_drv_def)
  then have "submit_body ?a ws ?d = submit_one ?a cmd ws ?d"
    using assms(3) r(3-5) by (elim disjE) (simp_all add: submit_body_def demo_set_def wait_cmd_def make_cmd_def zero_cmd_def sg_ops published_def le8 Let_def)
  then have "submit_body (?a\<lparr>sa_out_flags := 0\<rparr>) ws ?d = Some ((None, ?a\<lparr>sa_fence := n + 1\<rparr>), ws, d')" using e(1) by (simp add: submit_one_def)
  ultimately have "do_submit ?a ws d = Some ((None, ?a\<lparr>sa_fence := n + 1\<rparr>), ws, d')"
    using r by (simp add: do_submit_def lock_channel_def unlock_channel_def)
  then have "raw_submit demo_sys 0 0 cmd 0 ws r = Some (Inr (n + 1, False), ws, r\<lparr>rt_drv := (rt_drv r)\<lparr>g_drv := Some d'\<rparr>\<rparr>)"
    using assms(4,5) by (simp add: raw_submit_def ioctl_def sg_drv_ioctl_def)
  then show ?thesis using e(2) by (rule that)
qed

lemma demo_stream_submit: "\<exists>r'. stream_submit demo_sys None 0 demo_set 0 [] (demo_rt demo_copied) = Some ((SG_OK, Some (2, False)), [], r')"
proof -
  let ?r = "demo_rt demo_copied" and ?f = "\<lparr>fn_engine = 1, fn_channel = 0, fn_value = 1\<rparr>"
  let ?r2 = "put_stream None (new_stream\<lparr>sm_has_tail := True, sm_tail := ?f, sm_extra_waits := []\<rparr>) ?r"
  have z: "ready 0 demo_copied" by (simp add: ready_def demo_copied_def demo_copy_drv_def demo_dev_def published_def retired_def set2_def fresh_channel_def)
  have g: "rt_fd ?r2 = kFd" "g_drv (rt_drv ?r2) = Some demo_copied" using demo_rt_stream by (simp_all add: put_stream_def)
  obtain d1 where a: "raw_submit demo_sys 0 0 (wait_cmd ?f) 0 [] ?r2 = Some (Inr (1, False), [], ?r2\<lparr>rt_drv := (rt_drv ?r2)\<lparr>g_drv := Some d1\<rparr>\<rparr>)" "ready 1 d1"
    by (rule ready_submit [OF z _ _ g, where cmd = "wait_cmd ?f" and ws = "[]"]) auto
  let ?r3 = "?r2\<lparr>rt_drv := (rt_drv ?r2)\<lparr>g_drv := Some d1\<rparr>\<rparr>"
  obtain d2 where b: "raw_submit demo_sys 0 0 demo_set 0 [] ?r3 = Some (Inr (2, False), [], ?r3\<lparr>rt_drv := (rt_drv ?r3)\<lparr>g_drv := Some d2\<rparr>\<rparr>)"
    by (rule ready_submit [OF a(2), where cmd = demo_set and ws = "[]" and r = ?r3]) (use g in auto)
  have "\<not> rt_fd ?r < 0" using demo_rt_stream(3) by (simp add: kFd_def)
  then show ?thesis unfolding stream_submit_def demo_rt_stream(1) Let_def
    using a(1) b by (simp add: new_stream_def same_ring_def)
qed

theorem empty_copy_loses_tail_witness:
  "\<exists>r'. stream_submit demo_sys None 1 ((make_cmd SG_OP_COPY_H2D)\<lparr>dst := 0x1000\<rparr>) 0x500000 [] (demo_rt demo_copied) = Some ((SG_OK, Some (0, False)), [], r') \<and>
     published demo_copied 1 0 = 1 \<and> retired demo_copied 1 0 = 0 \<and>
     map_option sm_tail (get_stream None r') = Some \<lparr>fn_engine = 1, fn_channel = 0, fn_value = 0\<rparr>"
proof -
  let ?cmd = "(make_cmd SG_OP_COPY_H2D)\<lparr>dst := 0x1000\<rparr>" and ?s = "new_stream\<lparr>sm_has_tail := True, sm_tail := \<lparr>fn_engine = 1, fn_channel = 0, fn_value = 1\<rparr>\<rparr>"
  have d: "owns demo_copied (dst ?cmd) 0" "\<not> pinned demo_copied 0x500000 0" "rd_mode (dr_ring demo_copied) = SG_SUBMIT_TICKET"
    "submit_refused \<lparr>sa_cmd = ?cmd, sa_host_ptr = 0x500000, sa_fence = 0, sa_out_flags = 0, sa_engine = 1, sa_channel = sm_channel ?s\<rparr> demo_copied = None"
    "published demo_copied 1 0 = 1" "retired demo_copied 1 0 = 0" by code_simp+
  have "\<exists>r'. stream_submit demo_sys None 1 ?cmd 0x500000 [] (demo_rt demo_copied) = Some ((SG_OK, Some (0, False)), [], r') \<and>
      dr_log (rt_driver r') = dr_log demo_copied \<and> retired (rt_driver r') 1 (sm_channel ?s) = retired demo_copied 1 (sm_channel ?s) \<and>
      get_stream None r' = Some (?s\<lparr>sm_tail := \<lparr>fn_engine = 1, fn_channel = sm_channel ?s, fn_value = 0\<rparr>\<rparr>) \<and>
      (\<forall>x. passed \<lparr>fn_engine = 1, fn_channel = sm_channel ?s, fn_value = 0\<rparr> x)"
    by (rule empty_copy_loses_tail [OF demo_rt_stream(3,4,1)]) (use d in \<open>simp_all add: new_stream_def same_ring_def make_cmd_def zero_cmd_def\<close>)
  then show ?thesis using d(5,6) by (auto simp: new_stream_def)
qed

theorem bind_channel_correct_witness:
  "\<exists>ws' r'. bind_channel demo_sys (-3) [] (demo_rt demo_copied) = Some (Inr 1, ws', r') \<and> cb_priority (rt_bind r' 1) = -3 \<and> cb_users (rt_bind r' 0) = 1 \<and>
     prio (rt_driver r') 0 1 = -3 \<and> prio (rt_driver r') 1 1 = -3 \<and> prio (rt_driver r') 0 0 = 0"
proof -
  have "map_option fst (bind_channel demo_sys (-3) [] (demo_rt demo_copied)) = Some (Inr 1)" by code_simp
  then obtain ws' r' where b: "bind_channel demo_sys (-3) [] (demo_rt demo_copied) = Some (Inr 1, ws', r')" by auto
  have n: "num_engines (dr_dev demo_copied) = 2" "prio demo_copied 0 0 = 0" by code_simp+
  have "rt_num_engines (demo_rt demo_copied) = num_engines (dr_dev demo_copied)" by (simp add: n demo_rt_stream)
  from bind_channel_correct [OF b demo_rt_stream(3,4) this] n b show ?thesis by (simp add: demo_rt_def no_bind_def)
qed

definition demo_pinned :: driver where
  "demo_pinned = demo_busy\<lparr>dr_pins := [(0x5000, 0x1000)]\<rparr>"

theorem free_host_drained_witness:
  "\<exists>er ws' r'. sgFreeHost demo_sys 0x5000 (replicate 6 demo_retires) (demo_rt demo_pinned) = Some ((er, True), ws', r') \<and>
     published demo_pinned 0 0 = 1 \<and> 1 \<le> retired (rt_driver r') 0 0"
proof -
  have "map_option (snd \<circ> fst) (sgFreeHost demo_sys 0x5000 (replicate 6 demo_retires) (demo_rt demo_pinned)) = Some True" by code_simp
  then obtain er ws' r' where s: "sgFreeHost demo_sys 0x5000 (replicate 6 demo_retires) (demo_rt demo_pinned) = Some ((er, True), ws', r')" by auto
  have n: "num_engines (dr_dev demo_pinned) = 2" "num_channels (dr_dev demo_pinned) = 8" "published demo_pinned 0 0 = 1" by code_simp+
  have "going (replicate 6 demo_retires)" using demo_retires_lock by (auto simp: going_def under_lock_def)
  from free_host_drained [OF s demo_rt_stream(4) this, of 0 0] n s show ?thesis by simp
qed

end
