(* ===== verification/Spec2Isabelle.thy ===== *)
theory Spec2Isabelle
  imports Machine Kmod Streams
begin

text \<open>
  Verification of softgpu, a software GPU. The program has three layers and an optional kernel module. The runtime
  (\<^verbatim>\<open>src/src/runtime/runtime.cpp\<close>) gives applications streams, events, copies and two kernels. The user-mode driver
  (\<^verbatim>\<open>src/src/driver/driver.cpp\<close>, \<^verbatim>\<open>vram_alloc.cpp\<close>) owns the command rings, the memory allocators, the page migration and the
  waits, behind an \<^verbatim>\<open>ioctl\<close>-like interface (\<^verbatim>\<open>src/include/softgpu/sg_ioctl.h\<close>). The device (\<^verbatim>\<open>src/src/device/device.cpp\<close>,
  \<^verbatim>\<open>mmu.cpp\<close>) has one compute engine and some copy engines, each a thread with up to eight channels; a channel is a ring of
  commands with a PUT register written by the driver and a GET register written by the engine, and GET is also the fence
  that waits look at. The module (\<^verbatim>\<open>src/kmod/softgpu.c\<close>) can supply the memory of the rings and the interrupt line.

  \<^bold>\<open>Shared theories.\<close> \<open>Prelude\<close>: integer types, error numbers, byte intervals, word arithmetic read as natural numbers, and
  the locale \<open>invariant_machine\<close> (an invariant kept by every step holds in every reachable state), interpreted by \<open>Mmu\<close>,
  \<open>Submit\<close> and \<open>Machine\<close>. \<open>Std_Map\<close>: \<^verbatim>\<open>std::map\<close> and \<^verbatim>\<open>std::unordered_map\<close> as association lists, with the locale \<open>dictionary\<close>
  interpreted for both. \<open>Abi\<close>: constants, opcodes, the command record and the layout of the module's mapping.

  \<^bold>\<open>Memory.\<close> \<open>Vram_Alloc\<close> is the first-fit allocator with its two-phase free (locale \<open>range_allocator\<close>): blocks are aligned, in
  range and disjoint, an allocation fails only if nothing fits, and allocate-then-free is the identity. \<open>Mmu\<close> is the page
  table with its per-engine TLBs: a translation through a TLB is the page table's answer in every reachable state, and no
  dirty bit is lost. \<open>Vmem\<close> is device memory as the engines address it (\<^verbatim>\<open>run_at\<close>, \<^verbatim>\<open>resolve\<close>); \<open>logical\<close> is the content of an
  address wherever its page is. \<open>Managed\<close> is what runs under \<^verbatim>\<open>mem_lock\<close>: migration, CLOCK eviction, write-back, prefetch, release,
  with and without \<^verbatim>\<open>userfaultfd\<close>; every operation keeps \<open>mgr_inv\<close> and the logical contents.

  \<^bold>\<open>Execution.\<close> \<open>Exec\<close> is \<^verbatim>\<open>Device::execute\<close> with the replay record that lets a command resume after a page fault (locale
  \<open>scratch_buffer\<close>); \<open>Kernels\<close> the loops of VADD and GEMM (float operations are arguments); \<open>Commands\<close> states the effect of each
  command on logical memory and proves that any number of faults, with pages migrating in between, does not change it
  (locale \<open>compute_kernel\<close>, interpreted for both kernels). An attempt at a command is one step: pages move between attempts.

  \<^bold>\<open>Scheduling and concurrency.\<close> \<open>Device\<close> has the registers and doorbells, \<open>Runlist\<close> the engine thread \<^verbatim>\<open>Device::run\<close> as a program
  counter over its locals, \<open>Submit\<close> the producers (\<^verbatim>\<open>enqueue\<close> in both submission modes) and the fault thread, composed
  into one interleaving machine \<open>sys_step\<close>. \<open>Fence_Order\<close>, \<open>Parking\<close> and \<open>Doorbells\<close> have one invariant each, and \<open>Machine\<close> the
  results for every reachable state: rings are first-in first-out and never overrun, semaphore waits do not deadlock and
  do order, a channel is parked exactly while its one fault is outstanding, and no doorbell is lost.

  \<^bold>\<open>Driver calls.\<close> \<open>Knobs\<close> reads the environment; \<open>Waits\<close> has \<^verbatim>\<open>struct Driver\<close>, its constructor and all waits; \<open>Drv_Submit\<close> is
  \<^verbatim>\<open>do_submit\<close> with direct and staged copies; \<open>Drv_Ioctl\<close> the other requests, open and close; \<open>Kmod\<close> the kernel module. These
  are calls of one thread. What the other threads do meanwhile is a list of functions on the driver, consulted wherever the
  call reads shared state: a call that waits longer than the list is \<open>None\<close>. Theorems hold for every list, under a named
  rely where they need one: \<open>hands_off\<close> (others do not write this caller's history), \<open>kept\<close> (others keep an invariant), \<open>under_lock\<close>
  and \<open>going\<close> (others let counters only grow). That a wait does end once its fence is retired is proved in \<open>Waits\<close>. The theorem
  below ties the two views together: a call alone is exactly a run of the producer's steps of the machine.

  \<^bold>\<open>Runtime.\<close> \<open>Runtime\<close> has every call of the public API over the driver's system calls. \<open>Streams\<close> proves stream order across
  engines (against the locale \<open>submit_port\<close>, interpreted by \<^verbatim>\<open>raw_submit\<close> on the driver), the binding of channels to
  priorities, and the release of pinned memory.

  \<^bold>\<open>Bounds.\<close> Registers, addresses and sizes are words of the widths of the source and wrap as they do. Ring slots are claimed
  below \<open>2 ^ 63\<close>, which a device cannot use up; event sequence numbers and the driver's reference count are unbounded
  numbers. Loops are total functions, with lengths or word distances as measures; the loops of staged copies are partial functions
  with value \<open>None\<close> for not returning, and the runs of the examples are bounded by their schedules.

  \<^bold>\<open>Not modelled.\<close> Memory is sequentially consistent, so the experiment \<^verbatim>\<open>SG_EXPERIMENT_NO_FENCE\<close> is left out; a scan step of the
  engine reads a few registers of one channel at once. The operating system (\<^verbatim>\<open>userfaultfd\<close>, \<^verbatim>\<open>mmap\<close>, \<^verbatim>\<open>madvise\<close>, the char device,
  the scheduler, clocks) answers through arguments. Thread creation and placement, the driver's destructor, traces, the time
  spent contended on locks other than a channel's, the registration of the module, the benchmarks and the tests
  are not modelled.
\<close>

section \<open>The call and the machine\<close>

text \<open>One producer on its own: its steps until it is done with the command (or stuck).\<close>

fun enq_run :: "nat \<Rightarrow> enq \<Rightarrow> ring_drv \<Rightarrow> device \<Rightarrow> (enq \<times> ring_drv \<times> device) option" where
  "enq_run 0 p r d = Some (p, r, d)"
| "enq_run (Suc n) p r d =
     (if eq_pc p = EUnlock then Some (p, r, d)
      else case enq_step p r d of None \<Rightarrow> None | Some (p', r', d') \<Rightarrow> enq_run n p' r' d')"

definition enq_start :: "u32 \<Rightarrow> u32 \<Rightarrow> sg_cmd \<Rightarrow> enq" where
  "enq_start e c cmd = \<lparr>eq_pc = EReserve, eq_engine = e, eq_channel = c, eq_cmd = cmd, eq_more = [], eq_slot = 0, eq_result = None\<rparr>"

text \<open>With nobody else at work, a wait ends at once or never.\<close>

lemma spin_alone: "spin pred budget 512 t0 [] d = None"
  using spin.simps(1) [of pred budget 511 t0 d] by simp

lemma wait_alone: "wait_until pred am flags ew [] d = (if pred d then Some (kNoWait, [], d) else None)"
  by (simp add: wait_until_def spin_alone Let_def)

lemmas enq_steps = eq_reserve_def eq_space_def eq_stall_def eq_write_def eq_turn_def eq_begin_def eq_store_def eq_mirror_def eq_ring_def
  eq_end_def at_def

lemmas enqueue_parts = enqueue_def reserve_slot_def await_space_def await_turn.simps write_slot_def publish_def published_def retired_def passed_def


end
